(* ===== verification/Prelude.thy ===== *)
theory Prelude
  imports Main "HOL-Library.Word" "HOL-Library.Multiset"
begin

text \<open>
  Shared vocabulary of the development: the machine integers of the Rust sources, the integer
  operations of the Rust standard library that the kernel calls (\<open>saturating_sub\<close>,
  \<open>checked_add\<close>, \<open>trailing_zeros\<close>, \<open>leading_zeros\<close>), page arithmetic on 64-bit addresses,
  and generic lemmas on lists and words that several components use.

  Plain \<open>+\<close>, \<open>-\<close> and \<open>*\<close> on a \<^typ>\<open>'a word\<close> wrap around, as the release profile of the
  kernel does.  Indices into Rust vectors are natural numbers, since a vector is never longer
  than \<open>isize::MAX\<close>.  A Rust \<open>Result\<close> is a sum whose left summand is the error.
\<close>

unbundle bit_operations_syntax

section \<open>Machine integers\<close>

type_synonym u8 = "8 word"
type_synonym u16 = "16 word"
type_synonym u32 = "32 word"
type_synonym u64 = "64 word"
type_synonym u128 = "128 word"

named_theorems rust_arith \<open>reading the library's integer operations on natural numbers\<close>

definition saturating_sub :: "'a::len word \<Rightarrow> 'a word \<Rightarrow> 'a word" where
  "saturating_sub a b = (if a < b then 0 else a - b)"

definition saturating_add :: "'a::len word \<Rightarrow> 'a word \<Rightarrow> 'a word" where
  "saturating_add a b = (if unat a + unat b < 2 ^ LENGTH('a) then a + b else - 1)"

definition checked_add :: "'a::len word \<Rightarrow> 'a word \<Rightarrow> 'a word option" where
  "checked_add a b = (if unat a + unat b < 2 ^ LENGTH('a) then Some (a + b) else None)"

definition checked_sub :: "'a::len word \<Rightarrow> 'a word \<Rightarrow> 'a word option" where
  "checked_sub a b = (if b \<le> a then Some (a - b) else None)"

lemma unat_saturating_sub [rust_arith]: "unat (saturating_sub a b) = unat a - unat b"
  by (auto simp: saturating_sub_def word_less_nat_alt unat_sub word_le_nat_alt)

lemma unat_add_no_overflow:
  fixes a b :: "'a::len word"
  assumes "unat a + unat b < 2 ^ LENGTH('a)"
  shows "unat (a + b) = unat a + unat b"
  using assms by (simp add: unat_word_ariths)

lemma unat_saturating_add [rust_arith]:
  fixes a b :: "'a::len word"
  shows "unat (saturating_add a b) = min (unat a + unat b) (2 ^ LENGTH('a) - 1)"
  by (auto simp: saturating_add_def unat_add_no_overflow unsigned_minus_1_eq_mask mask_eq_exp_minus_1)

lemma saturating_add_ge: "a \<le> saturating_add a b"
  for a b :: "'a::len word"
proof -
  have "unat a < 2 ^ LENGTH('a)" by (rule unsigned_less)
  then have "unat a \<le> 2 ^ LENGTH('a) - 1" by linarith
  then show ?thesis by (simp add: word_le_nat_alt unat_saturating_add)
qed

lemma unat_sub_if_le: "b \<le> a \<Longrightarrow> unat (a - b) = unat a - unat b"
  for a b :: "'a::len word"
  by (simp add: unat_sub)

lemma unat_max [rust_arith]: "unat (max a b) = max (unat a) (unat b)"
  for a b :: "'a::len word"
  by (simp add: max_def word_le_nat_alt)

lemma unat_min [rust_arith]: "unat (min a b) = min (unat a) (unat b)"
  for a b :: "'a::len word"
  by (simp add: min_def word_le_nat_alt)

lemma unat_u64_less: "unat (a :: u64) < 2 ^ 64"
  using unsigned_less [of a, where 'a = nat] by simp

section \<open>Bit counting\<close>

text \<open>\<open>trailing_zeros\<close> and \<open>leading_zeros\<close> of the integer types; both give the width on zero.\<close>

definition trailing_zeros :: "'a::len word \<Rightarrow> nat" where
  "trailing_zeros w = length (takeWhile (\<lambda>i. \<not> bit w i) [0..<LENGTH('a)])"

definition leading_zeros :: "'a::len word \<Rightarrow> nat" where
  "leading_zeros w = length (takeWhile (\<lambda>i. \<not> bit w (LENGTH('a) - 1 - i)) [0..<LENGTH('a)])"

lemma length_takeWhile_upt:
  assumes "\<exists>i<n. \<not> P i"
  shows "length (takeWhile P [0..<n]) < n"
    and "\<not> P (length (takeWhile P [0..<n]))"
    and "\<And>i. i < length (takeWhile P [0..<n]) \<Longrightarrow> P i"
proof -
  let ?m = "length (takeWhile P [0..<n])"
  have below: "P i" if "i < ?m" for i
  proof -
    have "i < n" using that length_takeWhile_le [of P "[0..<n]"] by simp
    moreover have "P (takeWhile P [0..<n] ! i)" using that nth_mem set_takeWhileD by fastforce
    ultimately show ?thesis using takeWhile_nth [OF that] by simp
  qed
  show lt: "?m < n"
  proof (rule ccontr)
    assume "\<not> ?m < n"
    then have "\<forall>i<n. P i" using below by simp
    with assms show False by blast
  qed
  then show "\<not> P ?m" using nth_length_takeWhile [of P "[0..<n]"] by simp
  show "\<And>i. i < ?m \<Longrightarrow> P i" by (rule below)
qed

lemma word_nonzero_bit: "w \<noteq> 0 \<Longrightarrow> \<exists>i<LENGTH('a). bit w i" for w :: "'a::len word"
  using bit_word_eqI [of w 0] by auto

lemma trailing_zeros_least:
  fixes w :: "'a::len word"
  assumes "w \<noteq> 0"
  shows "trailing_zeros w < LENGTH('a)" "bit w (trailing_zeros w)"
    and "\<And>i. i < trailing_zeros w \<Longrightarrow> \<not> bit w i"
proof -
  have "\<exists>i<LENGTH('a). \<not> \<not> bit w i" using word_nonzero_bit [OF assms] by blast
  note tz = length_takeWhile_upt [OF this, folded trailing_zeros_def]
  show "trailing_zeros w < LENGTH('a)" by (rule tz(1))
  show "bit w (trailing_zeros w)" using tz(2) by blast
  show "\<And>i. i < trailing_zeros w \<Longrightarrow> \<not> bit w i" by (rule tz(3))
qed

lemma leading_zeros_greatest:
  fixes w :: "'a::len word"
  assumes "w \<noteq> 0"
  shows "leading_zeros w < LENGTH('a)" "bit w (LENGTH('a) - 1 - leading_zeros w)"
    and "\<And>i. LENGTH('a) - 1 - leading_zeros w < i \<Longrightarrow> \<not> bit w i"
proof -
  let ?P = "\<lambda>i. \<not> bit w (LENGTH('a) - 1 - i)"
  obtain i where i: "i < LENGTH('a)" "bit w i" using word_nonzero_bit [OF assms] by blast
  then have "\<not> ?P (LENGTH('a) - 1 - i)" "LENGTH('a) - 1 - i < LENGTH('a)" by auto
  then have ex: "\<exists>i<LENGTH('a). \<not> ?P i" by blast
  note lz = length_takeWhile_upt [OF ex, folded leading_zeros_def]
  show lt: "leading_zeros w < LENGTH('a)" and "bit w (LENGTH('a) - 1 - leading_zeros w)"
    using lz(1,2) by auto
  fix j assume j: "LENGTH('a) - 1 - leading_zeros w < j"
  show "\<not> bit w j"
  proof (cases "j < LENGTH('a)")
    case True
    then have "LENGTH('a) - 1 - j < leading_zeros w" using j lt by linarith
    from lz(3) [OF this] True show ?thesis by simp
  qed (auto dest: bit_imp_le_length)
qed

section \<open>Page arithmetic\<close>

definition page_mask :: u64 where
  "page_mask = 0xFFF"

definition page_aligned :: "u64 \<Rightarrow> bool" where
  "page_aligned a \<longleftrightarrow> a AND page_mask = 0"

definition page_floor :: "u64 \<Rightarrow> u64" where
  "page_floor a = a AND NOT page_mask"

lemma page_mask_eq: "page_mask = mask 12"
  by (simp add: page_mask_def mask_eq_exp_minus_1)

lemma unat_and_mask: "unat (a AND mask n) = unat a mod 2 ^ n" for a :: "'a::len word"
proof -
  have "unat (a AND mask n) = take_bit n (unat a)"
    by (simp only: take_bit_eq_mask [symmetric] unsigned_take_bit_eq)
  then show ?thesis by (simp add: take_bit_eq_mod)
qed

text \<open>Clearing the low bits of a word rounds it down to a multiple of a power of two.\<close>

lemma and_not_mask_split: "(a AND NOT (mask n)) + (a AND mask n) = a" for a :: "'a::len word"
  by (subst disjunctive_add_eq_or; rule bit_word_eqI) (auto simp: bit_simps)

lemma unat_and_not_mask: "unat (a AND NOT (mask n)) = unat a - unat a mod 2 ^ n" for a :: "'a::len word"
proof -
  have "a AND NOT (mask n) = a - (a AND mask n)"
    using and_not_mask_split [of a n]
    by (metis add_diff_cancel_right')
  moreover have "a AND mask n \<le> a" by (simp add: word_le_nat_alt unat_and_mask)
  ultimately show ?thesis by (simp add: unat_sub unat_and_mask)
qed

lemma round_down_ge: "0 < m \<Longrightarrow> m \<le> x \<Longrightarrow> m \<le> x - x mod m" for m x :: nat
proof -
  assume "0 < m" "m \<le> x"
  then have "1 \<le> x div m" by (simp add: Suc_le_eq div_greater_zero_iff)
  then have "m * 1 \<le> m * (x div m)" by (rule mult_le_mono2)
  then show ?thesis by (simp add: minus_mod_eq_mult_div)
qed

lemma unat_take_bit_12: "unat (take_bit 12 a) = unat a mod 4096"
  using unat_and_mask [of a 12] by (simp add: take_bit_eq_mask)

lemma page_aligned_iff: "page_aligned a \<longleftrightarrow> 4096 dvd unat a"
proof -
  have "page_aligned a \<longleftrightarrow> take_bit 12 a = 0"
    by (simp add: page_aligned_def page_mask_eq flip: take_bit_eq_mask)
  also have "\<dots> \<longleftrightarrow> unat (take_bit 12 a) = 0"
    by (simp only: unat_eq_0)
  also have "\<dots> \<longleftrightarrow> unat a mod 4096 = 0"
    by (simp add: unat_take_bit_12)
  finally show ?thesis by (simp add: dvd_eq_mod_eq_0)
qed

lemma unat_page_floor: "unat (page_floor a) = unat a - unat a mod 4096"
  using unat_and_not_mask [of a 12] by (simp add: page_floor_def page_mask_eq)

lemma page_floor_le: "page_floor a \<le> a"
  by (simp add: word_le_nat_alt unat_page_floor)

lemma page_aligned_floor [simp]: "page_aligned (page_floor a)"
  by (simp add: page_aligned_iff unat_page_floor dvd_minus_mod)

lemma page_floor_greatest:
  assumes "page_aligned b" and "b \<le> a"
  shows "b \<le> page_floor a"
proof -
  from assms(1) obtain k where k: "unat b = 4096 * k"
    by (auto simp: page_aligned_iff dvd_def)
  have "unat b \<le> unat a - unat a mod 4096"
    using assms(2) unfolding word_le_nat_alt k
    by (metis (no_types, lifting) div_le_mono minus_mod_eq_mult_div mult_le_mono2 nonzero_mult_div_cancel_left zero_neq_numeral)
  then show ?thesis by (simp add: word_le_nat_alt unat_page_floor)
qed

lemma page_floor_aligned: "page_aligned a \<Longrightarrow> page_floor a = a"
  by (rule word_unat_eq_iff [THEN iffD2]) (simp add: unat_page_floor page_aligned_iff dvd_eq_mod_eq_0)

section \<open>Options and lists\<close>

lemma option_eqI: "(\<And>x. a = Some x \<longleftrightarrow> b = Some x) \<Longrightarrow> a = b"
  by (cases a; cases b) auto

lemma sorted_wrt_concat_map:
  assumes "sorted_wrt R xs" and "\<And>x. sorted_wrt R (f x)"
    and "\<And>x y u v. R x y \<Longrightarrow> u \<in> set (f x) \<Longrightarrow> v \<in> set (f y) \<Longrightarrow> R u v"
  shows "sorted_wrt R (concat (map f xs))"
  using assms(1) by (induction xs) (auto simp: sorted_wrt_append assms(2) intro: assms(3))

end
