(* ===== verification/Slice.thy ===== *)
theory Slice
  imports Prelude
begin

text \<open>
  The slice searches of the Rust core library that the kernel relies on: the branchless
  \<open>binary_search_by\<close> and \<open>partition_point\<close>, as in \<open>rust-std/library/core/src/slice/mod.rs\<close>,
  and their correctness on slices that are ordered with respect to the comparison function.
\<close>

datatype ordering = Less | Equal | Greater

text \<open>
  The search loop halves \<open>size\<close> (here \<open>sz\<close>) and keeps the invariant that everything from
  \<open>base + size\<close> on compares as \<open>Greater\<close>.
\<close>

function bsearch_loop :: "('a \<Rightarrow> ordering) \<Rightarrow> 'a list \<Rightarrow> nat \<Rightarrow> nat \<Rightarrow> nat" where
  "bsearch_loop f xs base sz =
     (if 1 < sz then
        (let half = sz div 2; mid = base + half;
             base' = (if f (xs ! mid) = Greater then base else mid)
         in bsearch_loop f xs base' (sz - half))
      else base)"
  by pat_completeness auto
termination
  by (relation "measure (\<lambda>(f, xs, base, sz). sz)") auto

declare bsearch_loop.simps [simp del]

definition binary_search_by :: "('a \<Rightarrow> ordering) \<Rightarrow> 'a list \<Rightarrow> nat + nat" where
  "binary_search_by f xs =
     (if length xs = 0 then Inl 0
      else let base = bsearch_loop f xs 0 (length xs); cmp = f (xs ! base) in
        if cmp = Equal then Inr base
        else Inl (base + (if cmp = Less then 1 else 0)))"

definition partition_point :: "('a \<Rightarrow> bool) \<Rightarrow> 'a list \<Rightarrow> nat" where
  "partition_point P xs =
     (case binary_search_by (\<lambda>x. if P x then Less else Greater) xs of Inr i \<Rightarrow> i | Inl i \<Rightarrow> i)"

section \<open>Slices ordered for a comparison\<close>

fun rank :: "ordering \<Rightarrow> nat" where
  "rank Less = 0"
| "rank Equal = 1"
| "rank Greater = 2"

definition ordered_for :: "('a \<Rightarrow> ordering) \<Rightarrow> 'a list \<Rightarrow> bool" where
  "ordered_for f xs \<longleftrightarrow> sorted_wrt (\<lambda>x y. rank (f x) \<le> rank (f y)) xs"

lemma ordered_forD: "ordered_for f xs \<Longrightarrow> i \<le> j \<Longrightarrow> j < length xs \<Longrightarrow> rank (f (xs ! i)) \<le> rank (f (xs ! j))"
  by (cases "i = j") (auto simp: ordered_for_def sorted_wrt_iff_nth_less)

lemma rank_Greater: "rank r = 2 \<longleftrightarrow> r = Greater" and rank_le_2: "rank r \<le> 2"
  by (cases r; simp)+

lemma ordered_Greater_up:
  "ordered_for f xs \<Longrightarrow> f (xs ! i) = Greater \<Longrightarrow> i \<le> j \<Longrightarrow> j < length xs \<Longrightarrow> f (xs ! j) = Greater"
  using ordered_forD [of f xs i j] rank_le_2 [of "f (xs ! j)"] rank_Greater [of "f (xs ! j)"] by simp

lemma ordered_not_Greater_down:
  "ordered_for f xs \<Longrightarrow> f (xs ! j) \<noteq> Greater \<Longrightarrow> i \<le> j \<Longrightarrow> j < length xs \<Longrightarrow> f (xs ! i) \<noteq> Greater"
  using ordered_Greater_up by blast

lemma ordered_Less_down:
  "ordered_for f xs \<Longrightarrow> f (xs ! j) = Less \<Longrightarrow> i \<le> j \<Longrightarrow> j < length xs \<Longrightarrow> f (xs ! i) = Less"
  using ordered_forD [of f xs i j] by (cases "f (xs ! i)") auto

text \<open>What the loop establishes: the last index that is not \<open>Greater\<close>, or 0 if there is none.\<close>

definition last_not_greater :: "('a \<Rightarrow> ordering) \<Rightarrow> 'a list \<Rightarrow> nat \<Rightarrow> bool" where
  "last_not_greater f xs r \<longleftrightarrow>
     r < length xs \<and> (r = 0 \<or> f (xs ! r) \<noteq> Greater)
     \<and> (Suc r = length xs \<or> f (xs ! Suc r) = Greater)"

lemma bsearch_loop_correct:
  assumes ord: "ordered_for f xs"
  shows "0 < sz \<Longrightarrow> base + sz \<le> length xs \<Longrightarrow> base = 0 \<or> f (xs ! base) \<noteq> Greater
    \<Longrightarrow> base + sz = length xs \<or> f (xs ! (base + sz)) = Greater
    \<Longrightarrow> last_not_greater f xs (bsearch_loop f xs base sz)"
proof (induction sz arbitrary: base rule: less_induct)
  case (less sz)
  show ?case
  proof (cases "1 < sz")
    case False
    with less.prems have "sz = 1" by simp
    with less.prems show ?thesis
      by (simp add: bsearch_loop.simps [of f xs base "Suc 0"] last_not_greater_def)
  next
    case True
    define half where "half = sz div 2"
    define base' where "base' = (if f (xs ! (base + half)) = Greater then base else base + half)"
    have half: "0 < half" "half < sz" "half \<le> sz - half"
      using True by (auto simp: half_def)
    have step: "bsearch_loop f xs base sz = bsearch_loop f xs base' (sz - half)"
      using True by (simp add: bsearch_loop.simps [of f xs base sz] half_def base'_def Let_def)
    have upper: "base' + (sz - half) = length xs \<or> f (xs ! (base' + (sz - half))) = Greater"
    proof (cases "f (xs ! (base + half)) = Greater")
      case True
      have "base + half \<le> base + (sz - half)" "base + (sz - half) < length xs"
        using half less.prems(2) by auto
      from ordered_Greater_up [OF ord True this] True show ?thesis
        by (simp add: base'_def)
    next
      case False
      with less.prems(4) half show ?thesis by (simp add: base'_def)
    qed
    have "last_not_greater f xs (bsearch_loop f xs base' (sz - half))"
    proof (rule less.IH)
      show "base' = 0 \<or> f (xs ! base') \<noteq> Greater"
        using less.prems(3) by (auto simp: base'_def)
      show "base' + (sz - half) \<le> length xs"
        using half less.prems(2) by (auto simp: base'_def)
    qed (use half upper in auto)
    then show ?thesis by (simp add: step)
  qed
qed

lemma bsearch_loop_last_not_greater:
  "ordered_for f xs \<Longrightarrow> xs \<noteq> [] \<Longrightarrow> last_not_greater f xs (bsearch_loop f xs 0 (length xs))"
  by (rule bsearch_loop_correct) auto

section \<open>What the searches return\<close>

lemma binary_search_by_Inr:
  assumes "ordered_for f xs" and "binary_search_by f xs = Inr i"
  shows "i < length xs \<and> f (xs ! i) = Equal"
proof -
  from assms(2) have "xs \<noteq> []" by (auto simp: binary_search_by_def)
  with bsearch_loop_last_not_greater [OF assms(1)] assms(2) show ?thesis
    by (auto simp: binary_search_by_def Let_def last_not_greater_def split: if_splits)
qed

lemma binary_search_by_Inl:
  assumes ord: "ordered_for f xs" and res: "binary_search_by f xs = Inl i"
  shows "i \<le> length xs \<and> (\<forall>j<i. f (xs ! j) = Less) \<and> (\<forall>j. i \<le> j \<longrightarrow> j < length xs \<longrightarrow> f (xs ! j) = Greater)"
proof (cases "xs = []")
  case True
  with res show ?thesis by (simp add: binary_search_by_def)
next
  case False
  define r where "r = bsearch_loop f xs 0 (length xs)"
  have r: "r < length xs" "r = 0 \<or> f (xs ! r) \<noteq> Greater" "Suc r = length xs \<or> f (xs ! Suc r) = Greater"
    using bsearch_loop_last_not_greater [OF ord False] by (auto simp: last_not_greater_def r_def)
  have i: "f (xs ! r) \<noteq> Equal" "i = r + (if f (xs ! r) = Less then 1 else 0)"
    using res False by (auto simp: binary_search_by_def Let_def r_def split: if_splits)
  show ?thesis
  proof (cases "f (xs ! r) = Less")
    case True
    have "f (xs ! j) = Greater" if "Suc r \<le> j" "j < length xs" for j
      using that r(3) ordered_Greater_up [OF ord _ that] by auto
    moreover have "f (xs ! j) = Less" if "j \<le> r" for j
      using ordered_Less_down [OF ord True that r(1)] .
    ultimately show ?thesis using True i r(1) by auto
  next
    case False
    with i(1) have gr: "f (xs ! r) = Greater" by (cases "f (xs ! r)") auto
    with r(2) have "r = 0" by auto
    with gr i show ?thesis using ordered_Greater_up [OF ord gr] by auto
  qed
qed

lemma partition_point_eq:
  assumes "ordered_for (\<lambda>x. if P x then Less else Greater) xs"
  shows "partition_point P xs = length (takeWhile P xs)"
proof -
  let ?f = "\<lambda>x. if P x then Less else Greater"
  obtain i where i: "binary_search_by ?f xs = Inl i"
    using binary_search_by_Inr [OF assms] by (cases "binary_search_by ?f xs") (auto split: if_splits)
  from binary_search_by_Inl [OF assms i] have
    "i \<le> length xs" "\<forall>j<i. P (xs ! j)" "\<forall>j. i \<le> j \<longrightarrow> j < length xs \<longrightarrow> \<not> P (xs ! j)"
    by (auto split: if_splits)
  then have "takeWhile P xs = take i xs"
    by (intro takeWhile_eq_take_P_nth) auto
  with \<open>i \<le> length xs\<close> have "length (takeWhile P xs) = i" by simp
  with i show ?thesis by (simp add: partition_point_def)
qed

lemma partition_point_split:
  assumes "ordered_for (\<lambda>x. if P x then Less else Greater) xs"
  obtains ys zs where "xs = ys @ zs" "partition_point P xs = length ys"
    "\<forall>y \<in> set ys. P y" "\<forall>z \<in> set zs. \<not> P z"
proof
  show "xs = takeWhile P xs @ dropWhile P xs" by simp
  show "partition_point P xs = length (takeWhile P xs)" by (rule partition_point_eq [OF assms])
  show "\<forall>y \<in> set (takeWhile P xs). P y" by (auto dest: set_takeWhileD)
  show "\<forall>z \<in> set (dropWhile P xs). \<not> P z"
  proof
    fix z assume "z \<in> set (dropWhile P xs)"
    then obtain j where j: "j < length (dropWhile P xs)" "dropWhile P xs ! j = z"
      by (auto simp: in_set_conv_nth)
    let ?f = "\<lambda>x. if P x then Less else Greater" and ?n = "length (takeWhile P xs)"
    have len: "?n + j < length xs" and z: "z = xs ! (?n + j)"
      using j by (simp_all add: dropWhile_eq_drop)
    then have "\<not> P (xs ! ?n)" by (intro nth_length_takeWhile) simp
    with ordered_Greater_up [OF assms _ _ len, of ?n] z show "\<not> P z" by (auto split: if_splits)
  qed
qed

end
