(* ===== verification/Vma.thy ===== *)
theory Vma
  imports Slice
begin

text \<open>
  Virtual memory areas: the per-process list of mapped regions of
  \<open>kernel/mm/mm-vma/src/lib.rs\<close>.  The list is a vector sorted by start address; lookups are
  binary searches, insertion checks the two neighbours, removal splits and trims areas, and
  \<open>find_free_region\<close> scans the gaps from the top down.  The abstract view of a list is the
  address map: the attributes under which an address is mapped, if it is.
\<close>

section \<open>Data\<close>

type_synonym VmFlags = u32

definition VM_READ :: VmFlags where "VM_READ = push_bit 0 1"
definition VM_WRITE :: VmFlags where "VM_WRITE = push_bit 1 1"
definition VM_EXEC :: VmFlags where "VM_EXEC = push_bit 2 1"
definition VM_SHARED :: VmFlags where "VM_SHARED = push_bit 3 1"
definition VM_GROWSDOWN :: VmFlags where "VM_GROWSDOWN = push_bit 4 1"
definition VM_STACK :: VmFlags where "VM_STACK = push_bit 5 1"
definition VM_DONTCOPY :: VmFlags where "VM_DONTCOPY = push_bit 6 1"

datatype VmType = Text | Data | Bss | Stack | Heap | Anon | FileBacked | Tls | Guard

record VmArea =
  va_start :: u64
  va_end :: u64
  va_flags :: VmFlags
  va_type :: VmType
  va_name :: "u8 list"
  va_name_len :: u8

definition VmArea_new :: "u64 \<Rightarrow> u64 \<Rightarrow> VmFlags \<Rightarrow> VmType \<Rightarrow> VmArea" where
  "VmArea_new s e fl ty =
     \<lparr>va_start = s, va_end = e, va_flags = fl, va_type = ty, va_name = replicate 32 0, va_name_len = 0\<rparr>"

definition VmArea_new_named :: "u64 \<Rightarrow> u64 \<Rightarrow> VmFlags \<Rightarrow> VmType \<Rightarrow> u8 list \<Rightarrow> VmArea" where
  "VmArea_new_named s e fl ty label =
     (let vma = VmArea_new s e fl ty; copy_len = min (length label) 32 in
      vma\<lparr>va_name := take copy_len label @ drop copy_len (va_name vma),
          va_name_len := of_nat copy_len\<rparr>)"

definition VmArea_name :: "VmArea \<Rightarrow> u8 list" where
  "VmArea_name v = take (unat (va_name_len v)) (va_name v)"

definition VmArea_size :: "VmArea \<Rightarrow> u64" where
  "VmArea_size v = va_end v - va_start v"

definition VmArea_contains :: "VmArea \<Rightarrow> u64 \<Rightarrow> bool" where
  "VmArea_contains v addr \<longleftrightarrow> va_start v \<le> addr \<and> addr < va_end v"

definition VmArea_overlaps :: "VmArea \<Rightarrow> u64 \<Rightarrow> u64 \<Rightarrow> bool" where
  "VmArea_overlaps v s e \<longleftrightarrow> va_start v < e \<and> s < va_end v"

datatype VmAreaError = Overlap | NotFound | InvalidArgs | NoSpace

record VmAreaList =
  areas :: "VmArea list"

section \<open>Operations\<close>

definition VmAreaList_new :: VmAreaList where
  "VmAreaList_new = \<lparr>areas = []\<rparr>"

definition vma_cmp :: "u64 \<Rightarrow> VmArea \<Rightarrow> ordering" where
  "vma_cmp addr v =
     (if addr < va_start v then Greater else if va_end v \<le> addr then Less else Equal)"

definition VmAreaList_find :: "VmAreaList \<Rightarrow> u64 \<Rightarrow> VmArea option" where
  "VmAreaList_find l addr =
     (case binary_search_by (vma_cmp addr) (areas l) of
        Inr i \<Rightarrow> Some (areas l ! i)
      | Inl _ \<Rightarrow> None)"

text \<open>
  \<open>find_mut\<close> hands out a mutable reference: the model applies the caller's update \<open>f\<close> to the
  area found.
\<close>

definition VmAreaList_find_mut :: "VmAreaList \<Rightarrow> u64 \<Rightarrow> (VmArea \<Rightarrow> VmArea) \<Rightarrow> VmAreaList" where
  "VmAreaList_find_mut l addr f =
     (case binary_search_by (vma_cmp addr) (areas l) of
        Inr i \<Rightarrow> l\<lparr>areas := (areas l)[i := f (areas l ! i)]\<rparr>
      | Inl _ \<Rightarrow> l)"

definition VmAreaList_insert :: "VmAreaList \<Rightarrow> VmArea \<Rightarrow> VmAreaError + VmAreaList" where
  "VmAreaList_insert l v =
     (if va_end v \<le> va_start v then Inr l
      else if va_start v AND page_mask \<noteq> 0 \<or> va_end v AND page_mask \<noteq> 0 then Inl InvalidArgs
      else
        let pos = partition_point (\<lambda>a. va_start a < va_start v) (areas l) in
        if 0 < pos \<and> va_start v < va_end (areas l ! (pos - 1)) then Inl Overlap
        else if pos < length (areas l) \<and> va_start (areas l ! pos) < va_end v then Inl Overlap
        else Inr (l\<lparr>areas := take pos (areas l) @ v # drop pos (areas l)\<rparr>))"

fun remove_loop :: "u64 \<Rightarrow> u64 \<Rightarrow> VmArea list \<Rightarrow> VmArea list \<Rightarrow> VmArea list \<Rightarrow> VmArea list \<times> VmArea list"
where
  "remove_loop s e [] removed new_areas = (removed, new_areas)"
| "remove_loop s e (v # vs) removed new_areas =
     (if va_end v \<le> s \<or> e \<le> va_start v then
        remove_loop s e vs removed (new_areas @ [v])
      else if s \<le> va_start v \<and> va_end v \<le> e then
        remove_loop s e vs (removed @ [v]) new_areas
      else if va_start v < s \<and> e < va_end v then
        remove_loop s e vs (removed @ [v\<lparr>va_start := s, va_end := e\<rparr>])
          (new_areas @ [v\<lparr>va_end := s\<rparr>, v\<lparr>va_start := e\<rparr>])
      else if va_start v < s then
        remove_loop s e vs (removed @ [v\<lparr>va_start := s, va_end := min (va_end v) e\<rparr>])
          (new_areas @ [v\<lparr>va_end := s\<rparr>])
      else
        remove_loop s e vs (removed @ [v\<lparr>va_end := min e (va_end v)\<rparr>])
          (new_areas @ [v\<lparr>va_start := e\<rparr>]))"

definition VmAreaList_remove :: "VmAreaList \<Rightarrow> u64 \<Rightarrow> u64 \<Rightarrow> VmAreaError + (VmArea list \<times> VmAreaList)" where
  "VmAreaList_remove l s e =
     (if e \<le> s \<or> s AND page_mask \<noteq> 0 \<or> e AND page_mask \<noteq> 0 then Inl InvalidArgs
      else let (removed, new_areas) = remove_loop s e (areas l) [] [] in
        Inr (removed, l\<lparr>areas := new_areas\<rparr>))"

definition MMAP_MIN_ADDR :: u64 where "MMAP_MIN_ADDR = 0x1000"

text \<open>
  The gap loop \<open>for i in (1..len).rev()\<close> of \<open>find_free_region\<close>: \<open>gap_scan as size i\<close> runs the
  iterations \<open>i, i - 1, \<dots>, 1\<close>.
\<close>

fun gap_scan :: "VmArea list \<Rightarrow> u64 \<Rightarrow> nat \<Rightarrow> u64 option" where
  "gap_scan as sz 0 = None"
| "gap_scan as sz (Suc j) =
     (let gap_start = va_end (as ! j); gap_end = va_start (as ! Suc j) in
      if sz \<le> gap_end - gap_start then
        (let candidate = (gap_end - sz) AND NOT page_mask in
         if gap_start \<le> candidate then Some candidate else gap_scan as sz j)
      else gap_scan as sz j)"

definition free_below_first :: "VmArea list \<Rightarrow> u64 \<Rightarrow> u64 option" where
  "free_below_first as sz =
     (let first = as ! 0 in
      if MMAP_MIN_ADDR + sz \<le> va_start first then
        (let candidate = (va_start first - sz) AND NOT page_mask in
         if MMAP_MIN_ADDR \<le> candidate then Some candidate else None)
      else None)"

definition free_top_down :: "VmArea list \<Rightarrow> u64 \<Rightarrow> u64 \<Rightarrow> u64 option" where
  "free_top_down as sz mx =
     (if as = [] then
        (if sz + MMAP_MIN_ADDR \<le> mx then Some ((mx - sz) AND NOT page_mask) else None)
      else
        let lst = as ! (length as - 1); candidate = (mx - sz) AND NOT page_mask in
        if va_end lst + sz \<le> mx \<and> va_end lst \<le> candidate then Some candidate
        else (case gap_scan as sz (length as - 1) of
                Some c \<Rightarrow> Some c
              | None \<Rightarrow> free_below_first as sz))"

definition VmAreaList_find_free_region :: "VmAreaList \<Rightarrow> u64 \<Rightarrow> u64 \<Rightarrow> u64 \<Rightarrow> u64 option" where
  "VmAreaList_find_free_region l sz hint mx =
     (if sz = 0 \<or> sz AND page_mask \<noteq> 0 then None
      else
        let hint_aligned = hint AND NOT page_mask; hint_end = hint_aligned + sz in
        if hint_aligned \<noteq> 0 \<and> hint_end \<le> mx \<and>
           \<not> list_ex (\<lambda>v. VmArea_overlaps v hint_aligned hint_end) (areas l)
        then Some hint_aligned
        else free_top_down (areas l) sz mx)"

definition VmAreaList_clone_for_fork :: "VmAreaList \<Rightarrow> VmAreaList" where
  "VmAreaList_clone_for_fork l = \<lparr>areas = areas l\<rparr>"

definition VmAreaList_clear :: "VmAreaList \<Rightarrow> VmAreaList" where
  "VmAreaList_clear l = l\<lparr>areas := []\<rparr>"

definition VmAreaList_len :: "VmAreaList \<Rightarrow> nat" where
  "VmAreaList_len l = length (areas l)"

definition VmAreaList_is_empty :: "VmAreaList \<Rightarrow> bool" where
  "VmAreaList_is_empty l \<longleftrightarrow> areas l = []"

section \<open>The invariant and the address map\<close>

definition vma_ok :: "VmArea \<Rightarrow> bool" where
  "vma_ok v \<longleftrightarrow> va_start v < va_end v \<and> page_aligned (va_start v) \<and> page_aligned (va_end v)"

abbreviation before :: "VmArea \<Rightarrow> VmArea \<Rightarrow> bool" where
  "before a b \<equiv> va_end a \<le> va_start b"

definition vma_inv :: "VmAreaList \<Rightarrow> bool" where
  "vma_inv l \<longleftrightarrow> sorted_wrt before (areas l) \<and> list_all vma_ok (areas l)"

type_synonym vm_attr = "VmFlags \<times> VmType \<times> u8 list \<times> u8"

definition vm_attrs :: "VmArea \<Rightarrow> vm_attr" where
  "vm_attrs v = (va_flags v, va_type v, va_name v, va_name_len v)"

text \<open>What the list says about one address: its attributes, or that it is unmapped.\<close>

definition vm_lookup :: "VmAreaList \<Rightarrow> u64 \<Rightarrow> vm_attr option" where
  "vm_lookup l a = map_option vm_attrs (VmAreaList_find l a)"

lemma vma_inv_ok: "vma_inv l \<Longrightarrow> v \<in> set (areas l) \<Longrightarrow> vma_ok v"
  by (simp add: vma_inv_def list_all_iff)

lemma vma_inv_okD: "vma_inv l \<Longrightarrow> v \<in> set (areas l) \<Longrightarrow> va_start v < va_end v"
  using vma_inv_ok by (auto simp: vma_ok_def)

lemma vma_inv_new: "vma_inv VmAreaList_new"
  by (simp add: vma_inv_def VmAreaList_new_def)

section \<open>Lookup\<close>

lemma ordered_for_vma_cmp:
  assumes "vma_inv l"
  shows "ordered_for (vma_cmp a) (areas l)"
  unfolding ordered_for_def
proof (rule sorted_wrt_mono_rel [where P = before])
  show "sorted_wrt before (areas l)" using assms by (simp add: vma_inv_def)
  fix u v assume "u \<in> set (areas l)" "v \<in> set (areas l)" "before u v"
  moreover from calculation have "va_start u < va_end u" "va_start v < va_end v"
    using assms by (simp_all add: vma_inv_okD)
  ultimately show "rank (vma_cmp a u) \<le> rank (vma_cmp a v)"
    by (auto simp: vma_cmp_def)
qed

lemma vma_cmp_Equal: "vma_cmp a v = Equal \<longleftrightarrow> VmArea_contains v a"
  by (auto simp: vma_cmp_def VmArea_contains_def)

lemma vma_contains_unique:
  assumes "vma_inv l" "u \<in> set (areas l)" "v \<in> set (areas l)"
    and "VmArea_contains u a" "VmArea_contains v a"
  shows "u = v"
proof -
  obtain i j where ij: "i < length (areas l)" "areas l ! i = u" "j < length (areas l)" "areas l ! j = v"
    using assms(2,3) by (metis in_set_conv_nth)
  have "before (areas l ! i) (areas l ! j)" if "i < j" "j < length (areas l)" for i j
    using assms(1) that by (simp add: vma_inv_def sorted_wrt_iff_nth_less)
  with ij assms(4,5) show ?thesis
    by (cases i j rule: linorder_cases) (fastforce simp: VmArea_contains_def)+
qed

lemma find_eq_Some_iff:
  assumes "vma_inv l"
  shows "VmAreaList_find l a = Some v \<longleftrightarrow> v \<in> set (areas l) \<and> VmArea_contains v a"
proof
  assume "VmAreaList_find l a = Some v"
  then show "v \<in> set (areas l) \<and> VmArea_contains v a"
    using binary_search_by_Inr [OF ordered_for_vma_cmp [OF assms, of a]]
    by (auto simp: VmAreaList_find_def vma_cmp_Equal split: sum.splits)
next
  assume r: "v \<in> set (areas l) \<and> VmArea_contains v a"
  show "VmAreaList_find l a = Some v"
  proof (cases "binary_search_by (vma_cmp a) (areas l)")
    case (Inl i)
    from r obtain j where j: "j < length (areas l)" "areas l ! j = v" by (metis in_set_conv_nth)
    have "vma_cmp a (areas l ! j) \<noteq> Equal"
      using binary_search_by_Inl [OF ordered_for_vma_cmp [OF assms] Inl] j(1)
      by (cases "j < i") (auto simp: not_less)
    with j r show ?thesis by (simp add: vma_cmp_Equal)
  next
    case (Inr i)
    then have "areas l ! i \<in> set (areas l)" "VmArea_contains (areas l ! i) a"
      using binary_search_by_Inr [OF ordered_for_vma_cmp [OF assms] Inr] by (auto simp: vma_cmp_Equal)
    with r vma_contains_unique [OF assms] Inr show ?thesis by (auto simp: VmAreaList_find_def)
  qed
qed

lemma find_eq_None_iff:
  "vma_inv l \<Longrightarrow> VmAreaList_find l a = None \<longleftrightarrow> (\<forall>v \<in> set (areas l). \<not> VmArea_contains v a)"
  using find_eq_Some_iff [of l a] by (cases "VmAreaList_find l a") auto

lemma vm_lookup_eq_Some_iff:
  "vma_inv l \<Longrightarrow> vm_lookup l a = Some x \<longleftrightarrow> (\<exists>v \<in> set (areas l). VmArea_contains v a \<and> vm_attrs v = x)"
  by (auto simp: vm_lookup_def find_eq_Some_iff)

lemma vm_lookup_eq_None_iff:
  "vma_inv l \<Longrightarrow> vm_lookup l a = None \<longleftrightarrow> (\<forall>v \<in> set (areas l). \<not> VmArea_contains v a)"
  by (simp add: vm_lookup_def find_eq_None_iff)

section \<open>Insertion\<close>

text \<open>An insertion of a well-formed area, in terms of the two sides of its position.\<close>

lemma insert_split:
  assumes inv: "vma_inv l" and v: "vma_ok v"
  obtains xs ys where "areas l = xs @ ys" "\<forall>u \<in> set xs. va_start u < va_start v"
    "\<forall>u \<in> set ys. va_start v \<le> va_start u"
    "VmAreaList_insert l v =
       (if xs \<noteq> [] \<and> va_start v < va_end (last xs) \<or> ys \<noteq> [] \<and> va_start (hd ys) < va_end v
        then Inl Overlap else Inr (l\<lparr>areas := xs @ v # ys\<rparr>))"
proof -
  let ?P = "\<lambda>a. va_start a < va_start v"
  have "rank (if ?P u then Less else Greater) \<le> rank (if ?P w then Less else Greater)"
    if "u \<in> set (areas l)" "before u w" for u w
    using vma_inv_okD [OF inv that(1)] that(2) by auto
  then have "ordered_for (\<lambda>u. if ?P u then Less else Greater) (areas l)"
    using inv unfolding ordered_for_def vma_inv_def
    by (elim conjE sorted_wrt_mono_rel [rotated]) blast
  then obtain xs ys where split: "areas l = xs @ ys" "partition_point ?P (areas l) = length xs"
    and side: "\<forall>u \<in> set xs. ?P u" "\<forall>u \<in> set ys. \<not> ?P u"
    by (rule partition_point_split)
  have "VmAreaList_insert l v =
       (if xs \<noteq> [] \<and> va_start v < va_end (last xs) \<or> ys \<noteq> [] \<and> va_start (hd ys) < va_end v
        then Inl Overlap else Inr (l\<lparr>areas := xs @ v # ys\<rparr>))"
    using v split
    by (auto simp: VmAreaList_insert_def vma_ok_def page_aligned_def Let_def nth_append last_conv_nth
        hd_conv_nth)
  with split(1) side that show thesis by (simp add: not_less)
qed

lemma last_end_greatest:
  "sorted_wrt before xs \<Longrightarrow> list_all vma_ok xs \<Longrightarrow> u \<in> set xs \<Longrightarrow> va_end u \<le> va_end (last xs)"
proof (induction xs)
  case (Cons x xs)
  have "va_end x \<le> va_end (last xs)" if "xs \<noteq> []"
  proof -
    have "before x (last xs)" "vma_ok (last xs)" using Cons.prems that by (auto simp: list_all_iff)
    then show ?thesis by (auto simp: vma_ok_def)
  qed
  with Cons show ?case by auto
qed simp

lemma hd_start_least:
  "sorted_wrt before xs \<Longrightarrow> list_all vma_ok xs \<Longrightarrow> u \<in> set xs \<Longrightarrow> va_start (hd xs) \<le> va_start u"
  by (cases xs) (auto simp: vma_ok_def)

lemma insert_Overlap_iff:
  assumes inv: "vma_inv l" and v: "vma_ok v"
  shows "VmAreaList_insert l v = Inl Overlap
     \<longleftrightarrow> (\<exists>u \<in> set (areas l). VmArea_overlaps u (va_start v) (va_end v))"
proof -
  obtain xs ys where s: "areas l = xs @ ys" "\<forall>u \<in> set xs. va_start u < va_start v"
    "\<forall>u \<in> set ys. va_start v \<le> va_start u"
    and ins: "VmAreaList_insert l v =
       (if xs \<noteq> [] \<and> va_start v < va_end (last xs) \<or> ys \<noteq> [] \<and> va_start (hd ys) < va_end v
        then Inl Overlap else Inr (l\<lparr>areas := xs @ v # ys\<rparr>))"
    by (rule insert_split [OF inv v])
  have srt: "sorted_wrt before xs" "list_all vma_ok xs" "sorted_wrt before ys" "list_all vma_ok ys"
    using inv by (auto simp: vma_inv_def s(1) sorted_wrt_append)
  have "(\<exists>u \<in> set xs. VmArea_overlaps u (va_start v) (va_end v))
      \<longleftrightarrow> xs \<noteq> [] \<and> va_start v < va_end (last xs)"
  proof -
    have "va_start u < va_end v" if "u \<in> set xs" for u
      using that s(2) v unfolding vma_ok_def by (meson less_trans)
    then show ?thesis
      using last_end_greatest [OF srt(1,2)] last_in_set [of xs] unfolding VmArea_overlaps_def
      by (cases "xs = []") (auto intro: less_le_trans)
  qed
  moreover have "(\<exists>u \<in> set ys. VmArea_overlaps u (va_start v) (va_end v))
      \<longleftrightarrow> ys \<noteq> [] \<and> va_start (hd ys) < va_end v"
  proof -
    have "va_start v < va_end u" if "u \<in> set ys" for u
      using that s(3) srt(4) unfolding list_all_iff vma_ok_def by (meson le_less_trans)
    then show ?thesis
      using hd_start_least [OF srt(3,4)] list.set_sel(1) [of ys] unfolding VmArea_overlaps_def
      by (cases "ys = []") (auto intro: le_less_trans)
  qed
  ultimately show ?thesis unfolding ins s(1) set_append bex_Un by auto
qed

lemma insert_Inr:
  assumes inv: "vma_inv l" and v: "vma_ok v" and res: "VmAreaList_insert l v = Inr l'"
  shows "vma_inv l' \<and> set (areas l') = insert v (set (areas l))"
proof -
  obtain xs ys where s: "areas l = xs @ ys" "\<forall>u \<in> set xs. va_start u < va_start v"
    "\<forall>u \<in> set ys. va_start v \<le> va_start u"
    and ins: "VmAreaList_insert l v =
       (if xs \<noteq> [] \<and> va_start v < va_end (last xs) \<or> ys \<noteq> [] \<and> va_start (hd ys) < va_end v
        then Inl Overlap else Inr (l\<lparr>areas := xs @ v # ys\<rparr>))"
    by (rule insert_split [OF inv v])
  have "\<forall>u \<in> set (areas l). \<not> VmArea_overlaps u (va_start v) (va_end v)"
    using insert_Overlap_iff [OF inv v] res by auto
  then have "before u v \<or> before v u" if "u \<in> set (areas l)" for u
    using that by (auto simp: VmArea_overlaps_def not_less)
  moreover have "\<not> before v u" if "u \<in> set xs" for u
    using that s(2) v unfolding vma_ok_def by (meson less_trans not_less)
  moreover have "\<not> before u v" if "u \<in> set ys" for u
    using that s(3) vma_inv_okD [OF inv, of u] unfolding s(1) by (auto simp: not_le)
  ultimately have "\<forall>u \<in> set xs. before u v" "\<forall>u \<in> set ys. before v u"
    unfolding s(1) by auto
  moreover have "l' = l\<lparr>areas := xs @ v # ys\<rparr>"
    using res ins by (auto split: if_splits)
  ultimately show ?thesis using inv v s(1) by (auto simp: vma_inv_def sorted_wrt_append)
qed

lemma insert_lookup:
  assumes "vma_inv l" "vma_ok v" "VmAreaList_insert l v = Inr l'"
  shows "vm_lookup l' a = (if VmArea_contains v a then Some (vm_attrs v) else vm_lookup l a)"
proof -
  have l': "vma_inv l'" "set (areas l') = insert v (set (areas l))"
    using insert_Inr [OF assms] by auto
  show ?thesis
  proof (cases "VmArea_contains v a")
    case True
    then show ?thesis using l' by (auto simp: vm_lookup_eq_Some_iff)
  next
    case False
    then have "vm_lookup l' a = Some x \<longleftrightarrow> vm_lookup l a = Some x" for x
      using l' assms(1) by (auto simp: vm_lookup_eq_Some_iff)
    then have "vm_lookup l' a = vm_lookup l a" by (rule option_eqI)
    with False show ?thesis by simp
  qed
qed

section \<open>Removal\<close>

text \<open>
  The reference for the five-way case split of the removal loop: an area minus the interval
  \<open>[s, e)\<close>, and an area intersected with it.
\<close>

definition vma_minus :: "u64 \<Rightarrow> u64 \<Rightarrow> VmArea \<Rightarrow> VmArea list" where
  "vma_minus s e v =
     (if va_start v < s then [v\<lparr>va_end := min (va_end v) s\<rparr>] else [])
   @ (if e < va_end v then [v\<lparr>va_start := max (va_start v) e\<rparr>] else [])"

definition vma_inter :: "u64 \<Rightarrow> u64 \<Rightarrow> VmArea \<Rightarrow> VmArea list" where
  "vma_inter s e v =
     (if max (va_start v) s < min (va_end v) e
      then [v\<lparr>va_start := max (va_start v) s, va_end := min (va_end v) e\<rparr>] else [])"

lemma remove_loop_step:
  assumes "va_start v < va_end v" and "s < e"
  shows "remove_loop s e (v # vs) removed new_areas =
    remove_loop s e vs (removed @ vma_inter s e v) (new_areas @ vma_minus s e v)"
proof -
  consider "va_end v \<le> s" | "e \<le> va_start v" | "s \<le> va_start v" "va_end v \<le> e" "va_start v < e" "s < va_end v"
    | "va_start v < s" "e < va_end v" | "va_start v < s" "s < va_end v" "va_end v \<le> e"
    | "s \<le> va_start v" "va_start v < e" "e < va_end v"
    by force
  then show ?thesis
    by cases (use assms in \<open>auto simp: vma_minus_def vma_inter_def min_def max_def\<close>)
qed

lemma remove_loop_eq:
  "list_all vma_ok vs \<Longrightarrow> s < e \<Longrightarrow>
   remove_loop s e vs removed new_areas =
     (removed @ concat (map (vma_inter s e) vs), new_areas @ concat (map (vma_minus s e) vs))"
  by (induction vs arbitrary: removed new_areas)
    (simp_all del: remove_loop.simps(2) add: remove_loop_step vma_ok_def)

lemma vma_minus_inside:
  "u \<in> set (vma_minus s e v) \<Longrightarrow> va_start v \<le> va_start u \<and> va_end u \<le> va_end v \<and> vm_attrs u = vm_attrs v"
  by (auto simp: vma_minus_def vm_attrs_def split: if_splits)

lemma vma_minus_ok:
  "vma_ok v \<Longrightarrow> page_aligned s \<Longrightarrow> page_aligned e \<Longrightarrow> u \<in> set (vma_minus s e v) \<Longrightarrow> vma_ok u"
  by (auto simp: vma_minus_def vma_ok_def min_def max_def split: if_splits)

lemma vma_minus_contains:
  "(\<exists>u \<in> set (vma_minus s e v). VmArea_contains u a) \<longleftrightarrow> VmArea_contains v a \<and> \<not> (s \<le> a \<and> a < e)"
  if "s < e"
  using that unfolding vma_minus_def VmArea_contains_def
  by (cases "va_start v < s"; cases "e < va_end v") auto

lemma vma_inter_contains:
  "(\<exists>u \<in> set (vma_inter s e v). VmArea_contains u a) \<longleftrightarrow> VmArea_contains v a \<and> s \<le> a \<and> a < e"
  by (auto simp: vma_inter_def VmArea_contains_def)

lemma vma_minus_sorted: "s < e \<Longrightarrow> sorted_wrt before (vma_minus s e v)"
  by (auto simp: vma_minus_def min_def max_def)

lemma remove_Inr:
  assumes inv: "vma_inv l" and res: "VmAreaList_remove l s e = Inr (removed, l')"
  shows "s < e" "page_aligned s" "page_aligned e"
    and "removed = concat (map (vma_inter s e) (areas l))"
    and "areas l' = concat (map (vma_minus s e) (areas l))"
proof -
  show se: "s < e" and "page_aligned s" "page_aligned e"
    using res by (auto simp: VmAreaList_remove_def page_aligned_def split: if_splits)
  have "list_all vma_ok (areas l)" using inv by (simp add: vma_inv_def)
  from remove_loop_eq [OF this se, of "[]" "[]"] res
  show "removed = concat (map (vma_inter s e) (areas l))"
    and "areas l' = concat (map (vma_minus s e) (areas l))"
    by (auto simp: VmAreaList_remove_def split: if_splits)
qed

lemma remove_ok:
  "s < e \<Longrightarrow> page_aligned s \<Longrightarrow> page_aligned e \<Longrightarrow> \<exists>removed l'. VmAreaList_remove l s e = Inr (removed, l')"
  by (auto simp: VmAreaList_remove_def page_aligned_def not_le split: prod.split)

lemma remove_inv:
  assumes inv: "vma_inv l" and res: "VmAreaList_remove l s e = Inr (removed, l')"
  shows "vma_inv l'"
proof -
  note r = remove_Inr [OF inv res]
  have "sorted_wrt before (concat (map (vma_minus s e) (areas l)))"
  proof (rule sorted_wrt_concat_map)
    show "sorted_wrt before (areas l)" using inv by (simp add: vma_inv_def)
    show "sorted_wrt before (vma_minus s e v)" for v using r(1) by (rule vma_minus_sorted)
    fix v w u u' assume "before v w" "u \<in> set (vma_minus s e v)" "u' \<in> set (vma_minus s e w)"
    with vma_minus_inside [of u s e v] vma_minus_inside [of u' s e w] show "before u u'" by auto
  qed
  moreover have "list_all vma_ok (concat (map (vma_minus s e) (areas l)))"
    using inv vma_minus_ok [OF _ r(2,3)] by (auto simp: vma_inv_def list_all_iff)
  ultimately show ?thesis by (simp add: vma_inv_def r(5))
qed

lemma remove_lookup:
  assumes inv: "vma_inv l" and res: "VmAreaList_remove l s e = Inr (removed, l')"
  shows "vm_lookup l' a = (if s \<le> a \<and> a < e then None else vm_lookup l a)"
proof -
  note r = remove_Inr [OF inv res] and inv' = remove_inv [OF inv res]
  have *: "vm_lookup l' a = Some x \<longleftrightarrow> vm_lookup l a = Some x \<and> \<not> (s \<le> a \<and> a < e)" for x
  proof -
    have "vm_lookup l' a = Some x \<longleftrightarrow>
      (\<exists>v \<in> set (areas l). vm_attrs v = x \<and> (\<exists>u \<in> set (vma_minus s e v). VmArea_contains u a))"
      unfolding vm_lookup_eq_Some_iff [OF inv'] r(5) using vma_minus_inside by fastforce
    also have "\<dots> \<longleftrightarrow> vm_lookup l a = Some x \<and> \<not> (s \<le> a \<and> a < e)"
      unfolding vma_minus_contains [OF r(1)] vm_lookup_eq_Some_iff [OF inv] by auto
    finally show ?thesis .
  qed
  show ?thesis
    by (rule option_eqI) (simp only: *, simp)
qed

section \<open>Address maps\<close>

text \<open>
  What the memory system calls rely on: a map from addresses to attributes with a fallible
  insertion of an aligned interval and a removal of one.
\<close>

locale address_map =
  fixes inv :: "'m \<Rightarrow> bool"
    and lookup :: "'m \<Rightarrow> u64 \<Rightarrow> 'a option"
    and ins :: "'m \<Rightarrow> 'v \<Rightarrow> 'e + 'm"
    and rem :: "'m \<Rightarrow> u64 \<Rightarrow> u64 \<Rightarrow> 'e + ('v list \<times> 'm)"
    and area_ok :: "'v \<Rightarrow> bool"
    and lo hi :: "'v \<Rightarrow> u64"
    and attr :: "'v \<Rightarrow> 'a"
  assumes area: "area_ok v \<Longrightarrow> lo v < hi v \<and> page_aligned (lo v) \<and> page_aligned (hi v)"
    and ins_free: "inv m \<Longrightarrow> area_ok v \<Longrightarrow> (\<And>a. lo v \<le> a \<Longrightarrow> a < hi v \<Longrightarrow> lookup m a = None)
      \<Longrightarrow> \<exists>m'. ins m v = Inr m'"
    and ins_inv: "inv m \<Longrightarrow> area_ok v \<Longrightarrow> ins m v = Inr m' \<Longrightarrow> inv m'"
    and ins_lookup: "inv m \<Longrightarrow> area_ok v \<Longrightarrow> ins m v = Inr m' \<Longrightarrow>
      lookup m' a = (if lo v \<le> a \<and> a < hi v then Some (attr v) else lookup m a)"
    and rem_ok: "s < e \<Longrightarrow> page_aligned s \<Longrightarrow> page_aligned e \<Longrightarrow> \<exists>r m'. rem m s e = Inr (r, m')"
    and rem_inv: "inv m \<Longrightarrow> rem m s e = Inr (r, m') \<Longrightarrow> inv m'"
    and rem_lookup: "inv m \<Longrightarrow> rem m s e = Inr (r, m') \<Longrightarrow>
      lookup m' a = (if s \<le> a \<and> a < e then None else lookup m a)"
begin

text \<open>Clearing a range and then mapping an area that lies in it never fails.\<close>

lemma replace_ok:
  assumes "inv m" "area_ok v" "s \<le> lo v" "hi v \<le> e" "page_aligned s" "page_aligned e"
  obtains r m' m'' where "rem m s e = Inr (r, m')" "ins m' v = Inr m''" "inv m''"
    "\<And>a. lookup m'' a = (if lo v \<le> a \<and> a < hi v then Some (attr v)
                         else if s \<le> a \<and> a < e then None else lookup m a)"
proof -
  have "s < e" using area [OF assms(2)] assms(3,4) by auto
  then obtain r m' where r: "rem m s e = Inr (r, m')" using rem_ok assms(5,6) by blast
  note m' = rem_inv [OF assms(1) r] rem_lookup [OF assms(1) r]
  have "lookup m' a = None" if "lo v \<le> a" "a < hi v" for a
    using that assms(3,4) m'(2) [of a] by auto
  then obtain m'' where i: "ins m' v = Inr m''" using ins_free [OF m'(1) assms(2)] by blast
  show thesis
    by (rule that [OF r i ins_inv [OF m'(1) assms(2) i]])
      (simp add: ins_lookup [OF m'(1) assms(2) i] m'(2))
qed

text \<open>The case of \<open>MAP_FIXED\<close>: the range cleared is the range mapped.\<close>

lemma overlay_ok:
  assumes "inv m" "area_ok v"
  obtains r m' m'' where "rem m (lo v) (hi v) = Inr (r, m')" "ins m' v = Inr m''" "inv m''"
    "\<And>a. lookup m'' a = (if lo v \<le> a \<and> a < hi v then Some (attr v) else lookup m a)"
proof -
  have "page_aligned (lo v)" "page_aligned (hi v)" using area [OF assms(2)] by auto
  from replace_ok [OF assms order_refl order_refl this] that show thesis by metis
qed

end

lemma insert_free_ok:
  assumes inv: "vma_inv l" and v: "vma_ok v"
    and free: "\<And>a. va_start v \<le> a \<Longrightarrow> a < va_end v \<Longrightarrow> vm_lookup l a = None"
  shows "\<exists>l'. VmAreaList_insert l v = Inr l'"
proof -
  have "\<not> VmArea_overlaps u (va_start v) (va_end v)" if u: "u \<in> set (areas l)" for u
  proof
    assume "VmArea_overlaps u (va_start v) (va_end v)"
    then have "VmArea_contains u (max (va_start u) (va_start v))" "max (va_start u) (va_start v) < va_end v"
      using v vma_inv_okD [OF inv u] by (auto simp: VmArea_overlaps_def VmArea_contains_def vma_ok_def)
    with free [of "max (va_start u) (va_start v)"] u show False
      by (auto simp: vm_lookup_eq_None_iff [OF inv])
  qed
  then have "VmAreaList_insert l v \<noteq> Inl Overlap" using insert_Overlap_iff [OF inv v] by blast
  then show ?thesis using insert_split [OF inv v] by (metis (no_types))
qed

interpretation vml: address_map vma_inv vm_lookup VmAreaList_insert VmAreaList_remove vma_ok
  va_start va_end vm_attrs
  by unfold_locales
    (auto simp: vma_ok_def intro: insert_free_ok remove_ok dest: insert_Inr [simplified vma_ok_def] remove_inv
      simp: insert_lookup [simplified vma_ok_def] remove_lookup VmArea_contains_def)

text \<open>The wrappers through which the system calls change the list of an address space.\<close>

definition add_vma :: "VmAreaList \<Rightarrow> VmArea \<Rightarrow> VmAreaError + VmAreaList" where
  "add_vma vmas v = VmAreaList_insert vmas v"

definition remove_vma_range :: "VmAreaList \<Rightarrow> u64 \<Rightarrow> u64 \<Rightarrow> VmAreaError + (VmArea list \<times> VmAreaList)" where
  "remove_vma_range vmas s e = VmAreaList_remove vmas s e"

section \<open>Properties\<close>

text \<open>A process image with a text area, a heap and a stack, for the concrete instances.\<close>

definition proc_image :: VmAreaList where
  "proc_image = \<lparr>areas = [VmArea_new 0x400000 0x402000 (VM_READ OR VM_EXEC) Text,
     VmArea_new_named 0x600000 0x604000 (VM_READ OR VM_WRITE) Heap [0x5B, 0x68, 0x5D],
     VmArea_new 0x7FFFFFFE0000 0x7FFFFFFF0000 (VM_READ OR VM_WRITE) Stack]\<rparr>"

lemma image_inv: "vma_inv proc_image"
  by code_simp

lemma find_mut_areas:
  assumes inv: "vma_inv l"
  shows "areas (VmAreaList_find_mut l a f) = map (\<lambda>v. if VmArea_contains v a then f v else v) (areas l)"
proof (cases "binary_search_by (vma_cmp a) (areas l)")
  case (Inl i)
  then have "VmAreaList_find l a = None" by (simp add: VmAreaList_find_def)
  then have "\<forall>v \<in> set (areas l). \<not> VmArea_contains v a" using find_eq_None_iff [OF inv] by simp
  with Inl show ?thesis by (simp add: VmAreaList_find_mut_def map_idI)
next
  case (Inr i)
  then have i: "i < length (areas l)" "VmArea_contains (areas l ! i) a"
    using binary_search_by_Inr [OF ordered_for_vma_cmp [OF inv] Inr] by (auto simp: vma_cmp_Equal)
  have other: "\<not> VmArea_contains (areas l ! j) a" if "j < length (areas l)" "j \<noteq> i" for j
  proof -
    have "before (areas l ! i) (areas l ! j) \<or> before (areas l ! j) (areas l ! i)"
      using inv that i(1) by (auto simp: vma_inv_def sorted_wrt_iff_nth_less neq_iff)
    with i(2) show ?thesis by (auto simp: VmArea_contains_def)
  qed
  have "(areas l)[i := f (areas l ! i)] = map (\<lambda>v. if VmArea_contains v a then f v else v) (areas l)"
  proof (rule nth_equalityI)
    fix j assume "j < length ((areas l)[i := f (areas l ! i)])"
    with i other [of j] show "(areas l)[i := f (areas l ! i)] ! j
        = map (\<lambda>v. if VmArea_contains v a then f v else v) (areas l) ! j"
      by (cases "j = i") simp_all
  qed simp
  with Inr show ?thesis by (simp add: VmAreaList_find_mut_def)
qed

text \<open>
  C10. On a well-formed list the binary search of \<open>find\<close> returns exactly the area that contains
  the address, and \<open>find_mut\<close> gives access to that area and to no other.
\<close>

theorem vma_find_spec:
  assumes "vma_inv l"
  shows "(VmAreaList_find l a = Some v \<longleftrightarrow> v \<in> set (areas l) \<and> VmArea_contains v a)
    \<and> areas (VmAreaList_find_mut l a f) = map (\<lambda>v. if VmArea_contains v a then f v else v) (areas l)"
  using find_eq_Some_iff [OF assms] find_mut_areas [OF assms] by blast

theorem vma_find_spec_witness:
  "vma_inv proc_image \<and> VmAreaList_find proc_image 0x400FFF = Some (areas proc_image ! 0)"
proof -
  have "areas proc_image ! 0 \<in> set (areas proc_image) \<and> VmArea_contains (areas proc_image ! 0) 0x400FFF" by code_simp
  then show ?thesis using vma_find_spec [OF image_inv, of "0x400FFF" "areas proc_image ! 0" id] image_inv by blast
qed

text \<open>
  C8. Insertion refines the address map.  It fails with \<open>InvalidArgs\<close> exactly on a non-empty
  unaligned area and with \<open>Overlap\<close> exactly when some address of the area is already mapped;
  otherwise the list stays well formed, the addresses of the area get its attributes and every
  other address keeps what it had.
\<close>

theorem vma_insert_refines:
  assumes "vma_inv l"
  shows "case VmAreaList_insert l v of
      Inl e \<Rightarrow> va_start v < va_end v \<and>
        (if vma_ok v then e = Overlap \<and> (\<exists>a. VmArea_contains v a \<and> vm_lookup l a \<noteq> None)
         else e = InvalidArgs)
    | Inr l' \<Rightarrow> vma_inv l' \<and>
        (\<forall>a. vm_lookup l' a = (if VmArea_contains v a then Some (vm_attrs v) else vm_lookup l a)) \<and>
        (\<forall>a. VmArea_contains v a \<longrightarrow> vm_lookup l a = None)"
proof (cases "va_start v < va_end v")
  case False
  then show ?thesis using assms by (auto simp: VmAreaList_insert_def VmArea_contains_def)
next
  case ne: True
  show ?thesis
  proof (cases "vma_ok v")
    case False
    with ne show ?thesis by (auto simp: VmAreaList_insert_def vma_ok_def page_aligned_def)
  next
    case True
    show ?thesis
    proof (cases "VmAreaList_insert l v")
      case (Inl e)
      then have "\<not> (\<forall>a. VmArea_contains v a \<longrightarrow> vm_lookup l a = None)"
        using insert_free_ok [OF assms True] unfolding VmArea_contains_def by (metis sum.distinct(1))
      moreover have "e = Overlap"
        using Inl True by (auto simp: VmAreaList_insert_def vma_ok_def page_aligned_def Let_def split: if_splits)
      ultimately show ?thesis using Inl ne True by auto
    next
      case (Inr l')
      then have "VmAreaList_insert l v \<noteq> Inl Overlap" by simp
      then have "\<forall>a. VmArea_contains v a \<longrightarrow> vm_lookup l a = None"
        unfolding insert_Overlap_iff [OF assms True] vm_lookup_eq_None_iff [OF assms]
        by (auto simp: VmArea_overlaps_def VmArea_contains_def)
      with Inr insert_Inr [OF assms True Inr] insert_lookup [OF assms True Inr] show ?thesis by simp
    qed
  qed
qed

theorem vma_insert_refines_witness:
  "vm_lookup (projr (VmAreaList_insert proc_image (VmArea_new 0x500000 0x501000 VM_READ Anon))) 0x500123
     = Some (VM_READ, Anon, replicate 32 0, 0)"
proof -
  let ?v = "VmArea_new 0x500000 0x501000 VM_READ Anon"
  have ok: "vma_ok ?v" "VmArea_contains ?v 0x500123" "vm_attrs ?v = (VM_READ, Anon, replicate 32 0, 0)"
    "\<not> isl (VmAreaList_insert proc_image ?v)"
    by code_simp+
  obtain l' where l': "VmAreaList_insert proc_image ?v = Inr l'"
    using ok(4) by (cases "VmAreaList_insert proc_image ?v") auto
  with vma_insert_refines [OF image_inv, of ?v] ok show ?thesis by simp
qed

text \<open>
  C9. Removal refines the address map.  It is refused exactly on an empty or unaligned range;
  otherwise the list stays well formed, exactly the addresses of the range become unmapped, and
  the areas handed back say what was mapped there.
\<close>

theorem vma_remove_refines:
  assumes "vma_inv l"
  shows "case VmAreaList_remove l s e of
      Inl err \<Rightarrow> err = InvalidArgs \<and> \<not> (s < e \<and> page_aligned s \<and> page_aligned e)
    | Inr (removed, l') \<Rightarrow> s < e \<and> page_aligned s \<and> page_aligned e \<and> vma_inv l' \<and>
        (\<forall>a. vm_lookup l' a = (if s \<le> a \<and> a < e then None else vm_lookup l a)) \<and>
        (\<forall>a x. (\<exists>u \<in> set removed. VmArea_contains u a \<and> vm_attrs u = x)
           \<longleftrightarrow> s \<le> a \<and> a < e \<and> vm_lookup l a = Some x)"
proof (cases "VmAreaList_remove l s e")
  case (Inl err)
  then show ?thesis
    by (auto simp: VmAreaList_remove_def page_aligned_def split: if_splits prod.splits)
next
  case (Inr r)
  obtain removed l' where r: "r = (removed, l')" by fastforce
  note res = Inr [unfolded r]
  note rm = remove_Inr [OF assms res]
  have "(\<exists>u \<in> set removed. VmArea_contains u a \<and> vm_attrs u = x)
      \<longleftrightarrow> s \<le> a \<and> a < e \<and> vm_lookup l a = Some x" for a x
  proof -
    have "vm_attrs u = vm_attrs v" if "u \<in> set (vma_inter s e v)" for u v
      using that by (auto simp: vma_inter_def vm_attrs_def split: if_splits)
    then have "(\<exists>u \<in> set removed. VmArea_contains u a \<and> vm_attrs u = x) \<longleftrightarrow>
      (\<exists>v \<in> set (areas l). vm_attrs v = x \<and> (\<exists>u \<in> set (vma_inter s e v). VmArea_contains u a))"
      unfolding rm(4) by auto
    then show ?thesis unfolding vma_inter_contains vm_lookup_eq_Some_iff [OF assms] by auto
  qed
  with res rm(1-3) remove_inv [OF assms res] remove_lookup [OF assms res] show ?thesis by simp
qed

theorem vma_remove_refines_witness:
  "\<exists>removed l'. VmAreaList_remove proc_image 0x601000 0x602000 = Inr (removed, l') \<and> vma_inv l'
     \<and> vm_lookup l' 0x601800 = None \<and> vm_lookup l' 0x602000 = vm_lookup proc_image 0x602000"
proof -
  have "(0x601000 :: u64) < 0x602000" "page_aligned 0x601000" "page_aligned 0x602000" by code_simp+
  with vma_remove_refines [OF image_inv, of "0x601000" "0x602000"] show ?thesis
    by (auto split: sum.splits)
qed

text \<open>
  C13. The \<open>MAP_FIXED\<close> sequence of \<open>sys_mmap\<close>, which clears the target range and then records the
  new area, cannot fail on an aligned non-empty range: the new area replaces whatever was mapped
  in its range and nothing else changes.
\<close>

theorem map_fixed_overlays:
  assumes "vma_inv vmas" "vma_ok v"
  shows "\<exists>r vmas' vmas''. remove_vma_range vmas (va_start v) (va_end v) = Inr (r, vmas')
    \<and> add_vma vmas' v = Inr vmas'' \<and> vma_inv vmas''
    \<and> (\<forall>a. vm_lookup vmas'' a = (if VmArea_contains v a then Some (vm_attrs v) else vm_lookup vmas a))"
  by (rule vml.overlay_ok [OF assms])
    (auto simp: remove_vma_range_def add_vma_def VmArea_contains_def)

theorem map_fixed_overlays_witness:
  "\<exists>r vmas' vmas''. remove_vma_range proc_image 0x601000 0x602000 = Inr (r, vmas')
    \<and> add_vma vmas' (VmArea_new 0x601000 0x602000 VM_READ Anon) = Inr vmas'' \<and> vma_inv vmas''"
proof -
  have "vma_ok (VmArea_new 0x601000 0x602000 VM_READ Anon)" by code_simp
  from map_fixed_overlays [OF image_inv this] show ?thesis by (auto simp: VmArea_new_def)
qed

end
