(* ===== verification/Vma_Gaps.thy ===== *)
theory Vma_Gaps
  imports Vma
begin

text \<open>
  The free-region search of \<open>kernel/mm/mm-vma/src/lib.rs\<close>: what \<open>find_free_region\<close> returns
  is free and aligned, and it finds a region whenever there is one below the limit.
\<close>

section \<open>Free regions\<close>

definition region_free :: "VmAreaList \<Rightarrow> u64 \<Rightarrow> u64 \<Rightarrow> bool" where
  "region_free l a sz \<longleftrightarrow> page_aligned a \<and> MMAP_MIN_ADDR \<le> a \<and> unat a + unat sz < 2 ^ 64
     \<and> list_all (\<lambda>v. \<not> VmArea_overlaps v a (a + sz)) (areas l)"

text \<open>Sizes, hints and areas in the lower half of the address space, so that no sum wraps.\<close>

definition lower_half :: "VmAreaList \<Rightarrow> u64 \<Rightarrow> u64 \<Rightarrow> bool" where
  "lower_half l sz hint \<longleftrightarrow> unat sz < 2 ^ 63 \<and> unat hint < 2 ^ 63
     \<and> list_all (\<lambda>v. unat (va_end v) < 2 ^ 63) (areas l)"

lemma floor_fits:
  assumes "sz \<le> g"
  shows "unat (page_floor (g - sz)) + unat sz \<le> unat g"
proof -
  have "unat (page_floor (g - sz)) \<le> unat (g - sz)" using page_floor_le by (simp add: word_le_nat_alt)
  with assms show ?thesis by (simp add: unat_sub_if_le word_le_nat_alt)
qed

lemma region_freeI:
  assumes "page_aligned a" "MMAP_MIN_ADDR \<le> a" "unat a + unat sz < 2 ^ 64"
    and "\<And>v. v \<in> set (areas l) \<Longrightarrow> va_end v \<le> a \<or> unat a + unat sz \<le> unat (va_start v)"
  shows "region_free l a sz"
  using assms unfolding region_free_def list_all_iff VmArea_overlaps_def
  by (auto simp: word_less_nat_alt word_le_nat_alt unat_add_no_overflow not_less)

text \<open>A free region, below the limit provided that no area lies above the limit.\<close>

definition region_found :: "VmAreaList \<Rightarrow> u64 \<Rightarrow> u64 \<Rightarrow> u64 \<Rightarrow> bool" where
  "region_found l a sz mx \<longleftrightarrow> region_free l a sz
     \<and> (list_all (\<lambda>v. va_end v \<le> mx) (areas l) \<longrightarrow> unat a + unat sz \<le> unat mx)"

lemma region_found_below_area:
  assumes inv: "vma_inv l" and v: "v \<in> set (areas l)" and "region_free l c sz"
    and "unat c + unat sz \<le> unat (va_start v)"
  shows "region_found l c sz mx"
proof -
  have "unat (va_start v) \<le> unat (va_end v)" using vma_inv_okD [OF inv v] by (simp add: word_less_nat_alt)
  with assms show ?thesis by (fastforce simp: region_found_def list_all_iff word_le_nat_alt)
qed

lemma region_found_top:
  assumes "sz \<le> mx" "c = page_floor (mx - sz)" "MMAP_MIN_ADDR \<le> c"
    and "\<And>v. v \<in> set (areas l) \<Longrightarrow> va_end v \<le> c"
  shows "region_found l c sz mx"
proof -
  have fits: "unat c + unat sz \<le> unat mx" using floor_fits assms(1,2) by simp
  then have "unat c + unat sz < 2 ^ 64" using unat_u64_less [of mx] by linarith
  with assms fits show ?thesis by (auto simp: region_found_def intro!: region_freeI)
qed

lemma MMAP_MIN_ADDR_le: "page_aligned a \<Longrightarrow> a \<noteq> 0 \<Longrightarrow> MMAP_MIN_ADDR \<le> a"
  by (auto simp: MMAP_MIN_ADDR_def page_aligned_iff word_le_nat_alt dest: dvd_imp_le simp: unat_gt_0)

section \<open>What the search returns is free\<close>

lemma gap_scan_Some:
  "gap_scan as sz i = Some c \<Longrightarrow> i < length as \<Longrightarrow> sorted_wrt before as \<Longrightarrow>
   \<exists>j<i. page_aligned c \<and> va_end (as ! j) \<le> c \<and> unat c + unat sz \<le> unat (va_start (as ! Suc j))"
proof (induction i)
  case (Suc i)
  let ?gs = "va_end (as ! i)" and ?ge = "va_start (as ! Suc i)"
  have le: "?gs \<le> ?ge" using Suc.prems by (simp add: sorted_wrt_iff_nth_less)
  show ?case
  proof (cases "sz \<le> ?ge - ?gs \<and> ?gs \<le> page_floor (?ge - sz)")
    case True
    with Suc.prems(1) have c: "c = page_floor (?ge - sz)" by (simp add: page_floor_def Let_def)
    have "sz \<le> ?ge" using True le by (auto simp: word_le_nat_alt unat_sub_if_le)
    with True c floor_fits [of sz ?ge] show ?thesis by (intro exI [of _ i]) auto
  next
    case False
    with Suc show ?thesis by (auto simp: page_floor_def Let_def less_Suc_eq split: if_splits)
  qed
qed simp

lemma gap_region_free:
  assumes inv: "vma_inv l" and j: "Suc j < length (areas l)" and "page_aligned c"
    and c: "va_end (areas l ! j) \<le> c" "unat c + unat sz \<le> unat (va_start (areas l ! Suc j))"
  shows "region_free l c sz"
proof (rule region_freeI)
  have srt: "\<And>i k. i < k \<Longrightarrow> k < length (areas l) \<Longrightarrow> before (areas l ! i) (areas l ! k)"
    using inv by (simp add: vma_inv_def sorted_wrt_iff_nth_less)
  have ok: "\<And>i. i < length (areas l) \<Longrightarrow> va_start (areas l ! i) < va_end (areas l ! i)"
    using vma_inv_okD [OF inv] by simp
  show "page_aligned c" by fact
  have "c \<noteq> 0" using ok [of j] j c(1) by auto
  then show "MMAP_MIN_ADDR \<le> c" by (rule MMAP_MIN_ADDR_le [OF \<open>page_aligned c\<close>])
  show "unat c + unat sz < 2 ^ 64"
    using c(2) unat_u64_less [of "va_start (areas l ! Suc j)"] by simp
  fix v assume "v \<in> set (areas l)"
  then obtain i where i: "i < length (areas l)" "v = areas l ! i" by (auto simp: in_set_conv_nth)
  show "va_end v \<le> c \<or> unat c + unat sz \<le> unat (va_start v)"
  proof (cases "i \<le> j")
    case True
    then have "va_end v \<le> va_end (areas l ! j)"
      using srt [of i j] ok [of j] j i by (cases "i = j") (auto intro: order_trans)
    with c(1) show ?thesis by auto
  next
    case False
    then have "va_start (areas l ! Suc j) \<le> va_start v"
      using srt [of "Suc j" i] ok [of "Suc j"] j i by (cases "i = Suc j") (auto intro: order_trans)
    with c(2) show ?thesis by (simp add: word_le_nat_alt)
  qed
qed

lemma free_below_first_Some:
  assumes inv: "vma_inv l" and ne: "areas l \<noteq> []" and sz: "unat sz < 2 ^ 63"
    and res: "free_below_first (areas l) sz = Some c"
  shows "region_found l c sz mx"
proof -
  let ?f = "va_start (areas l ! 0)"
  have c: "c = page_floor (?f - sz)" "MMAP_MIN_ADDR \<le> c" "MMAP_MIN_ADDR + sz \<le> ?f"
    using res by (auto simp: free_below_first_def Let_def page_floor_def split: if_splits)
  have "unat (MMAP_MIN_ADDR + sz) = 4096 + unat sz"
    using sz by (simp add: MMAP_MIN_ADDR_def unat_add_no_overflow)
  then have "sz \<le> ?f" using c(3) by (simp add: word_le_nat_alt)
  with c(1) have fits: "unat c + unat sz \<le> unat ?f" using floor_fits by simp
  show ?thesis
  proof (rule region_found_below_area [OF inv _ region_freeI fits])
    show "areas l ! 0 \<in> set (areas l)" using ne by simp
    show "unat c + unat sz < 2 ^ 64" using fits unat_u64_less [of ?f] by simp
    fix v assume "v \<in> set (areas l)"
    then have "?f \<le> va_start v"
      using hd_start_least [of "areas l" v] inv ne by (simp add: vma_inv_def hd_conv_nth)
    with fits show "va_end v \<le> c \<or> unat c + unat sz \<le> unat (va_start v)"
      by (simp add: word_le_nat_alt)
  qed (use c in auto)
qed

lemma free_top_down_nonempty:
  "as \<noteq> [] \<Longrightarrow> free_top_down as sz mx =
     (if va_end (last as) + sz \<le> mx \<and> va_end (last as) \<le> page_floor (mx - sz)
      then Some (page_floor (mx - sz))
      else case gap_scan as sz (length as - 1) of Some c \<Rightarrow> Some c | None \<Rightarrow> free_below_first as sz)"
  by (simp add: free_top_down_def Let_def page_floor_def last_conv_nth)

lemma free_top_down_cases:
  assumes "free_top_down as sz mx = Some c" "as \<noteq> []"
  shows "(va_end (last as) + sz \<le> mx \<and> va_end (last as) \<le> c \<and> c = page_floor (mx - sz))
    \<or> gap_scan as sz (length as - 1) = Some c \<or> free_below_first as sz = Some c"
proof (cases "va_end (last as) + sz \<le> mx \<and> va_end (last as) \<le> page_floor (mx - sz)")
  case True
  with assms show ?thesis by (simp add: free_top_down_nonempty)
next
  case False
  with assms(1) have "(case gap_scan as sz (length as - 1) of Some c \<Rightarrow> Some c
    | None \<Rightarrow> free_below_first as sz) = Some c"
    unfolding free_top_down_nonempty [OF assms(2)] by (simp only: if_False)
  then show ?thesis by (cases "gap_scan as sz (length as - 1)") simp_all
qed

lemma free_top_down_Some:
  assumes inv: "vma_inv l" and low: "lower_half l sz hint"
    and res: "free_top_down (areas l) sz mx = Some c"
  shows "region_found l c sz mx"
proof (cases "areas l = []")
  case True
  with res have c: "sz + MMAP_MIN_ADDR \<le> mx" "c = page_floor (mx - sz)"
    by (auto simp: free_top_down_def page_floor_def split: if_splits)
  have "unat (sz + MMAP_MIN_ADDR) = unat sz + 4096"
    using low by (simp add: MMAP_MIN_ADDR_def unat_add_no_overflow lower_half_def)
  then have le: "sz \<le> mx" "MMAP_MIN_ADDR \<le> mx - sz"
    using c(1) by (auto simp: word_le_nat_alt unat_sub_if_le MMAP_MIN_ADDR_def)
  have "MMAP_MIN_ADDR \<le> c" unfolding c(2)
    by (rule page_floor_greatest [OF _ le(2)]) (simp add: page_aligned_iff MMAP_MIN_ADDR_def)
  with le(1) c(2) True show ?thesis by (intro region_found_top) auto
next
  case False
  let ?last = "last (areas l)"
  have lastok: "?last \<in> set (areas l)" "va_start ?last < va_end ?last" "unat (va_end ?last) < 2 ^ 63"
    using False vma_inv_okD [OF inv] low by (auto simp: lower_half_def list_all_iff)
  consider (top) "va_end ?last + sz \<le> mx" "va_end ?last \<le> c" "c = page_floor (mx - sz)"
    | (gap) "gap_scan (areas l) sz (length (areas l) - 1) = Some c"
    | (below) "free_below_first (areas l) sz = Some c"
    using free_top_down_cases [OF res False] by blast
  then show ?thesis
  proof cases
    case top
    have "unat (va_end ?last + sz) = unat (va_end ?last) + unat sz"
      using low lastok(3) by (intro unat_add_no_overflow) (simp add: lower_half_def)
    then have "sz \<le> mx" using top(1) by (simp add: word_le_nat_alt)
    moreover have "c \<noteq> 0" using top(2) lastok(2) by auto
    then have "MMAP_MIN_ADDR \<le> c" by (intro MMAP_MIN_ADDR_le) (simp_all add: top(3))
    moreover have "va_end v \<le> c" if "v \<in> set (areas l)" for v
      using last_end_greatest [of "areas l" v] that inv top(2)
      by (simp add: vma_inv_def)
    ultimately show ?thesis using top(3) by (intro region_found_top)
  next
    case gap
    have "length (areas l) - 1 < length (areas l)" "sorted_wrt before (areas l)"
      using False inv by (simp_all add: vma_inv_def)
    from gap_scan_Some [OF gap this] obtain j
      where "j < length (areas l) - 1" and j: "page_aligned c" "va_end (areas l ! j) \<le> c"
        "unat c + unat sz \<le> unat (va_start (areas l ! Suc j))"
      by blast
    then have sj: "Suc j < length (areas l)" by simp
    show ?thesis
      by (rule region_found_below_area [OF inv nth_mem [OF sj] gap_region_free [OF inv sj j] j(3)])
  next
    case below
    with low show ?thesis by (intro free_below_first_Some [OF inv False]) (simp_all add: lower_half_def)
  qed
qed

section \<open>The search is complete\<close>

lemma gap_scan_not_None:
  "j < i \<Longrightarrow> page_aligned a \<Longrightarrow> va_end (as ! j) \<le> a \<Longrightarrow> unat a + unat sz \<le> unat (va_start (as ! Suc j))
   \<Longrightarrow> gap_scan as sz i \<noteq> None"
proof (induction i)
  case (Suc i)
  show ?case
  proof (cases "j = i")
    case True
    have le: "sz \<le> va_start (as ! Suc j)" "a \<le> va_start (as ! Suc j) - sz" "va_end (as ! j) \<le> va_start (as ! Suc j)"
      using Suc.prems(3,4) by (auto simp: word_le_nat_alt unat_sub_if_le)
    then have "sz \<le> va_start (as ! Suc j) - va_end (as ! j)"
      using Suc.prems(3,4) by (auto simp: word_le_nat_alt unat_sub_if_le)
    moreover have "va_end (as ! j) \<le> page_floor (va_start (as ! Suc j) - sz)"
      using page_floor_greatest [OF Suc.prems(2) le(2)] Suc.prems(3) by auto
    ultimately show ?thesis using True by (simp add: page_floor_def Let_def)
  qed (use Suc in \<open>auto simp: Let_def split: if_splits\<close>)
qed simp

lemma crossing_index:
  "P 0 \<Longrightarrow> \<not> P n \<Longrightarrow> \<exists>j<n. P j \<and> \<not> P (Suc j)" for n :: nat
  by (induction n) (auto intro: less_SucI)

lemma free_top_down_not_None:
  assumes inv: "vma_inv l" and low: "lower_half l sz hint"
    and free: "region_free l a sz" and mx: "unat a + unat sz \<le> unat mx"
  shows "free_top_down (areas l) sz mx \<noteq> None"
proof (cases "areas l = []")
  case True
  have "unat (sz + MMAP_MIN_ADDR) = unat sz + 4096"
    using low by (simp add: MMAP_MIN_ADDR_def unat_add_no_overflow lower_half_def)
  with free mx True show ?thesis
    by (auto simp: region_free_def free_top_down_def word_le_nat_alt MMAP_MIN_ADDR_def)
next
  case False
  let ?as = "areas l" and ?n = "length (areas l) - 1"
  have a: "page_aligned a" "MMAP_MIN_ADDR \<le> a" using free by (auto simp: region_free_def)
  have side: "va_end v \<le> a \<or> unat a + unat sz \<le> unat (va_start v)" if "v \<in> set ?as" for v
    using free that unfolding region_free_def list_all_iff VmArea_overlaps_def
    by (auto simp: word_less_nat_alt word_le_nat_alt unat_add_no_overflow not_less)
  have fl: "a \<le> page_floor (g - sz)" if "unat a + unat sz \<le> unat g" for g
    using that a(1) by (intro page_floor_greatest) (auto simp: word_le_nat_alt unat_sub_if_le)
  consider (top) "va_end (?as ! ?n) \<le> a" | (below) "\<not> va_end (?as ! 0) \<le> a"
    | (gap) j where "j < ?n" "va_end (?as ! j) \<le> a" "\<not> va_end (?as ! Suc j) \<le> a"
    using crossing_index [of "\<lambda>j. va_end (?as ! j) \<le> a" ?n] by blast
  then show ?thesis
  proof cases
    case top
    have "unat (va_end (?as ! ?n)) < 2 ^ 63" "unat sz < 2 ^ 63"
      using low nth_mem [of ?n ?as] False by (simp_all add: lower_half_def list_all_iff)
    then have "unat (va_end (?as ! ?n)) + unat sz < 2 ^ 64" by simp
    then have "va_end (?as ! ?n) + sz \<le> mx"
      using top mx by (simp add: word_le_nat_alt unat_add_no_overflow)
    moreover have "va_end (?as ! ?n) \<le> page_floor (mx - sz)" using top fl [OF mx] by order
    ultimately show ?thesis using False by (simp add: free_top_down_def Let_def page_floor_def)
  next
    case below
    then have f: "unat a + unat sz \<le> unat (va_start (?as ! 0))" using side [of "?as ! 0"] False by auto
    have "unat (MMAP_MIN_ADDR + sz) = 4096 + unat sz"
      using low by (simp add: MMAP_MIN_ADDR_def unat_add_no_overflow lower_half_def)
    then have "MMAP_MIN_ADDR + sz \<le> va_start (?as ! 0)"
      using f a(2) by (auto simp: word_le_nat_alt MMAP_MIN_ADDR_def)
    moreover have "MMAP_MIN_ADDR \<le> page_floor (va_start (?as ! 0) - sz)" using a(2) fl [OF f] by order
    ultimately show ?thesis
      using False by (simp add: free_top_down_def free_below_first_def Let_def page_floor_def split: option.split)
  next
    case gap
    then have "unat a + unat sz \<le> unat (va_start (?as ! Suc j))" using side [of "?as ! Suc j"] by auto
    from gap_scan_not_None [OF gap(1) a(1) gap(2) this] show ?thesis
      using False by (auto simp: free_top_down_def Let_def split: option.split)
  qed
qed

section \<open>Properties\<close>

lemma find_free_region_eq:
  "VmAreaList_find_free_region l sz hint mx =
     (if sz = 0 \<or> \<not> page_aligned sz then None
      else if page_floor hint \<noteq> 0 \<and> page_floor hint + sz \<le> mx \<and>
           list_all (\<lambda>v. \<not> VmArea_overlaps v (page_floor hint) (page_floor hint + sz)) (areas l)
      then Some (page_floor hint) else free_top_down (areas l) sz mx)"
  by (simp add: VmAreaList_find_free_region_def page_aligned_def page_floor_def Let_def list_ex_iff list_all_iff)

lemma hint_found:
  assumes "lower_half l sz hint" "page_floor hint \<noteq> 0" "page_floor hint + sz \<le> mx"
    and "list_all (\<lambda>v. \<not> VmArea_overlaps v (page_floor hint) (page_floor hint + sz)) (areas l)"
  shows "region_found l (page_floor hint) sz mx"
proof -
  have "unat (page_floor hint) < 2 ^ 63" "unat sz < 2 ^ 63"
    using assms(1) page_floor_le [of hint] by (auto simp: lower_half_def word_le_nat_alt)
  then have sum: "unat (page_floor hint) + unat sz < 2 ^ 64" by simp
  then have "unat (page_floor hint) + unat sz \<le> unat mx"
    using assms(3) by (simp add: word_le_nat_alt unat_add_no_overflow)
  with assms sum MMAP_MIN_ADDR_le [of "page_floor hint"] show ?thesis
    by (simp add: region_found_def region_free_def)
qed

lemma image_lower_half: "unat sz < 2 ^ 63 \<Longrightarrow> unat hint < 2 ^ 63 \<Longrightarrow> lower_half proc_image sz hint"
  by (simp add: lower_half_def proc_image_def VmArea_new_def VmArea_new_named_def)



text \<open>
  C12. The search is complete: for an aligned non-zero size it returns a region whenever some free
  region fits below the limit, so \<open>None\<close> means that there is no room.
\<close>

theorem find_free_region_complete:
  assumes "vma_inv l" "lower_half l sz hint" "sz \<noteq> 0" "page_aligned sz"
    and "region_free l a sz" "unat a + unat sz \<le> unat mx"
  shows "VmAreaList_find_free_region l sz hint mx \<noteq> None"
  using assms(3,4) free_top_down_not_None [OF assms(1,2,5,6)] by (simp add: find_free_region_eq)

theorem find_free_region_complete_witness:
  "VmAreaList_find_free_region proc_image 0x2000 0x400000 0x7FFFFFFFF000 \<noteq> None"
proof -
  have "lower_half proc_image 0x2000 0x400000" "(0x2000 :: u64) \<noteq> 0" "page_aligned 0x2000"
    "region_free proc_image 0x800000 0x2000" "unat (0x800000 :: u64) + unat (0x2000 :: u64) \<le> unat (0x7FFFFFFFF000 :: u64)"
    by (simp_all add: lower_half_def page_aligned_iff region_free_def MMAP_MIN_ADDR_def proc_image_def
        VmArea_new_def VmArea_new_named_def VmArea_overlaps_def)
  from find_free_region_complete [OF image_inv this] show ?thesis .
qed

section \<open>The limit is not a bound on its own\<close>

text \<open>
  The scan of the gaps does not look at the limit.  With the stack above it, as in a search with
  the limit \<open>0x7000_0000_0000\<close> of shared memory segments, a region is returned that lies above
  the limit.
\<close>

lemma find_free_region_above_limit:
  "VmAreaList_find_free_region proc_image 0x1000 0 0x700000000000 = Some 0x7FFFFFFDF000"
  by code_simp

text \<open>
  A hint near the top of the address space makes the end of the region wrap around, and the hint
  is accepted.
\<close>

lemma find_free_region_hint_wraps:
  "VmAreaList_find_free_region proc_image 0x2000 0xFFFFFFFFFFFFF000 0x7FFFFFFFF000 = Some 0xFFFFFFFFFFFFF000"
  by code_simp

end
