(* ===== verification/Seccomp.thy ===== *)
theory Seccomp
  imports Prelude
begin

text \<open>
  System call filtering, \<open>kernel/container/seccomp/src/lib.rs\<close>: the classic BPF interpreter that
  evaluates a filter on the system call data, the two ready-made filters, and the filter state of
  a process.  The interpreter is a function whose termination follows from the program counter
  growing at every instruction.  \<open>i32\<close> system call numbers are 32-bit words.
\<close>

section \<open>Data\<close>

datatype SeccompError = InvalidFilter | FilterTooLarge | AlreadyStrict | PermissionDenied

datatype SeccompOp = SetModeStrict | SetModeFilter | GetNotifFd

datatype SeccompAction = Kill | Trap | Errno | Trace | Log | Allow

primrec action_code :: "SeccompAction \<Rightarrow> u32" where
  "action_code Kill = 0x00000000"
| "action_code Trap = 0x00030000"
| "action_code Errno = 0x00050000"
| "action_code Trace = 0x7ff00000"
| "action_code Log = 0x7ffc0000"
| "action_code Allow = 0x7fff0000"

definition SeccompAction_errno :: "u16 \<Rightarrow> u32" where
  "SeccompAction_errno err = 0x00050000 OR ucast err"

definition SeccompAction_trace :: "u16 \<Rightarrow> u32" where
  "SeccompAction_trace d = 0x7ff00000 OR ucast d"

record BpfInsn =
  code :: u16
  jt :: u8
  jf :: u8
  k :: u32

definition BPF_LD :: u16 where "BPF_LD = 0x00"
definition BPF_JMP :: u16 where "BPF_JMP = 0x05"
definition BPF_RET :: u16 where "BPF_RET = 0x06"
definition BPF_W :: u16 where "BPF_W = 0x00"
definition BPF_ABS :: u16 where "BPF_ABS = 0x20"
definition BPF_JEQ :: u16 where "BPF_JEQ = 0x10"
definition BPF_K :: u16 where "BPF_K = 0x00"

record SeccompData =
  nr :: u32
  arch :: u32
  instruction_pointer :: u64
  sd_args :: "u64 list"

record SeccompFilter =
  program :: "BpfInsn list"

record SeccompState =
  strict_mode :: bool
  filters :: "SeccompFilter list"

section \<open>Filters\<close>

definition SeccompFilter_new :: "BpfInsn list \<Rightarrow> SeccompError + SeccompFilter" where
  "SeccompFilter_new prog = (if prog = [] then Inl InvalidFilter else Inr \<lparr>program = prog\<rparr>)"

definition allow_all :: SeccompFilter where
  "allow_all = \<lparr>program = [\<lparr>code = BPF_RET OR BPF_K, jt = 0, jf = 0, k = action_code Allow\<rparr>]\<rparr>"

definition block_syscall :: "u32 \<Rightarrow> u16 \<Rightarrow> SeccompFilter" where
  "block_syscall syscall_nr err = \<lparr>program =
     [\<lparr>code = BPF_LD OR BPF_W OR BPF_ABS, jt = 0, jf = 0, k = 0\<rparr>,
      \<lparr>code = BPF_JMP OR BPF_JEQ OR BPF_K, jt = 0, jf = 1, k = syscall_nr\<rparr>,
      \<lparr>code = BPF_RET OR BPF_K, jt = 0, jf = 0, k = SeccompAction_errno err\<rparr>,
      \<lparr>code = BPF_RET OR BPF_K, jt = 0, jf = 0, k = action_code Allow\<rparr>]\<rparr>"

section \<open>The interpreter\<close>

text \<open>
  The bytes of the \<open>repr(C)\<close> structure on a little-endian machine, and \<open>from_ne_bytes\<close> on such a
  machine.
\<close>

definition le_bytes :: "nat \<Rightarrow> 'a::len word \<Rightarrow> u8 list" where
  "le_bytes n w = map (\<lambda>i. ucast (drop_bit (8 * i) w)) [0..<n]"

primrec from_ne_bytes :: "u8 list \<Rightarrow> u32" where
  "from_ne_bytes [] = 0"
| "from_ne_bytes (b # bs) = ucast b OR push_bit 8 (from_ne_bytes bs)"

definition data_bytes :: "SeccompData \<Rightarrow> u8 list" where
  "data_bytes d = le_bytes 4 (nr d) @ le_bytes 4 (arch d) @ le_bytes 8 (instruction_pointer d)
     @ concat (map (le_bytes 8) (sd_args d))"

record BpfState =
  reg_a :: u32
  reg_x :: u32
  mem :: "u32 list"
  pc :: nat

definition bpf_init :: BpfState where
  "bpf_init = \<lparr>reg_a = 0, reg_x = 0, mem = replicate 16 0, pc = 0\<rparr>"

definition mem_slot :: "BpfInsn \<Rightarrow> nat" where
  "mem_slot insn = unat (k insn AND 0xf)"

definition bpf_load_abs :: "u8 list \<Rightarrow> u16 \<Rightarrow> nat \<Rightarrow> u32" where
  "bpf_load_abs bytes sz offset =
     (if sz = 0x00 then
        (if offset + 4 \<le> length bytes then from_ne_bytes (take 4 (drop offset bytes)) else 0)
      else if sz = 0x08 then
        (if offset + 2 \<le> length bytes then from_ne_bytes (take 2 (drop offset bytes)) else 0)
      else if sz = 0x10 then
        (if offset < length bytes then ucast (bytes ! offset) else 0)
      else 0)"

definition bpf_load :: "u8 list \<Rightarrow> BpfInsn \<Rightarrow> BpfState \<Rightarrow> u32" where
  "bpf_load bytes insn s =
     (let sz = code insn AND 0x18; mode = code insn AND 0xe0 in
      if mode = 0x00 then k insn
      else if mode = 0x20 then bpf_load_abs bytes sz (unat (k insn))
      else if mode = 0x60 then mem s ! mem_slot insn
      else 0)"

text \<open>
  The shifts are Rust's \<open><<\<close> and \<open>>>\<close>: without overflow checks the shift amount is taken modulo
  32.
\<close>

definition bpf_src :: "BpfInsn \<Rightarrow> BpfState \<Rightarrow> u32" where
  "bpf_src insn s = (if code insn AND 0x08 \<noteq> 0 then reg_x s else k insn)"

definition bpf_alu :: "BpfInsn \<Rightarrow> BpfState \<Rightarrow> u32" where
  "bpf_alu insn s =
     (let op = code insn AND 0xf0; src = bpf_src insn s; a = reg_a s in
      if op = 0x00 then a + src
      else if op = 0x10 then a - src
      else if op = 0x20 then a * src
      else if op = 0x30 then (if src \<noteq> 0 then a div src else 0)
      else if op = 0x40 then a OR src
      else if op = 0x50 then a AND src
      else if op = 0x60 then push_bit (unat src mod 32) a
      else if op = 0x70 then drop_bit (unat src mod 32) a
      else if op = 0x80 then NOT a + 1
      else a)"

definition bpf_jump :: "BpfInsn \<Rightarrow> BpfState \<Rightarrow> nat" where
  "bpf_jump insn s =
     (let op = code insn AND 0xf0; src = bpf_src insn s; a = reg_a s;
          cond = (if op = 0x00 then True
                  else if op = 0x10 then a = src
                  else if op = 0x20 then a > src
                  else if op = 0x30 then a \<ge> src
                  else if op = 0x40 then a AND src \<noteq> 0
                  else False) in
      if op = 0x00 then pc s + unat (k insn)
      else if cond then pc s + unat (jt insn)
      else pc s + unat (jf insn))"

text \<open>One iteration of the loop body: \<open>Inl\<close> is the early return, \<open>Inr\<close> the state after \<open>pc += 1\<close>.\<close>

definition bpf_step :: "u8 list \<Rightarrow> BpfInsn \<Rightarrow> BpfState \<Rightarrow> u32 + BpfState" where
  "bpf_step bytes insn s =
     (let class = code insn AND 0x07; next = (\<lambda>s. Inr (s\<lparr>pc := pc s + 1\<rparr>)) in
      if class = 0x00 then next (s\<lparr>reg_a := bpf_load bytes insn s\<rparr>)
      else if class = 0x01 then next (s\<lparr>reg_x := k insn\<rparr>)
      else if class = 0x02 then next (s\<lparr>mem := (mem s)[mem_slot insn := reg_a s]\<rparr>)
      else if class = 0x03 then next (s\<lparr>mem := (mem s)[mem_slot insn := reg_x s]\<rparr>)
      else if class = 0x04 then next (s\<lparr>reg_a := bpf_alu insn s\<rparr>)
      else if class = 0x05 then next (s\<lparr>pc := bpf_jump insn s\<rparr>)
      else if class = 0x06 then Inl (if code insn AND 0x08 \<noteq> 0 then reg_a s else k insn)
      else if class = 0x07 then
        (if code insn AND 0x08 \<noteq> 0 then next (s\<lparr>reg_a := reg_x s\<rparr>) else next (s\<lparr>reg_x := reg_a s\<rparr>))
      else next s)"

lemma bpf_jump_ge: "pc s \<le> bpf_jump insn s"
  by (simp add: bpf_jump_def Let_def)

lemma bpf_step_pc: "bpf_step bytes insn s = Inr s' \<Longrightarrow> pc s < pc s'"
  using bpf_jump_ge [of s insn] by (auto simp: bpf_step_def Let_def split: if_splits)

function bpf_loop :: "BpfInsn list \<Rightarrow> u8 list \<Rightarrow> BpfState \<Rightarrow> u32" where
  "bpf_loop prog bytes s =
     (if pc s < length prog then
        (case bpf_step bytes (prog ! pc s) s of
           Inl r \<Rightarrow> r
         | Inr s' \<Rightarrow> bpf_loop prog bytes s')
      else action_code Kill)"
  by auto
termination
  by (relation "measure (\<lambda>(prog, bytes, s). length prog - pc s)")
    (auto dest!: bpf_step_pc)

declare bpf_loop.simps [simp del]

definition SeccompFilter_evaluate :: "SeccompFilter \<Rightarrow> SeccompData \<Rightarrow> u32" where
  "SeccompFilter_evaluate f d = bpf_loop (program f) (data_bytes d) bpf_init"

section \<open>The filter state of a process\<close>

definition SeccompState_new :: SeccompState where
  "SeccompState_new = \<lparr>strict_mode = False, filters = []\<rparr>"

definition set_strict :: "SeccompState \<Rightarrow> SeccompError + SeccompState" where
  "set_strict s = (if strict_mode s then Inl AlreadyStrict else Inr (s\<lparr>strict_mode := True\<rparr>))"

definition add_filter :: "SeccompState \<Rightarrow> SeccompFilter \<Rightarrow> SeccompError + SeccompState" where
  "add_filter s f =
     (if strict_mode s then Inl AlreadyStrict else Inr (s\<lparr>filters := filters s @ [f]\<rparr>))"

primrec check_filters :: "SeccompFilter list \<Rightarrow> SeccompData \<Rightarrow> u32" where
  "check_filters [] d = action_code Allow"
| "check_filters (f # fs) d =
     (let result = SeccompFilter_evaluate f d in
      if result \<noteq> action_code Allow then result else check_filters fs d)"

definition check_syscall :: "SeccompState \<Rightarrow> SeccompData \<Rightarrow> u32" where
  "check_syscall s d =
     (if strict_mode s then
        (if nr d = 0 \<or> nr d = 1 \<or> nr d = 60 \<or> nr d = 15 then action_code Allow else action_code Kill)
      else check_filters (rev (filters s)) d)"

definition SeccompState_is_active :: "SeccompState \<Rightarrow> bool" where
  "SeccompState_is_active s \<longleftrightarrow> strict_mode s \<or> filters s \<noteq> []"

definition SeccompState_fork :: "SeccompState \<Rightarrow> SeccompState" where
  "SeccompState_fork s = \<lparr>strict_mode = strict_mode s, filters = filters s\<rparr>"

text \<open>The global default policy is a cell; the two accessors write and read it.\<close>

definition set_default_policy :: "SeccompFilter \<Rightarrow> SeccompFilter option \<Rightarrow> SeccompFilter option" where
  "set_default_policy f policy = Some f"

definition default_policy :: "SeccompFilter option \<Rightarrow> SeccompFilter option" where
  "default_policy policy = policy"

section \<open>The interpreter runs each instruction at most once\<close>

text \<open>
  The same loop with an iteration budget: \<open>None\<close> means that the budget ran out before the filter
  decided.
\<close>

fun bpf_iterate :: "nat \<Rightarrow> BpfInsn list \<Rightarrow> u8 list \<Rightarrow> BpfState \<Rightarrow> u32 option" where
  "bpf_iterate n prog bytes s =
     (if length prog \<le> pc s then Some (action_code Kill)
      else case n of
        0 \<Rightarrow> None
      | Suc m \<Rightarrow> (case bpf_step bytes (prog ! pc s) s of
           Inl r \<Rightarrow> Some r
         | Inr s' \<Rightarrow> bpf_iterate m prog bytes s'))"

declare bpf_iterate.simps [simp del]

lemma bpf_iterate_loop:
  "length prog - pc s \<le> n \<Longrightarrow> bpf_iterate n prog bytes s = Some (bpf_loop prog bytes s)"
proof (induction n arbitrary: s)
  case 0
  then show ?case by (simp add: bpf_iterate.simps bpf_loop.simps [of prog bytes s])
next
  case (Suc n)
  show ?case
  proof (cases "bpf_step bytes (prog ! pc s) s")
    case (Inl r)
    then show ?thesis by (simp add: bpf_iterate.simps [of "Suc n"] bpf_loop.simps [of prog bytes s])
  next
    case (Inr s')
    with bpf_step_pc [OF Inr] Suc.prems have "length prog - pc s' \<le> n" by simp
    from Suc.IH [OF this] Inr show ?thesis
      by (simp add: bpf_iterate.simps [of "Suc n"] bpf_loop.simps [of prog bytes s])
  qed
qed

section \<open>The ready-made filters\<close>

lemma length_le_bytes [simp]: "length (le_bytes n w) = n"
  by (simp add: le_bytes_def)

lemma from_ne_bytes_le_bytes: "from_ne_bytes (le_bytes 4 w) = w" for w :: u32
proof (rule bit_word_eqI)
  fix n assume "n < LENGTH(32)"
  then consider "n < 8" | "8 \<le> n" "n < 16" | "16 \<le> n" "n < 24" | "24 \<le> n" "n < 32"
    by fastforce
  moreover have "[0..<4] = [0, 1, 2, 3 :: nat]" by (simp add: upt_rec)
  ultimately show "bit (from_ne_bytes (le_bytes 4 w)) n = bit w n"
    by cases (auto simp: le_bytes_def bit_simps)
qed

lemma load_nr: "bpf_load_abs (data_bytes d) 0 0 = nr d"
  by (simp add: bpf_load_abs_def data_bytes_def from_ne_bytes_le_bytes)

lemma evaluate_allow_all: "SeccompFilter_evaluate allow_all d = action_code Allow"
  by (simp add: SeccompFilter_evaluate_def allow_all_def bpf_loop.simps bpf_step_def bpf_init_def
      BPF_RET_def BPF_K_def)

lemma evaluate_block_syscall:
  "SeccompFilter_evaluate (block_syscall n err) d =
     (if nr d = n then SeccompAction_errno err else action_code Allow)"
  by (simp add: SeccompFilter_evaluate_def block_syscall_def bpf_loop.simps bpf_step_def bpf_init_def
      bpf_load_def bpf_jump_def bpf_src_def load_nr
      BPF_LD_def BPF_W_def BPF_ABS_def BPF_JMP_def BPF_JEQ_def BPF_RET_def BPF_K_def)

lemma block_syscall_denies: "SeccompAction_errno err \<noteq> action_code Allow"
proof -
  have "\<not> bit (SeccompAction_errno err) 30"
    using bit_imp_le_length [of err 30] by (auto simp: SeccompAction_errno_def bit_simps)
  moreover have "bit (action_code Allow) 30" by simp
  ultimately show ?thesis by metis
qed

section \<open>Composition of filters\<close>

lemma check_filters_Allow:
  "check_filters fs d = action_code Allow \<longleftrightarrow>
     list_all (\<lambda>f. SeccompFilter_evaluate f d = action_code Allow) fs"
  by (induction fs) (auto simp: Let_def)

lemma check_filters_eq:
  "check_filters fs d =
     (case filter (\<lambda>r. r \<noteq> action_code Allow) (map (\<lambda>f. SeccompFilter_evaluate f d) fs) of
        [] \<Rightarrow> action_code Allow | r # _ \<Rightarrow> r)"
  by (induction fs) (auto simp: Let_def)

text \<open>The two operations that a process can use to restrict itself further and to have children.\<close>

inductive seccomp_step :: "SeccompState \<Rightarrow> SeccompState \<Rightarrow> bool" where
  add: "add_filter s f = Inr s' \<Longrightarrow> seccomp_step s s'"
| fork: "seccomp_step s (SeccompState_fork s)"

lemma seccomp_step_restricts:
  "seccomp_step s s' \<Longrightarrow> check_syscall s' d = action_code Allow \<Longrightarrow> check_syscall s d = action_code Allow"
  by (induction rule: seccomp_step.induct)
    (auto simp: add_filter_def SeccompState_fork_def check_syscall_def check_filters_Allow Let_def
      split: if_splits)

section \<open>Properties\<close>

text \<open>
  C15. The interpreter always decides: an evaluation of a filter executes at most as many
  instructions as the program has, whatever the program is, and its result is the one of the loop.
\<close>

theorem evaluate_bounded:
  "bpf_iterate (length (program f)) (program f) (data_bytes d) bpf_init
     = Some (SeccompFilter_evaluate f d)"
  by (simp add: SeccompFilter_evaluate_def bpf_iterate_loop)

text \<open>
  C16. The filter built by \<open>block_syscall\<close> returns the errno action with the given error on exactly
  the given system call number and allows every other call.
\<close>

theorem block_syscall_blocks:
  "SeccompFilter_evaluate (block_syscall n err) d =
     (if nr d = n then SeccompAction_errno err else action_code Allow)
   \<and> SeccompAction_errno err \<noteq> action_code Allow"
  using evaluate_block_syscall block_syscall_denies by blast




text \<open>
  C18. Strict mode, once set, allows exactly read, write, sigreturn and exit, kills on every other
  call, and cannot be left or changed by the operations.
\<close>

theorem strict_mode_exact:
  assumes "set_strict s = Inr s'"
  shows "check_syscall s' d = (if nr d \<in> {0, 1, 15, 60} then action_code Allow else action_code Kill)
    \<and> set_strict s' = Inl AlreadyStrict \<and> add_filter s' f = Inl AlreadyStrict
    \<and> check_syscall (SeccompState_fork s') d = check_syscall s' d"
  using assms
  by (auto simp: set_strict_def add_filter_def check_syscall_def SeccompState_fork_def split: if_splits)

theorem strict_mode_exact_witness:
  "check_syscall (projr (set_strict SeccompState_new))
     \<lparr>nr = 59, arch = 0, instruction_pointer = 0, sd_args = replicate 6 0\<rparr> = action_code Kill"
  using strict_mode_exact [of SeccompState_new "SeccompState_new\<lparr>strict_mode := True\<rparr>"
      "\<lparr>nr = 59, arch = 0, instruction_pointer = 0, sd_args = replicate 6 0\<rparr>" allow_all]
  by (simp add: set_strict_def SeccompState_new_def)

section \<open>Where the decisions are not monotone\<close>

text \<open>
  Strict mode ignores the filters that were installed before it, so a call that a filter denies
  is allowed again once strict mode is set.
\<close>

lemma strict_mode_regrants_write:
  assumes "nr d = 1"
  shows "\<exists>s s'. check_syscall s d = SeccompAction_errno 1 \<and> set_strict s = Inr s'
    \<and> check_syscall s' d = action_code Allow"
proof (intro exI conjI)
  let ?s = "\<lparr>strict_mode = False, filters = [block_syscall 1 1]\<rparr>"
  show "check_syscall ?s d = SeccompAction_errno 1"
    using assms block_syscall_denies [of 1] by (simp add: check_syscall_def evaluate_block_syscall)
  show "set_strict ?s = Inr (?s\<lparr>strict_mode := True\<rparr>)" by (simp add: set_strict_def)
  show "check_syscall (?s\<lparr>strict_mode := True\<rparr>) d = action_code Allow"
    using assms by (simp add: check_syscall_def)
qed

text \<open>
  A newer filter that answers \<open>Log\<close>, the action that allows the call and logs it, hides the
  \<open>Kill\<close> of an older one.
\<close>

lemma newer_log_hides_older_kill:
  assumes "SeccompFilter_evaluate older d = action_code Kill"
    and "SeccompFilter_evaluate newer d = action_code Log"
  shows "check_syscall \<lparr>strict_mode = False, filters = [older]\<rparr> d = action_code Kill
    \<and> check_syscall \<lparr>strict_mode = False, filters = [older, newer]\<rparr> d = action_code Log"
  using assms by (simp add: check_syscall_def)

end
