(* ===== verification/Bitset.thy ===== *)
theory Bitset
  imports Prelude
begin

text \<open>
  The interface of the kernel's bit sets.  A set type has a universe of elements, an insertion and
  a removal that ignore elements outside of the universe, and a membership test; a shape predicate
  says which values the type has.  Signal sets, CPU sets and the priority bitmap of the real-time
  run queue implement it.
\<close>

locale bitset =
  fixes univ :: "'e set"
    and shape :: "'s \<Rightarrow> bool"
    and bmem :: "'s \<Rightarrow> 'e \<Rightarrow> bool"
    and bempty :: 's
    and bins bdel :: "'s \<Rightarrow> 'e \<Rightarrow> 's"
  assumes bmem_univ: "bmem s e \<Longrightarrow> e \<in> univ"
    and bmem_empty: "\<not> bmem bempty e"
    and bmem_bins: "shape s \<Longrightarrow> bmem (bins s e) e' \<longleftrightarrow> (e' = e \<and> e \<in> univ) \<or> bmem s e'"
    and bmem_bdel: "shape s \<Longrightarrow> bmem (bdel s e) e' \<longleftrightarrow> bmem s e' \<and> e' \<noteq> e"
    and shape_empty: "shape bempty"
    and shape_bins: "shape s \<Longrightarrow> shape (bins s e)"
    and shape_bdel: "shape s \<Longrightarrow> shape (bdel s e)"
begin

text \<open>Inserting or removing a list of elements.\<close>

lemma shape_fold_bins: "shape s \<Longrightarrow> shape (foldl bins s es)"
  by (induction es arbitrary: s) (auto simp: shape_bins)

lemma bmem_fold_bins: "shape s \<Longrightarrow> bmem (foldl bins s es) e \<longleftrightarrow> (e \<in> set es \<and> e \<in> univ) \<or> bmem s e"
  by (induction es arbitrary: s) (auto simp: bmem_bins shape_bins)

lemma bmem_fold_bdel: "shape s \<Longrightarrow> bmem (foldl bdel s es) e \<longleftrightarrow> bmem s e \<and> e \<notin> set es"
  by (induction es arbitrary: s) (auto simp: bmem_bdel shape_bdel)

lemma bmem_bdel_bins: "shape s \<Longrightarrow> bmem (bdel (bins s e) e) e' \<longleftrightarrow> bmem s e' \<and> e' \<noteq> e"
  by (auto simp: bmem_bins bmem_bdel shape_bins)

end

end
