(* ===== verification/Signal_Set.thy ===== *)
theory Signal_Set
  imports Bitset
begin

text \<open>
  Signal numbers and signal sets, \<open>kernel/signal/signal/src/signal.rs\<close> and \<open>sigset.rs\<close>.  A signal
  number is a Rust \<open>i32\<close>, an integer here; a set is a 64-bit mask in which bit \<open>n\<close> stands for
  signal \<open>n + 1\<close>.
\<close>

section \<open>Signal numbers\<close>

definition NSIG :: nat where "NSIG = 64"
definition SIGRTMIN :: int where "SIGRTMIN = 32"
definition SIGRTMAX :: int where "SIGRTMAX = 64"
definition SIGHUP :: int where "SIGHUP = 1"
definition SIGINT :: int where "SIGINT = 2"
definition SIGQUIT :: int where "SIGQUIT = 3"
definition SIGILL :: int where "SIGILL = 4"
definition SIGTRAP :: int where "SIGTRAP = 5"
definition SIGABRT :: int where "SIGABRT = 6"
definition SIGBUS :: int where "SIGBUS = 7"
definition SIGFPE :: int where "SIGFPE = 8"
definition SIGKILL :: int where "SIGKILL = 9"
definition SIGUSR1 :: int where "SIGUSR1 = 10"
definition SIGSEGV :: int where "SIGSEGV = 11"
definition SIGUSR2 :: int where "SIGUSR2 = 12"
definition SIGPIPE :: int where "SIGPIPE = 13"
definition SIGALRM :: int where "SIGALRM = 14"
definition SIGTERM :: int where "SIGTERM = 15"
definition SIGSTKFLT :: int where "SIGSTKFLT = 16"
definition SIGCHLD :: int where "SIGCHLD = 17"
definition SIGCONT :: int where "SIGCONT = 18"
definition SIGSTOP :: int where "SIGSTOP = 19"
definition SIGTSTP :: int where "SIGTSTP = 20"
definition SIGTTIN :: int where "SIGTTIN = 21"
definition SIGTTOU :: int where "SIGTTOU = 22"
definition SIGURG :: int where "SIGURG = 23"
definition SIGXCPU :: int where "SIGXCPU = 24"
definition SIGXFSZ :: int where "SIGXFSZ = 25"
definition SIGVTALRM :: int where "SIGVTALRM = 26"
definition SIGPROF :: int where "SIGPROF = 27"
definition SIGWINCH :: int where "SIGWINCH = 28"
definition SIGIO :: int where "SIGIO = 29"
definition SIGPWR :: int where "SIGPWR = 30"
definition SIGSYS :: int where "SIGSYS = 31"

lemmas signal_numbers = NSIG_def SIGRTMIN_def SIGRTMAX_def SIGHUP_def SIGINT_def SIGQUIT_def SIGILL_def
  SIGTRAP_def SIGABRT_def SIGBUS_def SIGFPE_def SIGKILL_def SIGUSR1_def SIGSEGV_def SIGUSR2_def
  SIGPIPE_def SIGALRM_def SIGTERM_def SIGSTKFLT_def SIGCHLD_def SIGCONT_def SIGSTOP_def SIGTSTP_def
  SIGTTIN_def SIGTTOU_def SIGURG_def SIGXCPU_def SIGXFSZ_def SIGVTALRM_def SIGPROF_def SIGWINCH_def
  SIGIO_def SIGPWR_def SIGSYS_def

datatype DefaultAction = ATerminate | ACoreDump | AIgnore | AStop | AContinue

definition default_action :: "int \<Rightarrow> DefaultAction" where
  "default_action sig =
     (if sig \<in> {SIGHUP, SIGINT, SIGPIPE, SIGALRM, SIGTERM, SIGUSR1, SIGUSR2, SIGPROF, SIGVTALRM,
                SIGSTKFLT, SIGIO, SIGPWR} then ATerminate
      else if sig \<in> {SIGQUIT, SIGILL, SIGTRAP, SIGABRT, SIGBUS, SIGFPE, SIGSEGV, SIGXCPU, SIGXFSZ, SIGSYS}
        then ACoreDump
      else if sig \<in> {SIGCHLD, SIGURG, SIGWINCH} then AIgnore
      else if sig \<in> {SIGSTOP, SIGTSTP, SIGTTIN, SIGTTOU} then AStop
      else if sig = SIGCONT then AContinue
      else if sig = SIGKILL then ATerminate
      else if SIGRTMIN \<le> sig \<and> sig \<le> SIGRTMAX then ATerminate
      else AIgnore)"

definition can_catch :: "int \<Rightarrow> bool" where
  "can_catch sig \<longleftrightarrow> sig \<noteq> SIGKILL \<and> sig \<noteq> SIGSTOP"

definition can_block :: "int \<Rightarrow> bool" where
  "can_block sig \<longleftrightarrow> sig \<noteq> SIGKILL \<and> sig \<noteq> SIGSTOP"

definition is_valid :: "int \<Rightarrow> bool" where
  "is_valid sig \<longleftrightarrow> 1 \<le> sig \<and> sig \<le> SIGRTMAX"

section \<open>Signal sets\<close>

record SigSet =
  sigbits :: u64

definition SigSet_empty :: SigSet where "SigSet_empty = \<lparr>sigbits = 0\<rparr>"
definition SigSet_full :: SigSet where "SigSet_full = \<lparr>sigbits = NOT 0\<rparr>"
definition SigSet_from_bits :: "u64 \<Rightarrow> SigSet" where "SigSet_from_bits b = \<lparr>sigbits = b\<rparr>"
definition SigSet_bits :: "SigSet \<Rightarrow> u64" where "SigSet_bits s = sigbits s"

definition in_range :: "int \<Rightarrow> bool" where
  "in_range sig \<longleftrightarrow> 1 \<le> sig \<and> sig \<le> int NSIG"

definition sig_bit :: "int \<Rightarrow> u64" where
  "sig_bit sig = push_bit (nat (sig - 1)) 1"

definition SigSet_add :: "SigSet \<Rightarrow> int \<Rightarrow> SigSet" where
  "SigSet_add s sig = (if in_range sig then s\<lparr>sigbits := sigbits s OR sig_bit sig\<rparr> else s)"

definition SigSet_remove :: "SigSet \<Rightarrow> int \<Rightarrow> SigSet" where
  "SigSet_remove s sig = (if in_range sig then s\<lparr>sigbits := sigbits s AND NOT (sig_bit sig)\<rparr> else s)"

definition SigSet_contains :: "SigSet \<Rightarrow> int \<Rightarrow> bool" where
  "SigSet_contains s sig \<longleftrightarrow> (if in_range sig then sigbits s AND sig_bit sig \<noteq> 0 else False)"

definition SigSet_is_empty :: "SigSet \<Rightarrow> bool" where
  "SigSet_is_empty s \<longleftrightarrow> sigbits s = 0"

definition SigSet_union :: "SigSet \<Rightarrow> SigSet \<Rightarrow> SigSet" where
  "SigSet_union s t = \<lparr>sigbits = sigbits s OR sigbits t\<rparr>"

definition SigSet_intersection :: "SigSet \<Rightarrow> SigSet \<Rightarrow> SigSet" where
  "SigSet_intersection s t = \<lparr>sigbits = sigbits s AND sigbits t\<rparr>"

definition SigSet_difference :: "SigSet \<Rightarrow> SigSet \<Rightarrow> SigSet" where
  "SigSet_difference s t = \<lparr>sigbits = sigbits s AND NOT (sigbits t)\<rparr>"

definition SigSet_clear :: "SigSet \<Rightarrow> SigSet" where "SigSet_clear s = s\<lparr>sigbits := 0\<rparr>"
definition SigSet_fill :: "SigSet \<Rightarrow> SigSet" where "SigSet_fill s = s\<lparr>sigbits := NOT 0\<rparr>"

definition SigSet_remove_unblockable :: "SigSet \<Rightarrow> SigSet" where
  "SigSet_remove_unblockable s = SigSet_remove (SigSet_remove s SIGKILL) SIGSTOP"

definition SigSet_first :: "SigSet \<Rightarrow> int option" where
  "SigSet_first s = (if sigbits s = 0 then None else Some (int (trailing_zeros (sigbits s)) + 1))"

record SigSetIter =
  it_bits :: u64
  it_current :: int

definition SigSet_iter :: "SigSet \<Rightarrow> SigSetIter" where
  "SigSet_iter s = \<lparr>it_bits = sigbits s, it_current = 0\<rparr>"

function SigSetIter_next :: "SigSetIter \<Rightarrow> int option \<times> SigSetIter" where
  "SigSetIter_next it =
     (if it_current it < int NSIG then
        (let it' = it\<lparr>it_current := it_current it + 1\<rparr> in
         if it_bits it' AND sig_bit (it_current it') \<noteq> 0 then (Some (it_current it'), it')
         else SigSetIter_next it')
      else (None, it))"
  by auto
termination
  by (relation "measure (\<lambda>it. nat (int NSIG - it_current it))") auto

declare SigSetIter_next.simps [simp del]

datatype SigHow = Block | Unblock | SetMask

definition SigHow_from_i32 :: "int \<Rightarrow> SigHow option" where
  "SigHow_from_i32 v =
     (if v = 0 then Some Block else if v = 1 then Some Unblock else if v = 2 then Some SetMask else None)"

section \<open>Membership\<close>

lemma in_range_iff: "in_range sig \<longleftrightarrow> 1 \<le> sig \<and> sig \<le> 64"
  by (simp add: in_range_def NSIG_def)

lemma bit_sig_bit: "bit (sig_bit sig) n \<longleftrightarrow> n < 64 \<and> n = nat (sig - 1)"
  by (auto simp: sig_bit_def bit_simps)

lemma and_sig_bit: "w AND sig_bit sig \<noteq> 0 \<longleftrightarrow> bit w (nat (sig - 1))" for w :: u64
proof
  assume "w AND sig_bit sig \<noteq> 0"
  then obtain i where "bit (w AND sig_bit sig) i" using word_nonzero_bit by blast
  then show "bit w (nat (sig - 1))" by (auto simp: bit_and_iff bit_sig_bit)
next
  assume b: "bit w (nat (sig - 1))"
  then have "nat (sig - 1) < 64" using bit_imp_le_length by force
  with b have "bit (w AND sig_bit sig) (nat (sig - 1))" by (simp add: bit_and_iff bit_sig_bit)
  then show "w AND sig_bit sig \<noteq> 0" by force
qed

lemma contains_iff: "SigSet_contains s sig \<longleftrightarrow> in_range sig \<and> bit (sigbits s) (nat (sig - 1))"
  by (simp add: SigSet_contains_def and_sig_bit)

lemma range_index_eq: "in_range sig \<Longrightarrow> in_range sig' \<Longrightarrow> nat (sig - 1) = nat (sig' - 1) \<longleftrightarrow> sig = sig'"
  by (auto simp: in_range_iff nat_eq_iff)

interpretation sigset: bitset "{sig. in_range sig}" "\<lambda>_. True" SigSet_contains SigSet_empty SigSet_add SigSet_remove
proof unfold_locales
  show "SigSet_contains (SigSet_add s e) e' \<longleftrightarrow> (e' = e \<and> e \<in> {sig. in_range sig}) \<or> SigSet_contains s e'" for s e e'
    using range_index_eq [of e e']
    by (auto simp: contains_iff SigSet_add_def bit_or_iff bit_sig_bit in_range_iff)
  show "SigSet_contains (SigSet_remove s e) e' \<longleftrightarrow> SigSet_contains s e' \<and> e' \<noteq> e" for s e e'
    using range_index_eq [of e e']
    by (auto simp: contains_iff SigSet_remove_def bit_and_iff bit_not_iff bit_sig_bit in_range_iff)
qed (auto simp: contains_iff SigSet_empty_def)

lemma contains_union: "SigSet_contains (SigSet_union s t) sig \<longleftrightarrow> SigSet_contains s sig \<or> SigSet_contains t sig"
  by (auto simp: contains_iff SigSet_union_def bit_or_iff)

lemma contains_intersection:
  "SigSet_contains (SigSet_intersection s t) sig \<longleftrightarrow> SigSet_contains s sig \<and> SigSet_contains t sig"
  by (auto simp: contains_iff SigSet_intersection_def bit_and_iff)

lemma contains_difference:
  "SigSet_contains (SigSet_difference s t) sig \<longleftrightarrow> SigSet_contains s sig \<and> \<not> SigSet_contains t sig"
  by (auto simp: contains_iff SigSet_difference_def bit_and_iff bit_not_iff in_range_iff)

lemma contains_full: "SigSet_contains SigSet_full sig \<longleftrightarrow> in_range sig"
  by (auto simp: contains_iff SigSet_full_def in_range_iff)

lemmas contains_simps [simp] = contains_union contains_intersection contains_difference contains_full
  sigset.bmem_empty sigset.bmem_bins sigset.bmem_bdel

lemma SigSet_eqI: "(\<And>sig. SigSet_contains s sig \<longleftrightarrow> SigSet_contains t sig) \<Longrightarrow> s = t"
proof (rule SigSet.equality)
  assume eq: "\<And>sig. SigSet_contains s sig \<longleftrightarrow> SigSet_contains t sig"
  show "sigbits s = sigbits t"
  proof (rule bit_word_eqI)
    fix n assume "n < LENGTH(64)"
    with eq [of "int n + 1"] show "bit (sigbits s) n = bit (sigbits t) n"
      by (simp add: contains_iff in_range_iff)
  qed
qed simp

lemma is_empty_iff: "SigSet_is_empty s \<longleftrightarrow> (\<forall>sig. \<not> SigSet_contains s sig)"
proof
  assume "\<forall>sig. \<not> SigSet_contains s sig"
  then have "s = SigSet_empty" by (intro SigSet_eqI) simp
  then show "SigSet_is_empty s" by (simp add: SigSet_is_empty_def SigSet_empty_def)
qed (simp add: SigSet_is_empty_def contains_iff)

section \<open>The first signal and the iteration\<close>

lemma first_eq_None: "SigSet_first s = None \<longleftrightarrow> SigSet_is_empty s"
  by (simp add: SigSet_first_def SigSet_is_empty_def)

lemma first_eq_Some:
  "SigSet_first s = Some sig \<longleftrightarrow> SigSet_contains s sig \<and> (\<forall>sig'. SigSet_contains s sig' \<longrightarrow> sig \<le> sig')"
proof
  assume "SigSet_first s = Some sig"
  then have nz: "sigbits s \<noteq> 0" and sig: "sig = int (trailing_zeros (sigbits s)) + 1"
    by (auto simp: SigSet_first_def split: if_splits)
  note tz = trailing_zeros_least [OF nz]
  have "sig \<le> sig'" if "SigSet_contains s sig'" for sig'
  proof (rule ccontr)
    assume "\<not> sig \<le> sig'"
    with that sig have "nat (sig' - 1) < trailing_zeros (sigbits s)" by (auto simp: contains_iff in_range_iff)
    with tz(3) that show False by (auto simp: contains_iff)
  qed
  with tz(1,2) sig show "SigSet_contains s sig \<and> (\<forall>sig'. SigSet_contains s sig' \<longrightarrow> sig \<le> sig')"
    by (auto simp: contains_iff in_range_iff)
next
  assume r: "SigSet_contains s sig \<and> (\<forall>sig'. SigSet_contains s sig' \<longrightarrow> sig \<le> sig')"
  then have nz: "sigbits s \<noteq> 0" by (auto simp: contains_iff)
  let ?m = "int (trailing_zeros (sigbits s)) + 1"
  have "SigSet_contains s ?m"
    using trailing_zeros_least(1,2) [OF nz] by (auto simp: contains_iff in_range_iff)
  moreover have "\<not> nat (sig - 1) < trailing_zeros (sigbits s)"
    using trailing_zeros_least(3) [OF nz, of "nat (sig - 1)"] r by (auto simp: contains_iff)
  then have "\<not> sig < ?m" using r by (simp add: contains_iff in_range_iff nat_less_iff)
  ultimately show "SigSet_first s = Some sig" using r nz by (force simp: SigSet_first_def)
qed

lemma iter_next_None:
  "SigSetIter_next it = (None, it') \<Longrightarrow> it_current it < sig \<Longrightarrow> sig \<le> 64 \<Longrightarrow> it_bits it AND sig_bit sig = 0"
proof (induction it rule: SigSetIter_next.induct)
  case (1 it)
  let ?it' = "it\<lparr>it_current := it_current it + 1\<rparr>"
  have more: "it_current it < int NSIG" using 1(3,4) by (simp add: NSIG_def)
  with 1(2) have b: "it_bits it AND sig_bit (it_current it + 1) = 0" "SigSetIter_next ?it' = (None, it')"
    by (auto simp: SigSetIter_next.simps [of it] Let_def split: if_splits)
  show ?case
  proof (cases "sig = it_current it + 1")
    case False
    with 1(3) have "it_current ?it' < sig" by simp
    from 1(1) [OF more refl _ b(2) this 1(4)] b(1) show ?thesis by simp
  qed (use b in simp)
qed

lemma iter_next_Some:
  "SigSetIter_next it = (Some sig, it') \<Longrightarrow> it_current it < sig \<and> sig \<le> 64 \<and> it_bits it AND sig_bit sig \<noteq> 0
     \<and> it' = it\<lparr>it_current := sig\<rparr> \<and> (\<forall>t. it_current it < t \<and> t < sig \<longrightarrow> it_bits it AND sig_bit t = 0)"
proof (induction it rule: SigSetIter_next.induct)
  case (1 it)
  let ?it' = "it\<lparr>it_current := it_current it + 1\<rparr>"
  have more: "it_current it < int NSIG"
    using 1(2) by (simp add: SigSetIter_next.simps [of it] Let_def split: if_splits)
  show ?case
  proof (cases "it_bits it AND sig_bit (it_current it + 1) = 0")
    case True
    with 1(2) more have "SigSetIter_next ?it' = (Some sig, it')"
      by (auto simp: SigSetIter_next.simps [of it] Let_def)
    with 1(1) [OF more refl] True have ih: "it_current it + 1 < sig" "sig \<le> 64" "it_bits it AND sig_bit sig \<noteq> 0"
      "it' = it\<lparr>it_current := sig\<rparr>" "\<And>t. it_current it + 1 < t \<Longrightarrow> t < sig \<Longrightarrow> it_bits it AND sig_bit t = 0"
      by simp_all
    have "it_bits it AND sig_bit t = 0" if "it_current it < t" "t < sig" for t
      using that ih(5) [of t] True by (cases "t = it_current it + 1") simp_all
    with ih(1-4) show ?thesis by simp
  next
    case False
    with 1(2) more show ?thesis
      by (auto simp: SigSetIter_next.simps [of it] Let_def NSIG_def)
  qed
qed

end
