(* ===== verification/Signal.thy ===== *)
theory Signal
  imports Signal_Set
begin

text \<open>
  Signal actions, pending signals and delivery: \<open>action.rs\<close>, \<open>pending.rs\<close> and \<open>delivery.rs\<close> of
  \<open>kernel/signal/signal/src\<close>.  \<open>i32\<close> fields are integers, \<open>u32\<close> and \<open>u64\<close> fields are words; padding
  and reserved fields, which are always zero, are left out.
\<close>

section \<open>Actions\<close>

datatype SigHandler = HDefault | HIgnore | Handler u64

definition SigHandler_from_raw :: "u64 \<Rightarrow> SigHandler" where
  "SigHandler_from_raw h = (if h = 0 then HDefault else if h = 1 then HIgnore else Handler h)"

primrec SigHandler_to_raw :: "SigHandler \<Rightarrow> u64" where
  "SigHandler_to_raw HDefault = 0"
| "SigHandler_to_raw HIgnore = 1"
| "SigHandler_to_raw (Handler addr) = addr"

primrec is_user_handler :: "SigHandler \<Rightarrow> bool" where
  "is_user_handler HDefault = False"
| "is_user_handler HIgnore = False"
| "is_user_handler (Handler addr) = True"

type_synonym SigFlags = u64

definition SA_NOCLDSTOP :: SigFlags where "SA_NOCLDSTOP = 0x00000001"
definition SA_NOCLDWAIT :: SigFlags where "SA_NOCLDWAIT = 0x00000002"
definition SA_SIGINFO :: SigFlags where "SA_SIGINFO = 0x00000004"
definition SA_ONSTACK :: SigFlags where "SA_ONSTACK = 0x08000000"
definition SA_RESTART :: SigFlags where "SA_RESTART = 0x10000000"
definition SA_NODEFER :: SigFlags where "SA_NODEFER = 0x40000000"
definition SA_RESETHAND :: SigFlags where "SA_RESETHAND = 0x80000000"
definition SA_RESTORER :: SigFlags where "SA_RESTORER = 0x04000000"

text \<open>\<open>from_bits_truncate\<close> and \<open>contains\<close> as the \<open>bitflags\<close> macro generates them.\<close>

definition SigFlags_truncate :: "u64 \<Rightarrow> SigFlags" where
  "SigFlags_truncate b = b AND (SA_NOCLDSTOP OR SA_NOCLDWAIT OR SA_SIGINFO OR SA_ONSTACK OR SA_RESTART
     OR SA_NODEFER OR SA_RESETHAND OR SA_RESTORER)"

definition SigFlags_contains :: "SigFlags \<Rightarrow> SigFlags \<Rightarrow> bool" where
  "SigFlags_contains fl other \<longleftrightarrow> fl AND other = other"

record SigAction =
  sa_handler :: u64
  sa_flags :: u64
  sa_restorer :: u64
  sa_mask :: SigSet

definition SigAction_new :: SigAction where
  "SigAction_new = \<lparr>sa_handler = 0, sa_flags = 0, sa_restorer = 0, sa_mask = SigSet_empty\<rparr>"

definition SigAction_handler :: "SigAction \<Rightarrow> SigHandler" where
  "SigAction_handler a = SigHandler_from_raw (sa_handler a)"

definition SigAction_set_handler :: "SigAction \<Rightarrow> SigHandler \<Rightarrow> SigAction" where
  "SigAction_set_handler a h = a\<lparr>sa_handler := SigHandler_to_raw h\<rparr>"

definition SigAction_flags :: "SigAction \<Rightarrow> SigFlags" where
  "SigAction_flags a = SigFlags_truncate (sa_flags a)"

definition SigAction_is_siginfo :: "SigAction \<Rightarrow> bool" where
  "SigAction_is_siginfo a \<longleftrightarrow> SigFlags_contains (SigAction_flags a) SA_SIGINFO"
definition SigAction_is_restart :: "SigAction \<Rightarrow> bool" where
  "SigAction_is_restart a \<longleftrightarrow> SigFlags_contains (SigAction_flags a) SA_RESTART"
definition SigAction_is_nodefer :: "SigAction \<Rightarrow> bool" where
  "SigAction_is_nodefer a \<longleftrightarrow> SigFlags_contains (SigAction_flags a) SA_NODEFER"
definition SigAction_is_resethand :: "SigAction \<Rightarrow> bool" where
  "SigAction_is_resethand a \<longleftrightarrow> SigFlags_contains (SigAction_flags a) SA_RESETHAND"
definition SigAction_is_onstack :: "SigAction \<Rightarrow> bool" where
  "SigAction_is_onstack a \<longleftrightarrow> SigFlags_contains (SigAction_flags a) SA_ONSTACK"

record SigInfo =
  si_signo :: int
  si_errno :: int
  si_code :: int
  si_pid :: u32
  si_uid :: u32
  si_status :: int
  si_utime :: u64
  si_stime :: u64
  si_value :: u64
  si_addr :: u64

definition SigInfo_default :: SigInfo where
  "SigInfo_default = \<lparr>si_signo = 0, si_errno = 0, si_code = 0, si_pid = 0, si_uid = 0, si_status = 0,
     si_utime = 0, si_stime = 0, si_value = 0, si_addr = 0\<rparr>"

definition SI_USER :: int where "SI_USER = 0"
definition CLD_EXITED :: int where "CLD_EXITED = 1"

definition SigInfo_new :: "int \<Rightarrow> SigInfo" where
  "SigInfo_new signo = SigInfo_default\<lparr>si_signo := signo\<rparr>"

definition SigInfo_kill :: "int \<Rightarrow> u32 \<Rightarrow> u32 \<Rightarrow> SigInfo" where
  "SigInfo_kill signo pid uid =
     SigInfo_default\<lparr>si_signo := signo, si_code := SI_USER, si_pid := pid, si_uid := uid\<rparr>"

definition SigInfo_child :: "int \<Rightarrow> u32 \<Rightarrow> u32 \<Rightarrow> int \<Rightarrow> SigInfo" where
  "SigInfo_child signo pid uid status =
     SigInfo_default\<lparr>si_signo := signo, si_code := CLD_EXITED, si_pid := pid, si_uid := uid,
       si_status := status\<rparr>"

definition SigInfo_fault :: "int \<Rightarrow> u64 \<Rightarrow> int \<Rightarrow> SigInfo" where
  "SigInfo_fault signo addr fcode =
     SigInfo_default\<lparr>si_signo := signo, si_code := fcode, si_addr := addr\<rparr>"

section \<open>Pending signals\<close>

record PendingSignal =
  signo :: int
  ps_info :: "SigInfo option"

definition PendingSignal_new :: "int \<Rightarrow> PendingSignal" where
  "PendingSignal_new n = \<lparr>signo = n, ps_info = None\<rparr>"

definition PendingSignal_with_info :: "int \<Rightarrow> SigInfo \<Rightarrow> PendingSignal" where
  "PendingSignal_with_info n i = \<lparr>signo = n, ps_info = Some i\<rparr>"

record PendingSignals =
  pending :: SigSet
  infos :: "SigInfo option list"

definition PendingSignals_new :: PendingSignals where
  "PendingSignals_new = \<lparr>pending = SigSet_empty, infos = replicate NSIG None\<rparr>"

definition PendingSignals_add :: "PendingSignals \<Rightarrow> int \<Rightarrow> SigInfo option \<Rightarrow> PendingSignals" where
  "PendingSignals_add p sig i =
     (if in_range sig
      then p\<lparr>pending := SigSet_add (pending p) sig, infos := (infos p)[nat (sig - 1) := i]\<rparr>
      else p)"

definition PendingSignals_remove :: "PendingSignals \<Rightarrow> int \<Rightarrow> SigInfo option \<times> PendingSignals" where
  "PendingSignals_remove p sig =
     (if in_range sig
      then (infos p ! nat (sig - 1),
            p\<lparr>pending := SigSet_remove (pending p) sig, infos := (infos p)[nat (sig - 1) := None]\<rparr>)
      else (None, p))"

definition is_pending :: "PendingSignals \<Rightarrow> int \<Rightarrow> bool" where
  "is_pending p sig = SigSet_contains (pending p) sig"

definition PendingSignals_set :: "PendingSignals \<Rightarrow> SigSet" where
  "PendingSignals_set p = pending p"

definition deliverable :: "PendingSignals \<Rightarrow> SigSet \<Rightarrow> SigSet" where
  "deliverable p blocked = SigSet_difference (pending p) blocked"

definition next_deliverable :: "PendingSignals \<Rightarrow> SigSet \<Rightarrow> int option" where
  "next_deliverable p blocked = SigSet_first (deliverable p blocked)"

definition dequeue :: "PendingSignals \<Rightarrow> SigSet \<Rightarrow> PendingSignal option \<times> PendingSignals" where
  "dequeue p blocked =
     (case next_deliverable p blocked of
        Some sig \<Rightarrow> (let (i, p') = PendingSignals_remove p sig in (Some \<lparr>signo = sig, ps_info = i\<rparr>, p'))
      | None \<Rightarrow> (None, p))"

definition PendingSignals_clear :: "PendingSignals \<Rightarrow> PendingSignals" where
  "PendingSignals_clear p = p\<lparr>pending := SigSet_clear (pending p), infos := map (\<lambda>_. None) (infos p)\<rparr>"

definition PendingSignals_is_empty :: "PendingSignals \<Rightarrow> bool" where
  "PendingSignals_is_empty p = SigSet_is_empty (pending p)"

definition has_deliverable :: "PendingSignals \<Rightarrow> SigSet \<Rightarrow> bool" where
  "has_deliverable p blocked \<longleftrightarrow> \<not> SigSet_is_empty (deliverable p blocked)"

definition get_info :: "PendingSignals \<Rightarrow> int \<Rightarrow> SigInfo option" where
  "get_info p sig = (if in_range sig then infos p ! nat (sig - 1) else None)"

section \<open>Delivery\<close>

datatype SignalResult = RNone | Terminate | CoreDump | Stop | Continue | Ignore
  | UserHandler u64 int "SigInfo option" SigFlags SigSet

definition determine_action :: "PendingSignal \<Rightarrow> SigAction \<Rightarrow> SigSet \<Rightarrow> SignalResult" where
  "determine_action s action current_mask =
     (let sig = signo s in
      if sig = SIGKILL then Terminate
      else if sig = SIGSTOP then Stop
      else case SigAction_handler action of
          HIgnore \<Rightarrow> Ignore
        | HDefault \<Rightarrow> (case default_action sig of
              ATerminate \<Rightarrow> Terminate | ACoreDump \<Rightarrow> CoreDump | AIgnore \<Rightarrow> Ignore
            | AStop \<Rightarrow> Stop | AContinue \<Rightarrow> Continue)
        | Handler addr \<Rightarrow>
            (let flags = SigAction_flags action;
                 handler_mask = SigSet_union current_mask (sa_mask action);
                 handler_mask = (if \<not> SigFlags_contains flags SA_NODEFER
                                 then SigSet_add handler_mask sig else handler_mask) in
             UserHandler addr sig (ps_info s) flags handler_mask))"

record SavedRegisters =
  rax :: u64 rbx :: u64 rcx :: u64 rdx :: u64 rsi :: u64 rdi :: u64 rbp :: u64
  r8 :: u64 r9 :: u64 r10 :: u64 r11 :: u64 r12 :: u64 r13 :: u64 r14 :: u64 r15 :: u64

record SignalFrame =
  retaddr :: u64
  f_signo :: int
  f_info :: SigInfo
  saved_mask :: SigSet
  saved_rip :: u64
  saved_rsp :: u64
  saved_rflags :: u64
  saved_rax :: u64 saved_rbx :: u64 saved_rcx :: u64 saved_rdx :: u64 saved_rsi :: u64
  saved_rdi :: u64 saved_rbp :: u64 saved_r8 :: u64 saved_r9 :: u64 saved_r10 :: u64
  saved_r11 :: u64 saved_r12 :: u64 saved_r13 :: u64 saved_r14 :: u64 saved_r15 :: u64

text \<open>
  The size of the \<open>repr(C)\<close> frame: the return address, the signal number with its padding, the
  96 bytes of the signal info, the mask, and eighteen 64-bit registers.
\<close>

definition frame_size :: u64 where
  "frame_size = 8 + 8 + 96 + 8 + 18 * 8"

definition setup_signal_handler ::
  "u64 \<Rightarrow> int \<Rightarrow> SigInfo option \<Rightarrow> SigFlags \<Rightarrow> u64 \<Rightarrow> SigSet \<Rightarrow> u64 \<Rightarrow> u64 \<Rightarrow> u64 \<Rightarrow> SavedRegisters
     \<Rightarrow> u64 \<times> u64 \<times> SignalFrame" where
  "setup_signal_handler handler sig info flags restorer smask current_rip current_rsp current_rflags regs =
     (let frame = \<lparr>retaddr = restorer, f_signo = sig,
            f_info = (case info of Some i \<Rightarrow> i | None \<Rightarrow> SigInfo_default),
            saved_mask = smask, saved_rip = current_rip, saved_rsp = current_rsp,
            saved_rflags = current_rflags,
            saved_rax = rax regs, saved_rbx = rbx regs, saved_rcx = rcx regs, saved_rdx = rdx regs,
            saved_rsi = rsi regs, saved_rdi = rdi regs, saved_rbp = rbp regs, saved_r8 = r8 regs,
            saved_r9 = r9 regs, saved_r10 = r10 regs, saved_r11 = r11 regs, saved_r12 = r12 regs,
            saved_r13 = r13 regs, saved_r14 = r14 regs, saved_r15 = r15 regs\<rparr>;
          new_rsp = ((current_rsp - frame_size) AND NOT 0xF) - 8;
          new_rip = handler in
      (new_rip, new_rsp, frame))"

definition restore_from_frame :: "SignalFrame \<Rightarrow> u64 \<times> u64 \<times> u64 \<times> SigSet \<times> SavedRegisters" where
  "restore_from_frame f =
     (let regs = \<lparr>rax = saved_rax f, rbx = saved_rbx f, rcx = saved_rcx f, rdx = saved_rdx f,
            rsi = saved_rsi f, rdi = saved_rdi f, rbp = saved_rbp f, r8 = saved_r8 f, r9 = saved_r9 f,
            r10 = saved_r10 f, r11 = saved_r11 f, r12 = saved_r12 f, r13 = saved_r13 f,
            r14 = saved_r14 f, r15 = saved_r15 f\<rparr> in
      (saved_rip f, saved_rsp f, saved_rflags f, saved_mask f, regs))"

text \<open>The loop of \<open>should_interrupt_for_signal\<close> over the iterator of the deliverable set.\<close>

function interrupt_loop :: "SigSetIter \<Rightarrow> SigAction list \<Rightarrow> bool" where
  "interrupt_loop it sigactions =
     (case SigSetIter_next it of
        (None, it') \<Rightarrow> False
      | (Some sig, it') \<Rightarrow>
          if in_range sig then
            (let action = sigactions ! nat (sig - 1) in
             if sig = SIGKILL \<or> sig = SIGSTOP then True
             else if SigAction_handler action = HIgnore then interrupt_loop it' sigactions
             else if SigAction_handler action = HDefault \<and> default_action sig = AIgnore
             then interrupt_loop it' sigactions
             else True)
          else interrupt_loop it' sigactions)"
  by auto
termination
  by (relation "measure (\<lambda>(it, sigactions). nat (64 - it_current it))")
    (auto dest!: iter_next_Some [OF sym])

declare interrupt_loop.simps [simp del]

definition should_interrupt_for_signal :: "SigSet \<Rightarrow> SigSet \<Rightarrow> SigAction list \<Rightarrow> bool" where
  "should_interrupt_for_signal pend blocked sigactions =
     interrupt_loop (SigSet_iter (SigSet_difference pend blocked)) sigactions"

text \<open>The slot for a deferred sigreturn.\<close>

definition set_sigreturn_frame :: "SignalFrame \<Rightarrow> SignalFrame option \<Rightarrow> SignalFrame option" where
  "set_sigreturn_frame f slot = Some f"

definition take_sigreturn_frame :: "SignalFrame option \<Rightarrow> SignalFrame option \<times> SignalFrame option" where
  "take_sigreturn_frame slot = (slot, None)"

section \<open>The pending set and its infos\<close>

definition pending_inv :: "PendingSignals \<Rightarrow> bool" where
  "pending_inv p \<longleftrightarrow> length (infos p) = NSIG \<and>
     (\<forall>i < NSIG. infos p ! i \<noteq> None \<longrightarrow> is_pending p (int i + 1))"

lemma pending_inv_new: "pending_inv PendingSignals_new"
  by (simp add: pending_inv_def PendingSignals_new_def)

lemma pending_inv_add: "pending_inv p \<Longrightarrow> pending_inv (PendingSignals_add p sig i)"
  by (auto simp: pending_inv_def PendingSignals_add_def is_pending_def nth_list_update in_range_iff NSIG_def
      split: if_splits)

lemma pending_inv_remove: "pending_inv p \<Longrightarrow> pending_inv (snd (PendingSignals_remove p sig))"
  by (auto simp: pending_inv_def PendingSignals_remove_def is_pending_def nth_list_update in_range_iff
      NSIG_def split: if_splits)

lemma pending_inv_clear: "pending_inv p \<Longrightarrow> pending_inv (PendingSignals_clear p)"
  by (auto simp: pending_inv_def PendingSignals_clear_def)

lemma pending_inv_dequeue: "pending_inv p \<Longrightarrow> pending_inv (snd (dequeue p blocked))"
  using pending_inv_remove [of p] by (simp add: dequeue_def split_beta split: option.split)

lemma next_deliverable_Some:
  "next_deliverable p blocked = Some sig \<longleftrightarrow>
     is_pending p sig \<and> \<not> SigSet_contains blocked sig
     \<and> (\<forall>t. is_pending p t \<and> \<not> SigSet_contains blocked t \<longrightarrow> sig \<le> t)"
  by (auto simp: next_deliverable_def first_eq_Some deliverable_def is_pending_def)

lemma next_deliverable_None:
  "next_deliverable p blocked = None \<longleftrightarrow> (\<forall>t. is_pending p t \<longrightarrow> SigSet_contains blocked t)"
  by (auto simp: next_deliverable_def first_eq_None is_empty_iff deliverable_def is_pending_def)

lemma is_pending_range: "is_pending p sig \<Longrightarrow> in_range sig"
  by (simp add: is_pending_def contains_iff)

lemma dequeue_Some:
  assumes "next_deliverable p blocked = Some sig"
  shows "fst (dequeue p blocked) = Some \<lparr>signo = sig, ps_info = get_info p sig\<rparr>"
    and "is_pending (snd (dequeue p blocked)) t \<longleftrightarrow> is_pending p t \<and> t \<noteq> sig"
    and "length (infos p) = NSIG \<Longrightarrow>
      get_info (snd (dequeue p blocked)) t = (if t = sig then None else get_info p t)"
proof -
  have "is_pending p sig" using assms by (simp add: next_deliverable_Some)
  then have r: "in_range sig" by (rule is_pending_range)
  show "fst (dequeue p blocked) = Some \<lparr>signo = sig, ps_info = get_info p sig\<rparr>"
    using assms r by (simp add: dequeue_def PendingSignals_remove_def get_info_def)
  show "is_pending (snd (dequeue p blocked)) t \<longleftrightarrow> is_pending p t \<and> t \<noteq> sig"
    using assms r by (simp add: dequeue_def PendingSignals_remove_def is_pending_def)
  show "get_info (snd (dequeue p blocked)) t = (if t = sig then None else get_info p t)"
    if "length (infos p) = NSIG"
    using assms r that
    by (auto simp: dequeue_def PendingSignals_remove_def get_info_def nth_list_update in_range_iff NSIG_def)
qed

text \<open>The signals that repeated dequeueing hands out, in order.\<close>

fun drain :: "nat \<Rightarrow> PendingSignals \<Rightarrow> SigSet \<Rightarrow> int list" where
  "drain 0 p blocked = []"
| "drain (Suc n) p blocked =
     (case dequeue p blocked of
        (None, _) \<Rightarrow> []
      | (Some ps, p') \<Rightarrow> signo ps # drain n p' blocked)"

definition deliverable_signals :: "PendingSignals \<Rightarrow> SigSet \<Rightarrow> int set" where
  "deliverable_signals p blocked = {sig. is_pending p sig \<and> \<not> SigSet_contains blocked sig}"

lemma deliverable_signals_range: "deliverable_signals p blocked \<subseteq> {1..64}"
  by (auto simp: deliverable_signals_def in_range_iff dest: is_pending_range)

lemma finite_deliverable_signals: "finite (deliverable_signals p blocked)"
  by (rule finite_subset [OF deliverable_signals_range]) simp

lemma drain_sorted:
  "card (deliverable_signals p blocked) \<le> n \<Longrightarrow>
   drain n p blocked = sorted_list_of_set (deliverable_signals p blocked)"
proof (induction n arbitrary: p)
  case 0
  then show ?case using finite_deliverable_signals by simp
next
  case (Suc n)
  let ?D = "deliverable_signals p blocked"
  show ?case
  proof (cases "next_deliverable p blocked")
    case None
    then have "?D = {}" by (auto simp: next_deliverable_None deliverable_signals_def)
    with None show ?thesis by (simp add: dequeue_def)
  next
    case (Some sig)
    define p' where "p' = snd (dequeue p blocked)"
    have dq: "dequeue p blocked = (Some \<lparr>signo = sig, ps_info = get_info p sig\<rparr>, p')"
      using dequeue_Some(1) [OF Some] by (simp add: p'_def prod_eq_iff)
    have D': "deliverable_signals p' blocked = ?D - {sig}"
      using dequeue_Some(2) [OF Some] by (auto simp: deliverable_signals_def p'_def)
    have sig: "sig \<in> ?D" "\<And>t. t \<in> ?D \<Longrightarrow> sig \<le> t"
      using Some by (auto simp: next_deliverable_Some deliverable_signals_def)
    then have Min: "Min ?D = sig" using finite_deliverable_signals by (intro Min_eqI) auto
    have "card (deliverable_signals p' blocked) \<le> n"
      using Suc.prems sig(1) finite_deliverable_signals [of p blocked] by (simp add: D' card_Diff_singleton)
    from Suc.IH [OF this] have "drain (Suc n) p blocked = sig # sorted_list_of_set (?D - {Min ?D})"
      by (simp add: dq D' Min)
    moreover have "?D \<noteq> {}" using sig(1) by blast
    ultimately show ?thesis
      using sorted_list_of_set_nonempty [OF finite_deliverable_signals] Min by simp
  qed
qed

section \<open>Interruption\<close>

text \<open>What is left of an iteration contains a signal with a given property.\<close>

definition remains :: "SigSetIter \<Rightarrow> (int \<Rightarrow> bool) \<Rightarrow> bool" where
  "remains it P \<longleftrightarrow> (\<exists>sig. it_current it < sig \<and> sig \<le> 64 \<and> it_bits it AND sig_bit sig \<noteq> 0 \<and> P sig)"

lemma remains_None: "SigSetIter_next it = (None, it') \<Longrightarrow> \<not> remains it P"
  using iter_next_None by (auto simp: remains_def)

lemma remains_Some:
  assumes "SigSetIter_next it = (Some sig, it')"
  shows "remains it P \<longleftrightarrow> P sig \<or> remains it' P"
proof -
  have s: "it_current it < sig" "sig \<le> 64" "it_bits it AND sig_bit sig \<noteq> 0" "it' = it\<lparr>it_current := sig\<rparr>"
    and between: "\<And>t. it_current it < t \<Longrightarrow> t < sig \<Longrightarrow> it_bits it AND sig_bit t = 0"
    using iter_next_Some [OF assms] by blast+
  show ?thesis
  proof
    assume "remains it P"
    then obtain t where t: "it_current it < t" "t \<le> 64" "it_bits it AND sig_bit t \<noteq> 0" "P t"
      unfolding remains_def by blast
    then have "t = sig \<or> sig < t" using between [of t] by force
    with t s(4) show "P sig \<or> remains it' P" unfolding remains_def by (metis SigSetIter.select_convs(1,2)
      SigSetIter.surjective SigSetIter.update_convs(2))
  next
    assume "P sig \<or> remains it' P"
    then show "remains it P"
    proof
      assume "P sig"
      with s show ?thesis unfolding remains_def by blast
    next
      assume "remains it' P"
      then obtain t where "it_current it' < t" "t \<le> 64" "it_bits it' AND sig_bit t \<noteq> 0" "P t"
        unfolding remains_def by blast
      with s(1,4) show ?thesis unfolding remains_def by (intro exI [of _ t]) simp
    qed
  qed
qed

definition interrupts :: "SigAction list \<Rightarrow> int \<Rightarrow> bool" where
  "interrupts sigactions sig \<longleftrightarrow>
     determine_action (PendingSignal_new sig) (sigactions ! nat (sig - 1)) SigSet_empty \<noteq> Ignore"

lemma interrupts_iff:
  "interrupts sigactions sig \<longleftrightarrow> sig = SIGKILL \<or> sig = SIGSTOP
     \<or> \<not> (SigAction_handler (sigactions ! nat (sig - 1)) = HIgnore
          \<or> SigAction_handler (sigactions ! nat (sig - 1)) = HDefault \<and> default_action sig = AIgnore)"
  by (simp add: interrupts_def determine_action_def PendingSignal_new_def Let_def
      split: SigHandler.split DefaultAction.split)

lemma interrupt_loop_iff:
  "0 \<le> it_current it \<Longrightarrow> interrupt_loop it sigactions \<longleftrightarrow> remains it (interrupts sigactions)"
proof (induction it sigactions rule: interrupt_loop.induct)
  case (1 it sigactions)
  obtain r it' where nx: "SigSetIter_next it = (r, it')" by fastforce
  show ?case
  proof (cases r)
    case None
    with nx remains_None [of it it'] show ?thesis by (simp add: interrupt_loop.simps [of it])
  next
    case (Some sig)
    note nx' = nx [unfolded Some]
    have s: "it_current it < sig" "sig \<le> 64" "it' = it\<lparr>it_current := sig\<rparr>"
      using iter_next_Some [OF nx'] by blast+
    have range: "in_range sig" and cur: "0 \<le> it_current it'"
      using s 1(4) by (simp_all add: in_range_iff)
    have step: "interrupt_loop it sigactions \<longleftrightarrow> interrupts sigactions sig \<or> interrupt_loop it' sigactions"
      using nx' range by (simp add: interrupt_loop.simps [of it] Let_def interrupts_iff)
    have "interrupt_loop it' sigactions \<longleftrightarrow> remains it' (interrupts sigactions)" if "\<not> interrupts sigactions sig"
      using 1(1) [OF nx [symmetric] Some range refl _ _ cur] 1(2) [OF nx [symmetric] Some range refl _ _ _ cur]
        that [unfolded interrupts_iff] by blast
    then show ?thesis unfolding step remains_Some [OF nx'] by blast
  qed
qed

section \<open>The signal frame\<close>

lemma frame_rsp:
  assumes "280 \<le> unat rsp"
  shows "unat (((rsp - frame_size) AND NOT 0xF) - 8) = unat rsp - 264 - (unat rsp - 264) mod 16 - 8"
proof -
  have fs: "frame_size = 264" by (simp add: frame_size_def)
  have "unat (rsp - frame_size) = unat rsp - 264"
    using assms by (simp add: fs unat_sub word_le_nat_alt)
  moreover have "(0xF :: u64) = mask 4" by (simp add: mask_eq_exp_minus_1)
  ultimately have f: "unat ((rsp - frame_size) AND NOT 0xF) = unat rsp - 264 - (unat rsp - 264) mod 16"
    using unat_and_not_mask [of "rsp - frame_size" 4] by simp
  have "16 \<le> unat rsp - 264" using assms by simp
  then have "16 \<le> unat rsp - 264 - (unat rsp - 264) mod 16"
    by (intro round_down_ge) simp_all
  with f show ?thesis by (simp add: unat_sub word_le_nat_alt)
qed

section \<open>Properties\<close>

text \<open>
  C19. Dequeueing hands out the lowest-numbered pending signal that is not blocked, with the info
  stored for it, and makes exactly that signal not pending; it returns nothing, and changes
  nothing, exactly when every pending signal is blocked.
\<close>

theorem dequeue_lowest_deliverable:
  assumes "pending_inv p"
  shows "case dequeue p blocked of
      (None, p') \<Rightarrow> p' = p \<and> (\<forall>t. is_pending p t \<longrightarrow> SigSet_contains blocked t)
    | (Some ps, p') \<Rightarrow>
        is_pending p (signo ps) \<and> \<not> SigSet_contains blocked (signo ps)
        \<and> (\<forall>t. is_pending p t \<and> \<not> SigSet_contains blocked t \<longrightarrow> signo ps \<le> t)
        \<and> ps_info ps = get_info p (signo ps) \<and> pending_inv p'
        \<and> (\<forall>t. is_pending p' t \<longleftrightarrow> is_pending p t \<and> t \<noteq> signo ps)
        \<and> (\<forall>t. t \<noteq> signo ps \<longrightarrow> get_info p' t = get_info p t)"
proof (cases "next_deliverable p blocked")
  case None
  then show ?thesis using next_deliverable_None [of p blocked] by (simp add: dequeue_def)
next
  case (Some sig)
  obtain r p' where dq: "dequeue p blocked = (r, p')" by fastforce
  have len: "length (infos p) = NSIG" using assms by (simp add: pending_inv_def)
  have r: "r = Some \<lparr>signo = sig, ps_info = get_info p sig\<rparr>"
    and pend: "\<And>t. is_pending p' t \<longleftrightarrow> is_pending p t \<and> t \<noteq> sig"
    and info: "\<And>t. get_info p' t = (if t = sig then None else get_info p t)"
    using dequeue_Some(1,2) [OF Some] dequeue_Some(3) [OF Some len] by (simp_all add: dq)
  have "pending_inv p'" using pending_inv_dequeue [OF assms, of blocked] by (simp add: dq)
  with Some [unfolded next_deliverable_Some] show ?thesis by (simp add: dq r pend info)
qed

theorem dequeue_lowest_deliverable_witness:
  "fst (dequeue (PendingSignals_add (PendingSignals_add PendingSignals_new SIGTERM None) SIGINT None)
     (SigSet_add SigSet_empty SIGINT)) = Some \<lparr>signo = 15, ps_info = None\<rparr>"
proof -
  let ?p = "PendingSignals_add (PendingSignals_add PendingSignals_new SIGTERM None) SIGINT None"
  let ?b = "SigSet_add SigSet_empty SIGINT"
  have inv: "pending_inv ?p" by (intro pending_inv_add pending_inv_new)
  have pend: "is_pending ?p t \<longleftrightarrow> t = 15 \<or> t = 2" and blk: "SigSet_contains ?b t \<longleftrightarrow> t = 2" for t
    by (auto simp: is_pending_def PendingSignals_add_def PendingSignals_new_def in_range_iff
        SIGINT_def SIGTERM_def)
  have info: "get_info ?p 15 = None" by code_simp
  obtain r p' where dq: "dequeue ?p ?b = (r, p')" by fastforce
  note spec = dequeue_lowest_deliverable [OF inv, of ?b, unfolded dq prod.case pend blk]
  from spec obtain ps where ps: "r = Some ps" by (cases r) auto
  with spec have "signo ps = 15" "ps_info ps = get_info ?p (signo ps)" by auto
  with ps info dq show ?thesis by simp
qed

text \<open>
  C20. Repeated dequeueing, with an unchanged mask, delivers every deliverable signal once, in
  increasing order; sixty-four rounds are enough.
\<close>

theorem drain_delivers_all:
  "drain NSIG p blocked = sorted_list_of_set (deliverable_signals p blocked)"
proof (rule drain_sorted)
  have "card (deliverable_signals p blocked) \<le> card {1..64 :: int}"
    by (rule card_mono [OF _ deliverable_signals_range]) simp
  then show "card (deliverable_signals p blocked) \<le> NSIG" by (simp add: NSIG_def)
qed



text \<open>
  C21. A blocked process is interrupted exactly when some pending, unblocked signal has an action
  other than being ignored: the fast test agrees with the delivery decision.
\<close>

theorem should_interrupt_iff_acts:
  "should_interrupt_for_signal pend blocked sigactions \<longleftrightarrow>
     (\<exists>sig. SigSet_contains pend sig \<and> \<not> SigSet_contains blocked sig \<and>
        determine_action (PendingSignal_new sig) (sigactions ! nat (sig - 1)) SigSet_empty \<noteq> Ignore)"
proof -
  let ?d = "SigSet_difference pend blocked"
  have "should_interrupt_for_signal pend blocked sigactions \<longleftrightarrow> remains (SigSet_iter ?d) (interrupts sigactions)"
    by (simp add: should_interrupt_for_signal_def interrupt_loop_iff SigSet_iter_def)
  also have "\<dots> \<longleftrightarrow> (\<exists>sig. SigSet_contains ?d sig \<and> interrupts sigactions sig)"
    unfolding remains_def SigSet_iter_def SigSet_contains_def in_range_iff
    by (auto simp: int_one_le_iff_zero_less)
  finally show ?thesis by (simp add: interrupts_def)
qed

text \<open>
  C23. Setting up a handler and restoring from the frame is a round trip of the whole context, the
  handler is entered with the stack alignment of the ABI, and the frame lies entirely below the
  interrupted stack pointer.
\<close>

theorem signal_frame_round_trip:
  assumes "setup_signal_handler h sig info fl restorer m rip rsp rflags regs = (new_rip, new_rsp, frame)"
    and "280 \<le> unat rsp"
  shows "restore_from_frame frame = (rip, rsp, rflags, m, regs)
    \<and> new_rip = h \<and> retaddr frame = restorer \<and> f_signo frame = sig
    \<and> (unat new_rsp + 8) mod 16 = 0 \<and> unat new_rsp + unat frame_size + 8 \<le> unat rsp"
proof -
  have ctx: "restore_from_frame frame = (rip, rsp, rflags, m, regs)" "new_rip = h"
    "retaddr frame = restorer" "f_signo frame = sig"
    and "new_rsp = ((rsp - frame_size) AND NOT 0xF) - 8"
    using assms(1) by (auto simp: setup_signal_handler_def restore_from_frame_def Let_def)
  then have r: "unat new_rsp = unat rsp - 264 - (unat rsp - 264) mod 16 - 8"
    using frame_rsp [OF assms(2)] by simp
  have "16 \<le> unat rsp - 264 - (unat rsp - 264) mod 16"
    using assms(2) by (intro round_down_ge) simp_all
  then have sum: "unat new_rsp + 8 = unat rsp - 264 - (unat rsp - 264) mod 16" using r by linarith
  have "(unat new_rsp + 8) mod 16 = 0" unfolding sum by (simp only: dvd_minus_mod flip: dvd_eq_mod_eq_0)
  moreover have "unat new_rsp + 264 + 8 \<le> unat rsp" using sum assms(2) by linarith
  moreover have "unat frame_size = 264" by (simp add: frame_size_def)
  ultimately show ?thesis using ctx by simp
qed

theorem signal_frame_round_trip_witness:
  "\<exists>new_rip new_rsp frame.
     setup_signal_handler 0x401000 10 None 0 0x402000 SigSet_empty 0x400123 0x7FFFFFFEFFF8 0x202
       \<lparr>rax = 1, rbx = 2, rcx = 3, rdx = 4, rsi = 5, rdi = 6, rbp = 7, r8 = 8, r9 = 9, r10 = 10,
        r11 = 11, r12 = 12, r13 = 13, r14 = 14, r15 = 15\<rparr> = (new_rip, new_rsp, frame)
     \<and> saved_rip frame = 0x400123 \<and> (unat new_rsp + 8) mod 16 = 0"
proof -
  let ?regs = "\<lparr>rax = 1, rbx = 2, rcx = 3, rdx = 4, rsi = 5, rdi = 6, rbp = 7, r8 = 8, r9 = 9, r10 = 10,
        r11 = 11, r12 = 12, r13 = 13, r14 = 14, r15 = 15 :: u64\<rparr>"
  obtain new_rip new_rsp frame where s:
    "setup_signal_handler 0x401000 10 None 0 0x402000 SigSet_empty 0x400123 0x7FFFFFFEFFF8 0x202 ?regs
       = (new_rip, new_rsp, frame)" by (metis prod_cases3)
  have "280 \<le> unat (0x7FFFFFFEFFF8 :: u64)" by simp
  from signal_frame_round_trip [OF s this] have "restore_from_frame frame
      = (0x400123, 0x7FFFFFFEFFF8, 0x202, SigSet_empty, ?regs)" "(unat new_rsp + 8) mod 16 = 0" by blast+
  with s show ?thesis by (intro exI conjI) (auto simp: restore_from_frame_def Let_def)
qed

text \<open>
  The frame ends less than 128 bytes below the interrupted stack pointer, so it overlaps the red
  zone, the 128 bytes below the stack pointer that the user ABI lets a leaf function use.
\<close>

lemma frame_in_red_zone:
  assumes "280 \<le> unat rsp"
  shows "unat rsp - 128 < unat (((rsp - frame_size) AND NOT 0xF) - 8) + unat frame_size"
proof -
  have "(unat rsp - 264) mod 16 < 16" by simp
  moreover have "unat frame_size = 264" by (simp add: frame_size_def)
  ultimately show ?thesis unfolding frame_rsp [OF assms] using assms by linarith
qed

end
