(* ===== verification/Class_Queue.thy ===== *)
theory Class_Queue
  imports Prelude
begin

text \<open>
  What the run queue of a CPU relies on in the queue of a scheduling class: a choice among the
  queued tasks, and a removal of the task that would be chosen.  The fair queue and the real-time
  queue implement it.
\<close>

locale class_queue =
  fixes inv :: "'q \<Rightarrow> bool"
    and pids :: "'q \<Rightarrow> u32 multiset"
    and pick :: "'q \<Rightarrow> u32 option"
    and pop :: "'q \<Rightarrow> u32 option \<times> 'q"
  assumes pick_None: "inv q \<Longrightarrow> pick q = None \<longleftrightarrow> pids q = {#}"
    and pick_mem: "inv q \<Longrightarrow> pick q = Some p \<Longrightarrow> p \<in># pids q"
    and pop_pick: "inv q \<Longrightarrow> fst (pop q) = pick q"
    and pop_Some: "inv q \<Longrightarrow> pop q = (Some p, q') \<Longrightarrow> inv q' \<and> pids q' = pids q - {#p#}"
    and pop_None: "inv q \<Longrightarrow> pop q = (None, q') \<Longrightarrow> q' = q"
begin

text \<open>The tasks dispatched by \<open>n\<close> removals.\<close>

primrec dispatched :: "nat \<Rightarrow> 'q \<Rightarrow> u32 list" where
  "dispatched 0 q = []"
| "dispatched (Suc n) q = (case pop q of (None, _) \<Rightarrow> [] | (Some p, q') \<Rightarrow> p # dispatched n q')"

lemma dispatched_all: "inv q \<Longrightarrow> size (pids q) \<le> n \<Longrightarrow> mset (dispatched n q) = pids q"
proof (induction n arbitrary: q)
  case (Suc n)
  obtain r q' where pop: "pop q = (r, q')" by fastforce
  show ?case
  proof (cases r)
    case None
    then have "pick q = None" using pop_pick [OF Suc.prems(1)] pop by simp
    with Suc.prems(1) pop None show ?thesis by (simp add: pick_None)
  next
    case (Some p)
    then have "p \<in># pids q" using pop_pick [OF Suc.prems(1)] pick_mem [OF Suc.prems(1)] pop by simp
    moreover have q': "inv q'" "pids q' = pids q - {#p#}" using pop_Some [OF Suc.prems(1)] pop Some by auto
    moreover from calculation have "size (pids q') \<le> n" using Suc.prems(2) by (simp add: size_Diff_singleton)
    ultimately show ?thesis using Suc.IH [OF q'(1)] pop Some by simp
  qed
qed simp

end

end
