(* ===== verification/Sched_Types.thy ===== *)
theory Sched_Types
  imports Bitset
begin

text \<open>
  The scheduler's shared types, \<open>kernel/sched/sched-traits/src/lib.rs\<close>: task states, policies,
  CPU sets, the table of nice weights and the tick.
\<close>

type_synonym Pid = u32

section \<open>Task states and policies\<close>

type_synonym TaskState = u32

definition TASK_RUNNING :: TaskState where "TASK_RUNNING = 0"
definition TASK_INTERRUPTIBLE :: TaskState where "TASK_INTERRUPTIBLE = 1"
definition TASK_UNINTERRUPTIBLE :: TaskState where "TASK_UNINTERRUPTIBLE = 2"
definition TASK_STOPPED :: TaskState where "TASK_STOPPED = 4"
definition TASK_TRACED :: TaskState where "TASK_TRACED = 8"
definition TASK_DEAD :: TaskState where "TASK_DEAD = 16"
definition TASK_ZOMBIE :: TaskState where "TASK_ZOMBIE = 32"

definition is_runnable :: "TaskState \<Rightarrow> bool" where
  "is_runnable s \<longleftrightarrow> s = TASK_RUNNING"

definition is_sleeping :: "TaskState \<Rightarrow> bool" where
  "is_sleeping s \<longleftrightarrow> s AND (TASK_INTERRUPTIBLE OR TASK_UNINTERRUPTIBLE) \<noteq> 0"

definition is_interruptible :: "TaskState \<Rightarrow> bool" where
  "is_interruptible s \<longleftrightarrow> s = TASK_INTERRUPTIBLE"

definition is_dead :: "TaskState \<Rightarrow> bool" where
  "is_dead s \<longleftrightarrow> s AND (TASK_DEAD OR TASK_ZOMBIE) \<noteq> 0"

datatype SchedPolicy = Normal | Fifo | RoundRobin | Batch | Idle

primrec is_realtime :: "SchedPolicy \<Rightarrow> bool" where
  "is_realtime Normal = False"
| "is_realtime Fifo = True"
| "is_realtime RoundRobin = True"
| "is_realtime Batch = False"
| "is_realtime Idle = False"

primrec is_fair :: "SchedPolicy \<Rightarrow> bool" where
  "is_fair Normal = True"
| "is_fair Fifo = False"
| "is_fair RoundRobin = False"
| "is_fair Batch = True"
| "is_fair Idle = False"

definition default_time_slice :: "SchedPolicy \<Rightarrow> u32" where
  "default_time_slice p = (case p of RoundRobin \<Rightarrow> 10 | _ \<Rightarrow> 0)"

definition SchedPolicy_try_from :: "u32 \<Rightarrow> SchedPolicy option" where
  "SchedPolicy_try_from v =
     (if v = 0 then Some Normal else if v = 1 then Some Fifo else if v = 2 then Some RoundRobin
      else if v = 3 then Some Batch else if v = 5 then Some Idle else None)"

lemma policy_cases: "is_realtime p \<or> is_fair p \<or> p = Idle" "\<not> (is_realtime p \<and> is_fair p)"
  by (cases p; simp)+

section \<open>CPU sets\<close>

record CpuSet =
  cpu_bits :: "u64 list"

definition CpuSet_empty :: CpuSet where "CpuSet_empty = \<lparr>cpu_bits = replicate 4 0\<rparr>"
definition CpuSet_all :: CpuSet where "CpuSet_all = \<lparr>cpu_bits = replicate 4 (- 1)\<rparr>"

definition cpu_word :: "u32 \<Rightarrow> nat" where "cpu_word cpu = unat (cpu div 64)"
definition cpu_mask :: "u32 \<Rightarrow> u64" where "cpu_mask cpu = push_bit (unat (cpu mod 64)) 1"

definition CpuSet_single :: "u32 \<Rightarrow> CpuSet" where
  "CpuSet_single cpu =
     (if cpu < 256 then CpuSet_empty\<lparr>cpu_bits := (cpu_bits CpuSet_empty)[cpu_word cpu := cpu_mask cpu]\<rparr>
      else CpuSet_empty)"

definition CpuSet_set :: "CpuSet \<Rightarrow> u32 \<Rightarrow> CpuSet" where
  "CpuSet_set s cpu =
     (if cpu < 256
      then s\<lparr>cpu_bits := (cpu_bits s)[cpu_word cpu := cpu_bits s ! cpu_word cpu OR cpu_mask cpu]\<rparr>
      else s)"

definition CpuSet_clear :: "CpuSet \<Rightarrow> u32 \<Rightarrow> CpuSet" where
  "CpuSet_clear s cpu =
     (if cpu < 256
      then s\<lparr>cpu_bits := (cpu_bits s)[cpu_word cpu := cpu_bits s ! cpu_word cpu AND NOT (cpu_mask cpu)]\<rparr>
      else s)"

definition CpuSet_is_set :: "CpuSet \<Rightarrow> u32 \<Rightarrow> bool" where
  "CpuSet_is_set s cpu \<longleftrightarrow> \<not> 256 \<le> cpu \<and> cpu_bits s ! cpu_word cpu AND cpu_mask cpu \<noteq> 0"

definition CpuSet_range :: "u32 \<Rightarrow> u32 \<Rightarrow> CpuSet" where
  "CpuSet_range lo hi = foldl CpuSet_set CpuSet_empty (map of_nat [unat lo..<Suc (unat hi)])"

definition CpuSet_is_empty :: "CpuSet \<Rightarrow> bool" where
  "CpuSet_is_empty s \<longleftrightarrow> cpu_bits s ! 0 = 0 \<and> cpu_bits s ! 1 = 0 \<and> cpu_bits s ! 2 = 0 \<and> cpu_bits s ! 3 = 0"

fun first_set_from :: "u64 list \<Rightarrow> nat \<Rightarrow> u32 option" where
  "first_set_from [] i = None"
| "first_set_from (w # ws) i =
     (if w \<noteq> 0 then Some (of_nat i * 64 + of_nat (trailing_zeros w)) else first_set_from ws (Suc i))"

definition CpuSet_first_set :: "CpuSet \<Rightarrow> u32 option" where
  "CpuSet_first_set s = first_set_from (cpu_bits s) 0"

definition CpuSet_and :: "CpuSet \<Rightarrow> CpuSet \<Rightarrow> CpuSet" where
  "CpuSet_and s t = \<lparr>cpu_bits = map2 (AND) (cpu_bits s) (cpu_bits t)\<rparr>"

definition CpuSet_or :: "CpuSet \<Rightarrow> CpuSet \<Rightarrow> CpuSet" where
  "CpuSet_or s t = \<lparr>cpu_bits = map2 (OR) (cpu_bits s) (cpu_bits t)\<rparr>"

text \<open>The array of a CPU set always has four words; sets of this shape are the values of the type.\<close>

definition cpu_set_ok :: "CpuSet \<Rightarrow> bool" where
  "cpu_set_ok s \<longleftrightarrow> length (cpu_bits s) = 4"

section \<open>Weights\<close>

definition NICE_TO_WEIGHT :: "u64 list" where
  "NICE_TO_WEIGHT =
    [88761, 71755, 56483, 46273, 36291, 29154, 23254, 18705, 14949, 11916,
     9548, 7620, 6100, 4904, 3906, 3121, 2501, 1991, 1586, 1277,
     1024, 820, 655, 526, 423, 335, 272, 215, 172, 137,
     110, 87, 70, 56, 45, 36, 29, 23, 18, 15]"

definition NICE_0_WEIGHT :: u64 where "NICE_0_WEIGHT = 1024"

text \<open>A nice value is a Rust \<open>i8\<close>, an integer here; the addition is done in \<open>i16\<close> and cannot overflow.\<close>

definition nice_to_weight :: "int \<Rightarrow> u64" where
  "nice_to_weight nice = NICE_TO_WEIGHT ! nat (max 0 (min 39 (nice + 20)))"

definition RT_PRIO_MIN :: u8 where "RT_PRIO_MIN = 1"
definition RT_PRIO_MAX :: u8 where "RT_PRIO_MAX = 99"
definition TICK_NS :: u64 where "TICK_NS = 10000000"

section \<open>Membership in CPU sets\<close>

lemma cpu_word_less: "cpu < 256 \<Longrightarrow> cpu_word cpu < 4"
  by (simp add: cpu_word_def unat_div word_less_nat_alt)

lemma bit_cpu_mask: "bit (cpu_mask cpu) n \<longleftrightarrow> n = unat (cpu mod 64)"
proof -
  have "unat (cpu mod 64) < 64" by (simp add: unat_mod)
  then show ?thesis by (auto simp: cpu_mask_def bit_simps)
qed

lemma and_cpu_mask: "w AND cpu_mask cpu \<noteq> 0 \<longleftrightarrow> bit w (unat (cpu mod 64))"
proof
  assume "w AND cpu_mask cpu \<noteq> 0"
  then obtain i where "bit (w AND cpu_mask cpu) i" using word_nonzero_bit by blast
  then show "bit w (unat (cpu mod 64))" by (auto simp: bit_and_iff bit_cpu_mask)
next
  assume "bit w (unat (cpu mod 64))"
  then have "bit (w AND cpu_mask cpu) (unat (cpu mod 64))" by (simp add: bit_and_iff bit_cpu_mask)
  then show "w AND cpu_mask cpu \<noteq> 0" by force
qed

lemma is_set_iff: "CpuSet_is_set s cpu \<longleftrightarrow> cpu < 256 \<and> bit (cpu_bits s ! cpu_word cpu) (unat (cpu mod 64))"
  by (simp add: CpuSet_is_set_def and_cpu_mask not_le)

lemma cpu_index_eq:
  "cpu_word c = cpu_word c' \<and> unat (c mod 64) = unat (c' mod 64) \<longleftrightarrow> c = c'"
proof -
  have split: "unat c = 64 * cpu_word c + unat (c mod 64)" for c :: u32
    by (simp add: cpu_word_def unat_div unat_mod)
  show ?thesis
  proof (intro iffI)
    assume "cpu_word c = cpu_word c' \<and> unat (c mod 64) = unat (c' mod 64)"
    then have "unat c = unat c'" using split [of c] split [of c'] by simp
    then show "c = c'" by (simp add: word_unat_eq_iff)
  qed simp
qed

lemma is_set_set:
  assumes "cpu_set_ok s"
  shows "CpuSet_is_set (CpuSet_set s c) c' \<longleftrightarrow> (c' = c \<and> c < 256) \<or> CpuSet_is_set s c'"
proof (cases "c < 256")
  case True
  then have w: "cpu_word c < length (cpu_bits s)" using cpu_word_less assms by (simp add: cpu_set_ok_def)
  show ?thesis
  proof (cases "cpu_word c' = cpu_word c")
    case eq: True
    then show ?thesis
      using w True cpu_index_eq [of c' c] by (auto simp: is_set_iff CpuSet_set_def bit_or_iff bit_cpu_mask)
  next
    case False
    then show ?thesis using w True by (auto simp: is_set_iff CpuSet_set_def)
  qed
qed (auto simp: CpuSet_set_def)

lemma is_set_clear:
  assumes "cpu_set_ok s"
  shows "CpuSet_is_set (CpuSet_clear s c) c' \<longleftrightarrow> CpuSet_is_set s c' \<and> c' \<noteq> c"
proof (cases "c < 256")
  case True
  then have w: "cpu_word c < length (cpu_bits s)" using cpu_word_less assms by (simp add: cpu_set_ok_def)
  show ?thesis
  proof (cases "cpu_word c' = cpu_word c")
    case eq: True
    have "bit (NOT (cpu_mask c)) (unat (c' mod 64)) \<longleftrightarrow> c' \<noteq> c"
      using eq cpu_index_eq [of c' c] unat_mod [of c' 64] by (auto simp: bit_not_iff bit_cpu_mask)
    with eq show ?thesis using w True by (auto simp: is_set_iff CpuSet_clear_def bit_and_iff)
  next
    case False
    then show ?thesis using w True by (auto simp: is_set_iff CpuSet_clear_def)
  qed
qed (auto simp: CpuSet_clear_def is_set_iff)

interpretation cpuset: bitset "{c. c < 256}" cpu_set_ok CpuSet_is_set CpuSet_empty CpuSet_set CpuSet_clear
proof unfold_locales
  show "\<not> CpuSet_is_set CpuSet_empty c" for c
    using cpu_word_less [of c] by (auto simp: is_set_iff CpuSet_empty_def)
  show "CpuSet_is_set (CpuSet_set s c) c' \<longleftrightarrow> (c' = c \<and> c \<in> {c. c < 256}) \<or> CpuSet_is_set s c'"
    if "cpu_set_ok s" for s c c' using is_set_set [OF that] by simp
  show "CpuSet_is_set (CpuSet_clear s c) c' \<longleftrightarrow> CpuSet_is_set s c' \<and> c' \<noteq> c"
    if "cpu_set_ok s" for s c c' by (rule is_set_clear [OF that])
qed (auto simp: cpu_set_ok_def CpuSet_empty_def CpuSet_set_def CpuSet_clear_def is_set_iff)

lemma single_eq_set: "CpuSet_single c = CpuSet_set CpuSet_empty c"
  using cpu_word_less [of c] by (simp add: CpuSet_single_def CpuSet_set_def CpuSet_empty_def)

lemma set_word_range: "set (map of_nat [unat lo..<Suc (unat hi)]) = {lo..hi}" for lo hi :: "'a::len word"
proof -
  have "x \<in> set (map of_nat [unat lo..<Suc (unat hi)])" if "lo \<le> x" "x \<le> hi" for x
    using that by (auto simp: word_le_nat_alt less_Suc_eq_le simp del: upt_Suc intro!: image_eqI [of _ _ "unat x"])
  moreover have "lo \<le> of_nat n \<and> of_nat n \<le> hi" if "unat lo \<le> n" "n \<le> unat hi" for n
  proof -
    have "n < 2 ^ LENGTH('a)" using that(2) unsigned_less [of hi, where 'a = nat] by linarith
    with that show ?thesis by (simp add: word_le_nat_alt unat_of_nat take_bit_nat_eq_self)
  qed
  ultimately show ?thesis by (auto simp: less_Suc_eq_le simp del: upt_Suc)
qed

lemma is_set_range: "CpuSet_is_set (CpuSet_range lo hi) c \<longleftrightarrow> lo \<le> c \<and> c \<le> hi \<and> c < 256"
  unfolding CpuSet_range_def cpuset.bmem_fold_bins [OF cpuset.shape_empty] set_word_range
  by (simp add: cpuset.bmem_empty conj_assoc)

section \<open>Properties\<close>

text \<open>
  C24. CPU sets behave as sets of CPU numbers below 256: a pinned set contains its CPU only, a range
  contains the numbers between its bounds (and none at or above 256), adding and removing a CPU
  change the membership of that CPU only.
\<close>

theorem cpu_sets_are_sets:
  assumes "cpu_set_ok s"
  shows "(CpuSet_is_set (CpuSet_set s c) c' \<longleftrightarrow> (c' = c \<and> c < 256) \<or> CpuSet_is_set s c')
    \<and> (CpuSet_is_set (CpuSet_clear s c) c' \<longleftrightarrow> CpuSet_is_set s c' \<and> c' \<noteq> c)
    \<and> (CpuSet_is_set (CpuSet_single c) c' \<longleftrightarrow> c' = c \<and> c < 256)
    \<and> (CpuSet_is_set (CpuSet_range lo hi) c' \<longleftrightarrow> lo \<le> c' \<and> c' \<le> hi \<and> c' < 256)"
  using assms cpuset.shape_empty
  by (simp add: cpuset.bmem_bins cpuset.bmem_bdel single_eq_set cpuset.bmem_empty is_set_range)

theorem cpu_sets_are_sets_witness:
  "CpuSet_is_set (CpuSet_range 2 300) 255 \<and> \<not> CpuSet_is_set (CpuSet_single 3) 4"
  using cpu_sets_are_sets [OF cpuset.shape_empty, of 3 4 0 0]
    cpu_sets_are_sets [OF cpuset.shape_empty, of 3 255 2 300] by simp

end
