(* ===== verification/Rt.thy ===== *)
theory Rt
  imports Bitset Class_Queue Sched_Types
begin

text \<open>
  The real-time scheduling class, \<open>kernel/sched/sched/src/rt.rs\<close>: one array of eight process ids
  for each of the 99 priorities, the number of tasks in each, and a bitmap of the priorities that
  have tasks.  The abstract view of the queue is the list of tasks waiting at each priority, in the
  order of their arrival.
\<close>

section \<open>The queue\<close>

definition RT_PRIO_LEVELS :: nat where "RT_PRIO_LEVELS = 99"
definition MAX_RT_PER_PRIO :: nat where "MAX_RT_PER_PRIO = 8"

record RtRunQueue =
  queues :: "Pid list list"
  queue_lens :: "u8 list"
  bitmap :: u128
  rt_nr_running :: u32

definition RtRunQueue_new :: RtRunQueue where
  "RtRunQueue_new = \<lparr>queues = replicate RT_PRIO_LEVELS (replicate MAX_RT_PER_PRIO 0),
     queue_lens = replicate RT_PRIO_LEVELS 0, bitmap = 0, rt_nr_running = 0\<rparr>"

definition priority_to_index :: "u8 \<Rightarrow> nat" where
  "priority_to_index priority = unat (min (max priority 1) RT_PRIO_MAX - 1)"

definition index_to_priority :: "nat \<Rightarrow> u8" where
  "index_to_priority idx = of_nat (idx + 1)"

text \<open>\<open>1u128 << idx\<close>, and the two updates of the bitmap made with it.\<close>

definition bitmap_set :: "u128 \<Rightarrow> nat \<Rightarrow> u128" where
  "bitmap_set b idx = b OR push_bit idx 1"

definition bitmap_clear :: "u128 \<Rightarrow> nat \<Rightarrow> u128" where
  "bitmap_clear b idx = b AND NOT (push_bit idx 1)"

definition highest_index :: "u128 \<Rightarrow> nat" where
  "highest_index b = 127 - leading_zeros b"

definition RtRunQueue_enqueue :: "RtRunQueue \<Rightarrow> Pid \<Rightarrow> u8 \<Rightarrow> RtRunQueue" where
  "RtRunQueue_enqueue r p priority =
     (let idx = priority_to_index priority; len = unat (queue_lens r ! idx) in
      if len < MAX_RT_PER_PRIO then
        r\<lparr>queues := (queues r)[idx := (queues r ! idx)[len := p]],
          queue_lens := (queue_lens r)[idx := queue_lens r ! idx + 1],
          bitmap := bitmap_set (bitmap r) idx,
          rt_nr_running := rt_nr_running r + 1\<rparr>
      else r)"

text \<open>The loop \<open>for i in pos..len - 1\<close> that closes the gap at a position.\<close>

definition shift_left :: "Pid list \<Rightarrow> nat \<Rightarrow> nat \<Rightarrow> Pid list" where
  "shift_left row pos len = foldl (\<lambda>row i. row[i := row ! (i + 1)]) row [pos..<len - 1]"

definition find_in_row :: "Pid list \<Rightarrow> nat \<Rightarrow> Pid \<Rightarrow> nat option" where
  "find_in_row row len p = find (\<lambda>i. row ! i = p) [0..<len]"

definition remove_at :: "RtRunQueue \<Rightarrow> nat \<Rightarrow> nat \<Rightarrow> RtRunQueue" where
  "remove_at r idx pos =
     (let len = unat (queue_lens r ! idx);
          row = shift_left (queues r ! idx) pos len;
          len' = queue_lens r ! idx - 1;
          b = (if len' = 0 then bitmap_clear (bitmap r) idx else bitmap r)
      in r\<lparr>queues := (queues r)[idx := row], queue_lens := (queue_lens r)[idx := len'],
           bitmap := b, rt_nr_running := rt_nr_running r - 1\<rparr>)"

definition RtRunQueue_dequeue :: "RtRunQueue \<Rightarrow> Pid \<Rightarrow> u8 \<Rightarrow> bool \<times> RtRunQueue" where
  "RtRunQueue_dequeue r p priority =
     (let idx = priority_to_index priority; len = unat (queue_lens r ! idx) in
      case find_in_row (queues r ! idx) len p of
        Some pos \<Rightarrow> (True, remove_at r idx pos)
      | None \<Rightarrow> (False, r))"

definition RtRunQueue_pick_next :: "RtRunQueue \<Rightarrow> Pid option" where
  "RtRunQueue_pick_next r =
     (if bitmap r = 0 then None
      else
        (let idx = highest_index (bitmap r) in
         if 0 < queue_lens r ! idx then Some (queues r ! idx ! 0) else None))"

definition RtRunQueue_pop_next :: "RtRunQueue \<Rightarrow> Pid option \<times> RtRunQueue" where
  "RtRunQueue_pop_next r =
     (if bitmap r = 0 then (None, r)
      else
        (let idx = highest_index (bitmap r) in
         if unat (queue_lens r ! idx) = 0 then (None, r)
         else (Some (queues r ! idx ! 0), remove_at r idx 0)))"

definition RtRunQueue_requeue_tail :: "RtRunQueue \<Rightarrow> Pid \<Rightarrow> u8 \<Rightarrow> RtRunQueue" where
  "RtRunQueue_requeue_tail r p priority =
     (let idx = priority_to_index priority; len = unat (queue_lens r ! idx) in
      case find_in_row (queues r ! idx) len p of
        Some pos \<Rightarrow> r\<lparr>queues := (queues r)[idx := (shift_left (queues r ! idx) pos len)[len - 1 := p]]\<rparr>
      | None \<Rightarrow> r)"

definition RtRunQueue_is_empty :: "RtRunQueue \<Rightarrow> bool" where
  "RtRunQueue_is_empty r \<longleftrightarrow> rt_nr_running r = 0"

definition RtRunQueue_highest_priority :: "RtRunQueue \<Rightarrow> u8" where
  "RtRunQueue_highest_priority r =
     (if bitmap r = 0 then 0 else index_to_priority (highest_index (bitmap r)))"

section \<open>The bitmap\<close>

interpretation rtbits: bitset "{i. i < 128}" "\<lambda>_. True" "bit :: u128 \<Rightarrow> nat \<Rightarrow> bool" 0 bitmap_set bitmap_clear
proof unfold_locales
  show "i \<in> {i. i < 128}" if "bit b i" for b :: u128 and i using bit_imp_le_length [OF that] by simp
  show "bit (bitmap_clear b i) j \<longleftrightarrow> bit b j \<and> j \<noteq> i" for b i j
    using bit_imp_le_length [of b j] by (auto simp: bitmap_clear_def bit_simps)
qed (auto simp: bitmap_set_def bit_simps)

lemma highest_index_spec:
  assumes "b \<noteq> 0"
  shows "bit b (highest_index b)" "\<And>i. highest_index b < i \<Longrightarrow> \<not> bit b i"
  using leading_zeros_greatest [OF assms] by (simp_all add: highest_index_def)

section \<open>Invariant and abstraction\<close>

definition rt_inv :: "RtRunQueue \<Rightarrow> bool" where
  "rt_inv r \<longleftrightarrow> length (queues r) = 99 \<and> length (queue_lens r) = 99
     \<and> (\<forall>i<99. length (queues r ! i) = 8 \<and> unat (queue_lens r ! i) \<le> 8)
     \<and> (\<forall>i. bit (bitmap r) i \<longleftrightarrow> i < 99 \<and> queue_lens r ! i \<noteq> 0)
     \<and> rt_nr_running r = of_nat (sum_list (map unat (queue_lens r)))"

definition rt_row :: "RtRunQueue \<Rightarrow> nat \<Rightarrow> Pid list" where
  "rt_row r i = take (unat (queue_lens r ! i)) (queues r ! i)"

lemma index_less: "priority_to_index prio < 99"
proof -
  have "min (max prio 1) RT_PRIO_MAX - 1 < (99 :: u8)"
    by (auto simp: RT_PRIO_MAX_def min_def max_def word_less_nat_alt word_le_nat_alt unat_sub)
  then show ?thesis by (simp add: priority_to_index_def word_less_nat_alt)
qed

lemma length_rt_row: "rt_inv r \<Longrightarrow> i < 99 \<Longrightarrow> length (rt_row r i) = unat (queue_lens r ! i)"
  by (simp add: rt_inv_def rt_row_def)

lemma rt_inv_new: "rt_inv RtRunQueue_new"
  by (simp add: rt_inv_def RtRunQueue_new_def RT_PRIO_LEVELS_def MAX_RT_PER_PRIO_def sum_list_replicate)

lemma rt_row_new: "i < 99 \<Longrightarrow> rt_row RtRunQueue_new i = []"
  by (simp add: rt_row_def RtRunQueue_new_def RT_PRIO_LEVELS_def)

text \<open>Replacing the row of one priority.\<close>

lemma rt_update:
  assumes inv: "rt_inv r" and idx: "idx < 99" and row: "length row = 8" and n: "unat n \<le> 8"
    and b: "\<And>i. bit b i \<longleftrightarrow> (if i = idx then n \<noteq> 0 else bit (bitmap r) i)"
    and k: "k + of_nat (unat (queue_lens r ! idx)) = rt_nr_running r + of_nat (unat n)"
  defines "r' \<equiv> r\<lparr>queues := (queues r)[idx := row], queue_lens := (queue_lens r)[idx := n],
    bitmap := b, rt_nr_running := k\<rparr>"
  shows "rt_inv r'" and "rt_row r' = (rt_row r)(idx := take (unat n) row)"
proof -
  let ?l = "map unat (queue_lens r)" and ?i = "unat (queue_lens r ! idx)"
  have lens: "length (queues r) = 99" "length (queue_lens r) = 99" using inv by (simp_all add: rt_inv_def)
  have "?i \<le> sum_list ?l" using idx lens by (intro member_le_sum_list) (auto intro!: image_eqI)
  then have "sum_list (?l[idx := unat n]) + ?i = sum_list ?l + unat n"
    using idx lens by (simp add: sum_list_update)
  then have "(of_nat (sum_list (?l[idx := unat n])) :: u32) + of_nat ?i = of_nat (sum_list ?l) + of_nat (unat n)"
    by (metis of_nat_add)
  moreover have "rt_nr_running r = of_nat (sum_list ?l)" using inv by (simp add: rt_inv_def)
  ultimately have "k = of_nat (sum_list (?l[idx := unat n]))" using k by (metis add_right_cancel)
  then have nr: "rt_nr_running r' = of_nat (sum_list (map unat (queue_lens r')))" by (simp add: r'_def map_update)
  have "bit (bitmap r') i \<longleftrightarrow> i < 99 \<and> queue_lens r' ! i \<noteq> 0" for i
    using b [of i] inv idx lens by (auto simp: r'_def rt_inv_def nth_list_update)
  moreover have "length (queues r' ! i) = 8 \<and> unat (queue_lens r' ! i) \<le> 8" if "i < 99" for i
    using that inv row n lens idx by (auto simp: r'_def rt_inv_def nth_list_update)
  ultimately show "rt_inv r'" using lens nr by (simp add: rt_inv_def) (simp add: r'_def)
  show "rt_row r' = (rt_row r)(idx := take (unat n) row)"
    using idx lens by (auto simp: r'_def rt_row_def fun_eq_iff nth_list_update)
qed

section \<open>Closing a gap\<close>

lemma length_shift_left [simp]: "length (shift_left row pos len) = length row"
proof -
  have "length (foldl (\<lambda>row i. row[i := row ! (i + 1)]) row is) = length row" for "is" :: "nat list"
    by (induction "is" arbitrary: row) auto
  then show ?thesis by (simp add: shift_left_def)
qed

lemma shift_left_nth:
  assumes "len \<le> length row" "j < length row"
  shows "shift_left row pos len ! j = (if pos \<le> j \<and> j < len - 1 then row ! (j + 1) else row ! j)"
  using assms
proof (induction len arbitrary: j)
  case (Suc len)
  show ?case
  proof (cases "pos < len")
    case True
    then have "shift_left row pos (Suc len) = (shift_left row pos len)[len - 1 := shift_left row pos len ! len]"
      using upt_Suc_append [of pos "len - 1"] by (simp add: shift_left_def del: upt_Suc)
    moreover have "shift_left row pos len ! len = row ! len" using Suc.IH [of len] Suc.prems
      by (cases len) (auto simp: shift_left_def)
    ultimately show ?thesis using True Suc.IH [of j] Suc.prems by (auto simp: nth_list_update)
  qed (auto simp: shift_left_def)
qed (simp add: shift_left_def)

lemma take_shift_left:
  assumes "len \<le> length row" "pos < len"
  shows "take (len - Suc 0) (shift_left row pos len) = take pos row @ drop (Suc pos) (take len row)"
  using assms by (intro nth_equalityI) (auto simp: shift_left_nth nth_append)

lemma find_in_row_None:
  "len \<le> length row \<Longrightarrow> find_in_row row len p = None \<longleftrightarrow> p \<notin> set (take len row)"
  by (auto simp: find_in_row_def find_None_iff in_set_conv_nth)

lemma remove1_first:
  assumes "pos < length xs" "xs ! pos = p" "\<forall>i<pos. xs ! i \<noteq> p"
  shows "remove1 p xs = take pos xs @ drop (pos + 1) xs"
proof -
  have "p \<notin> set (take pos xs)" using assms by (auto simp: in_set_conv_nth)
  moreover have "xs = take pos xs @ p # drop (pos + 1) xs" using assms(1,2) id_take_nth_drop [of pos xs] by simp
  ultimately show ?thesis by (metis remove1_append remove1.simps(2))
qed

lemma find_in_row_Some:
  assumes "find_in_row row len p = Some pos" "len \<le> length row"
  shows "pos < len" "row ! pos = p" "remove1 p (take len row) = take (len - 1) (shift_left row pos len)"
proof -
  have "pos < len \<and> row ! pos = p \<and> (\<forall>i<pos. row ! i \<noteq> p)"
    using assms(1) by (auto simp: find_in_row_def find_Some_iff)
  then show pos: "pos < len" "row ! pos = p" and "remove1 p (take len row) = take (len - 1) (shift_left row pos len)"
    using assms(2) remove1_first [of pos "take len row" p] take_shift_left [OF assms(2), of pos]
    by (auto simp: min_def)
qed

lemma rt_row_remove_at:
  assumes inv: "rt_inv r" and idx: "idx < 99" and pos: "pos < unat (queue_lens r ! idx)"
  shows "rt_inv (remove_at r idx pos)"
    and "rt_row (remove_at r idx pos)
      = (rt_row r)(idx := take pos (rt_row r idx) @ drop (pos + 1) (rt_row r idx))"
proof -
  let ?n = "queue_lens r ! idx"
  let ?b = "if ?n - 1 = 0 then bitmap_clear (bitmap r) idx else bitmap r"
  have lens: "length (queues r ! idx) = 8" "unat ?n \<le> 8" using inv idx by (simp_all add: rt_inv_def)
  have n: "unat (?n - 1) = unat ?n - 1" using pos by (intro unat_minus_one) auto
  have b: "bit ?b i \<longleftrightarrow> (if i = idx then ?n - 1 \<noteq> 0 else bit (bitmap r) i)" for i
    using inv idx pos by (auto simp: rtbits.bmem_bdel rt_inv_def)
  have "unat ?n = unat (?n - 1) + 1" using n pos by simp
  then have "of_nat (unat ?n) = (of_nat (unat (?n - 1)) + 1 :: u32)" by (metis of_nat_add of_nat_1)
  then have k: "rt_nr_running r - 1 + of_nat (unat ?n) = rt_nr_running r + of_nat (unat (?n - 1))" by simp
  have row: "length (shift_left (queues r ! idx) pos (unat ?n)) = 8" using lens by simp
  have "unat (?n - 1) \<le> 8" using n lens by simp
  note upd = rt_update [OF inv idx row this b k]
  show "rt_inv (remove_at r idx pos)" using upd(1) by (simp add: remove_at_def Let_def)
  show "rt_row (remove_at r idx pos) = (rt_row r)(idx := take pos (rt_row r idx) @ drop (pos + 1) (rt_row r idx))"
    using upd(2) lens pos n by (simp add: remove_at_def Let_def take_shift_left rt_row_def min_def)
qed

section \<open>The operations on rows\<close>

definition rt_idx :: "RtRunQueue \<Rightarrow> nat \<Rightarrow> bool" where
  "rt_idx r i \<longleftrightarrow> i < 99 \<and> rt_row r i \<noteq> [] \<and> (\<forall>j<99. i < j \<longrightarrow> rt_row r j = [])"

lemma rt_row_Nil: "rt_inv r \<Longrightarrow> i < 99 \<Longrightarrow> rt_row r i = [] \<longleftrightarrow> \<not> bit (bitmap r) i"
  using length_rt_row [of r i] by (auto simp: rt_inv_def unat_eq_0)

lemma highest_index_idx:
  assumes "rt_inv r" "bitmap r \<noteq> 0"
  shows "rt_idx r (highest_index (bitmap r))"
proof -
  note hi = highest_index_spec [OF assms(2)]
  have "highest_index (bitmap r) < 99" using hi(1) assms(1) by (simp add: rt_inv_def)
  with hi show ?thesis by (simp add: rt_idx_def rt_row_Nil [OF assms(1)])
qed

lemma rt_idx_unique: "rt_idx r i \<Longrightarrow> rt_idx r j \<Longrightarrow> i = j"
  by (metis rt_idx_def linorder_neqE_nat)

lemma bitmap_zero_iff: "rt_inv r \<Longrightarrow> bitmap r = 0 \<longleftrightarrow> (\<forall>i<99. rt_row r i = [])"
  using highest_index_idx [of r] rt_row_Nil [of r] by (auto simp: rt_idx_def)

lemma enqueue_row:
  fixes prio
  assumes inv: "rt_inv r"
  defines "idx \<equiv> priority_to_index prio"
  shows "rt_inv (RtRunQueue_enqueue r p prio)"
    and "rt_row (RtRunQueue_enqueue r p prio)
      = (if length (rt_row r idx) < 8 then (rt_row r)(idx := rt_row r idx @ [p]) else rt_row r)"
proof -
  let ?n = "queue_lens r ! idx" and ?r = "RtRunQueue_enqueue r p prio"
  have idx: "idx < 99" by (simp add: idx_def index_less)
  note len = length_rt_row [OF inv idx]
  have "rt_inv ?r \<and> rt_row ?r = (rt_row r)(idx := rt_row r idx @ [p])" if room: "unat ?n < 8"
  proof -
    have n: "unat (?n + 1) = unat ?n + 1" using room by (simp add: unat_word_ariths)
    have lens: "length (queues r ! idx) = 8" using inv idx by (simp add: rt_inv_def)
    have b: "bit (bitmap_set (bitmap r) idx) i \<longleftrightarrow> (if i = idx then ?n + 1 \<noteq> 0 else bit (bitmap r) i)" for i
      using idx n by (auto simp: rtbits.bmem_bins)
    have k: "rt_nr_running r + 1 + of_nat (unat ?n) = rt_nr_running r + of_nat (unat (?n + 1))"
      by (simp add: n)
    have "length ((queues r ! idx)[unat ?n := p]) = 8" "unat (?n + 1) \<le> 8" using lens n room by simp_all
    note upd = rt_update [OF inv idx this b k]
    have "take (unat ?n + 1) ((queues r ! idx)[unat ?n := p]) = rt_row r idx @ [p]"
      using room lens by (simp add: rt_row_def take_Suc_conv_app_nth)
    with upd n room show ?thesis
      by (simp add: RtRunQueue_enqueue_def Let_def MAX_RT_PER_PRIO_def flip: idx_def)
  qed
  moreover have "?r = r" if "\<not> unat ?n < 8"
    using that by (simp add: RtRunQueue_enqueue_def Let_def MAX_RT_PER_PRIO_def idx_def)
  ultimately show "rt_inv ?r"
    "rt_row ?r = (if length (rt_row r idx) < 8 then (rt_row r)(idx := rt_row r idx @ [p]) else rt_row r)"
    using inv len by (cases "unat ?n < 8"; simp)+
qed

lemma dequeue_row:
  fixes prio
  assumes inv: "rt_inv r"
  defines "idx \<equiv> priority_to_index prio"
  shows "rt_inv (snd (RtRunQueue_dequeue r p prio))"
    and "fst (RtRunQueue_dequeue r p prio) \<longleftrightarrow> p \<in> set (rt_row r idx)"
    and "rt_row (snd (RtRunQueue_dequeue r p prio)) = (rt_row r)(idx := remove1 p (rt_row r idx))"
proof -
  let ?n = "unat (queue_lens r ! idx)" and ?d = "RtRunQueue_dequeue r p prio"
  have idx: "idx < 99" by (simp add: idx_def index_less)
  have lens: "?n \<le> length (queues r ! idx)" using inv idx by (simp add: rt_inv_def)
  have "rt_inv (snd ?d) \<and> (fst ?d \<longleftrightarrow> p \<in> set (rt_row r idx))
    \<and> rt_row (snd ?d) = (rt_row r)(idx := remove1 p (rt_row r idx))"
  proof (cases "find_in_row (queues r ! idx) ?n p")
    case None
    then have "p \<notin> set (rt_row r idx)" using find_in_row_None [OF lens] by (simp add: rt_row_def)
    with None inv show ?thesis by (simp add: RtRunQueue_dequeue_def Let_def remove1_idem flip: idx_def)
  next
    case (Some pos)
    note pos = find_in_row_Some [OF Some lens]
    have "p \<in> set (rt_row r idx)"
      using pos(1,2) lens by (auto simp: rt_row_def in_set_conv_nth)
    moreover have "remove1 p (rt_row r idx) = take pos (rt_row r idx) @ drop (pos + 1) (rt_row r idx)"
      using pos take_shift_left [OF lens pos(1)] by (simp add: rt_row_def min_def)
    ultimately show ?thesis
      using rt_row_remove_at [OF inv idx pos(1)] Some by (simp add: RtRunQueue_dequeue_def Let_def flip: idx_def)
  qed
  then show "rt_inv (snd ?d)" "fst ?d \<longleftrightarrow> p \<in> set (rt_row r idx)"
    "rt_row (snd ?d) = (rt_row r)(idx := remove1 p (rt_row r idx))" by simp_all
qed

lemma requeue_row:
  fixes prio
  assumes inv: "rt_inv r"
  defines "idx \<equiv> priority_to_index prio"
  shows "rt_inv (RtRunQueue_requeue_tail r p prio)"
    and "rt_row (RtRunQueue_requeue_tail r p prio)
      = (if p \<in> set (rt_row r idx) then (rt_row r)(idx := remove1 p (rt_row r idx) @ [p]) else rt_row r)"
proof -
  let ?n = "unat (queue_lens r ! idx)" and ?d = "RtRunQueue_requeue_tail r p prio"
  have idx: "idx < 99" by (simp add: idx_def index_less)
  have lens: "?n \<le> length (queues r ! idx)" "length (queues r ! idx) = 8" using inv idx by (simp_all add: rt_inv_def)
  have "rt_inv ?d \<and> rt_row ?d
    = (if p \<in> set (rt_row r idx) then (rt_row r)(idx := remove1 p (rt_row r idx) @ [p]) else rt_row r)"
  proof (cases "find_in_row (queues r ! idx) ?n p")
    case None
    then have "p \<notin> set (rt_row r idx)" using find_in_row_None [OF lens(1)] by (simp add: rt_row_def)
    with None inv show ?thesis by (simp add: RtRunQueue_requeue_tail_def Let_def flip: idx_def)
  next
    case (Some pos)
    note pos = find_in_row_Some [OF Some lens(1)]
    let ?row = "(shift_left (queues r ! idx) pos ?n)[?n - 1 := p]"
    have n: "?n = Suc (?n - 1)" using pos(1) by simp
    have "take ?n ?row = take (?n - 1) (shift_left (queues r ! idx) pos ?n) @ [p]"
      using lens by (subst n) (simp add: take_Suc_conv_app_nth)
    then have "take ?n ?row = remove1 p (rt_row r idx) @ [p]" using pos(3) by (simp add: rt_row_def)
    moreover have "p \<in> set (rt_row r idx)" using pos(1,2) lens by (auto simp: rt_row_def in_set_conv_nth)
    moreover have "bit (bitmap r) i \<longleftrightarrow> (if i = idx then queue_lens r ! idx \<noteq> 0 else bit (bitmap r) i)" for i
      using inv idx by (simp add: rt_inv_def)
    note rt_update [OF inv idx _ _ this, of ?row "rt_nr_running r"]
    ultimately show ?thesis
      using Some lens by (simp add: RtRunQueue_requeue_tail_def Let_def flip: idx_def)
  qed
  then show "rt_inv ?d" "rt_row ?d
    = (if p \<in> set (rt_row r idx) then (rt_row r)(idx := remove1 p (rt_row r idx) @ [p]) else rt_row r)" by simp_all
qed

lemma pop_row:
  assumes inv: "rt_inv r"
  shows "bitmap r = 0 \<Longrightarrow> RtRunQueue_pop_next r = (None, r) \<and> RtRunQueue_pick_next r = None"
    and "rt_idx r i \<Longrightarrow> \<exists>r'. RtRunQueue_pop_next r = (Some (hd (rt_row r i)), r') \<and> rt_inv r'
      \<and> rt_row r' = (rt_row r)(i := tl (rt_row r i)) \<and> RtRunQueue_pick_next r = Some (hd (rt_row r i))"
proof -
  show "bitmap r = 0 \<Longrightarrow> RtRunQueue_pop_next r = (None, r) \<and> RtRunQueue_pick_next r = None"
    by (simp add: RtRunQueue_pop_next_def RtRunQueue_pick_next_def)
  assume i: "rt_idx r i"
  then have idx: "i < 99" and ne: "rt_row r i \<noteq> []" by (simp_all add: rt_idx_def)
  then have nz: "bitmap r \<noteq> 0" using bitmap_zero_iff [OF inv] by blast
  then have hi: "highest_index (bitmap r) = i" using highest_index_idx [OF inv] rt_idx_unique i by blast
  have n: "0 < unat (queue_lens r ! i)" using ne length_rt_row [OF inv idx] by (metis length_greater_0_conv)
  then have "queue_lens r ! i \<noteq> 0" by auto
  moreover have "queues r ! i ! 0 = hd (rt_row r i)"
    using hd_conv_nth [OF ne] n by (simp add: rt_row_def)
  ultimately show "\<exists>r'. RtRunQueue_pop_next r = (Some (hd (rt_row r i)), r') \<and> rt_inv r'
      \<and> rt_row r' = (rt_row r)(i := tl (rt_row r i)) \<and> RtRunQueue_pick_next r = Some (hd (rt_row r i))"
    using rt_row_remove_at [OF inv idx n] nz hi n
    by (simp add: RtRunQueue_pop_next_def RtRunQueue_pick_next_def Let_def drop_Suc word_neq_0_conv)
qed

section \<open>The order of dispatch\<close>

text \<open>All waiting tasks: the higher priority first, and in the order of arrival within a priority.\<close>

definition rt_order :: "RtRunQueue \<Rightarrow> Pid list" where
  "rt_order r = concat (map (rt_row r) (rev [0..<99]))"

definition rt_pids :: "RtRunQueue \<Rightarrow> Pid multiset" where
  "rt_pids r = mset (rt_order r)"

lemma concat_highest:
  assumes "i < n" "\<forall>j<n. i < j \<longrightarrow> f j = []"
  shows "concat (map f (rev [0..<n])) = f i @ concat (map f (rev [0..<i]))"
proof -
  have "[0..<n] = [0..<i] @ i # [Suc i..<n]" 
    using assms(1) upt_add_eq_append [of 0 i "n - i"] by (simp add: upt_conv_Cons)
  moreover have "concat (map f (rev [Suc i..<n])) = []" using assms(2) by auto
  ultimately show ?thesis by (simp add: rev_map del: concat_eq_Nil_conv)
qed

lemma rt_order_pop:
  assumes "rt_idx r i" "rt_row r' = (rt_row r)(i := tl (rt_row r i))"
  shows "rt_order r = hd (rt_row r i) # rt_order r'"
proof -
  have i: "i < 99" "\<forall>j<99. i < j \<longrightarrow> rt_row r j = []" "rt_row r i \<noteq> []"
    using assms(1) by (simp_all add: rt_idx_def)
  have "\<forall>j<99. i < j \<longrightarrow> rt_row r' j = []" using i assms(2) by simp
  from concat_highest [OF i(1) this] have "rt_order r' = tl (rt_row r i) @ concat (map (rt_row r') (rev [0..<i]))"
    unfolding rt_order_def assms(2) fun_upd_same .
  moreover have "map (rt_row r') (rev [0..<i]) = map (rt_row r) (rev [0..<i])" by (simp add: assms(2))
  moreover have "rt_order r = rt_row r i @ concat (map (rt_row r) (rev [0..<i]))"
    unfolding rt_order_def by (rule concat_highest [OF i(1,2)])
  ultimately show ?thesis using i(3) by (metis append_Cons list.collapse)
qed

lemma rt_order_Nil: "rt_inv r \<Longrightarrow> rt_order r = [] \<longleftrightarrow> bitmap r = 0"
  by (auto simp: rt_order_def bitmap_zero_iff)

lemma pop_next_order:
  assumes inv: "rt_inv r"
  shows "case rt_order r of
      [] \<Rightarrow> RtRunQueue_pop_next r = (None, r) \<and> RtRunQueue_pick_next r = None
    | p # ps \<Rightarrow> (\<exists>r'. RtRunQueue_pop_next r = (Some p, r') \<and> rt_inv r' \<and> rt_order r' = ps)
        \<and> RtRunQueue_pick_next r = Some p"
proof (cases "bitmap r = 0")
  case True
  with pop_row(1) [OF inv] rt_order_Nil [OF inv] show ?thesis by simp
next
  case False
  note hi = highest_index_idx [OF inv False]
  from pop_row(2) [OF inv hi] rt_order_pop [OF hi] show ?thesis by auto
qed

interpretation rtq: class_queue rt_inv rt_pids RtRunQueue_pick_next RtRunQueue_pop_next
proof unfold_locales
  fix r p r'
  assume inv: "rt_inv r"
  note pop = pop_next_order [OF inv]
  show "RtRunQueue_pick_next r = None \<longleftrightarrow> rt_pids r = {#}"
    using pop by (cases "rt_order r") (auto simp: rt_pids_def)
  show "p \<in># rt_pids r" if "RtRunQueue_pick_next r = Some p"
    using pop that by (cases "rt_order r") (auto simp: rt_pids_def)
  show "fst (RtRunQueue_pop_next r) = RtRunQueue_pick_next r" using pop by (cases "rt_order r") auto
  show "rt_inv r' \<and> rt_pids r' = rt_pids r - {#p#}" if "RtRunQueue_pop_next r = (Some p, r')"
    using pop that by (cases "rt_order r") (auto simp: rt_pids_def)
  show "r' = r" if "RtRunQueue_pop_next r = (None, r')" using pop that by (cases "rt_order r") auto
qed

lemma rt_dispatched: "rt_inv r \<Longrightarrow> length (rt_order r) \<le> n \<Longrightarrow> rtq.dispatched n r = rt_order r"
proof (induction n arbitrary: r)
  case (Suc n)
  show ?case using pop_next_order [OF Suc.prems(1)] Suc by (cases "rt_order r") auto
qed simp

section \<open>Properties\<close>

text \<open>
  C34. The bitmap, the counters and the arrays refine one first-in-first-out queue per priority:
  \<open>enqueue\<close> appends to the queue of the task's priority (and drops the task if eight are
  waiting there), \<open>dequeue\<close> takes out the task's first occurrence and reports whether there was
  one, \<open>requeue_tail\<close> moves it to the back; no other priority changes and the invariant is kept.
\<close>

theorem rt_queue_refines_fifos:
  fixes prio :: u8
  assumes "rt_inv r"
  defines "idx \<equiv> priority_to_index prio"
  shows "rt_inv (RtRunQueue_enqueue r p prio)
    \<and> rt_row (RtRunQueue_enqueue r p prio)
      = (if length (rt_row r idx) < 8 then (rt_row r)(idx := rt_row r idx @ [p]) else rt_row r)
    \<and> rt_inv (snd (RtRunQueue_dequeue r p prio))
    \<and> (fst (RtRunQueue_dequeue r p prio) \<longleftrightarrow> p \<in> set (rt_row r idx))
    \<and> rt_row (snd (RtRunQueue_dequeue r p prio)) = (rt_row r)(idx := remove1 p (rt_row r idx))
    \<and> rt_inv (RtRunQueue_requeue_tail r p prio)
    \<and> rt_row (RtRunQueue_requeue_tail r p prio)
      = (if p \<in> set (rt_row r idx) then (rt_row r)(idx := remove1 p (rt_row r idx) @ [p]) else rt_row r)"
  using enqueue_row [OF assms(1)] dequeue_row [OF assms(1)] requeue_row [OF assms(1)]
  by (simp_all add: idx_def)

theorem rt_queue_refines_fifos_witness:
  "rt_row (RtRunQueue_enqueue RtRunQueue_new 7 50) 49 = [7]"
  using rt_queue_refines_fifos [OF rt_inv_new, of 7 50]
  by (simp add: rt_row_new priority_to_index_def RT_PRIO_MAX_def)

text \<open>
  C35. Popping until the queue is empty dispatches every waiting real-time task once: a task never
  before one of higher priority, and tasks of equal priority in the order of their arrival.
\<close>

theorem rt_dispatch_order:
  assumes "rt_inv r"
  shows "rtq.dispatched (length (rt_order r)) r = concat (map (rt_row r) (rev [0..<99]))"
  using rt_dispatched [OF assms order_refl] by (simp add: rt_order_def)

theorem rt_dispatch_order_witness:
  "rtq.dispatched (length (rt_order (RtRunQueue_enqueue (RtRunQueue_enqueue RtRunQueue_new 7 50) 8 60)))
     (RtRunQueue_enqueue (RtRunQueue_enqueue RtRunQueue_new 7 50) 8 60) = [8, 7]"
proof -
  let ?r = "RtRunQueue_enqueue (RtRunQueue_enqueue RtRunQueue_new 7 50) 8 60"
  have idx: "priority_to_index 50 = 49" "priority_to_index 60 = 59"
    by (simp_all add: priority_to_index_def RT_PRIO_MAX_def)
  have "rt_row ?r = (rt_row RtRunQueue_new)(49 := [7], 59 := [8])"
    by (simp add: enqueue_row rt_inv_new idx rt_row_new)
  moreover have "rt_inv ?r" by (simp add: enqueue_row rt_inv_new)
  note rt_dispatch_order [OF this]
  ultimately show ?thesis by (simp add: rt_row_new upt_rec)
qed

end
