(* ===== verification/Binheap.thy ===== *)
theory Binheap
  imports Prelude
begin

text \<open>
  The array-backed binary min-heap of the fair scheduler: the two sift loops of
  \<open>kernel/sched/sched/src/fair.rs\<close> on an array of which the first \<open>n\<close> entries are in use.  Each
  loop repairs a heap that is broken at one index and only permutes the entries in use.
\<close>

section \<open>The loops\<close>

definition swap :: "'a list \<Rightarrow> nat \<Rightarrow> nat \<Rightarrow> 'a list" where
  "swap h i j = h[i := h ! j, j := h ! i]"

definition parent :: "nat \<Rightarrow> nat" where
  "parent i = (i - 1) div 2"

lemma parent_less: "0 < i \<Longrightarrow> parent i < i"
  by (auto simp: parent_def)

function sift_up :: "'a::linorder list \<Rightarrow> nat \<Rightarrow> 'a list" where
  "sift_up h idx =
     (if 0 < idx then
        (if h ! idx < h ! parent idx then sift_up (swap h idx (parent idx)) (parent idx) else h)
      else h)"
  by auto
termination
  by (relation "measure snd") (auto simp: parent_less)

declare sift_up.simps [simp del]

definition smallest_child :: "'a::linorder list \<Rightarrow> nat \<Rightarrow> nat \<Rightarrow> nat" where
  "smallest_child h n idx =
     (let left = 2 * idx + 1; right = 2 * idx + 2; smallest = idx;
          smallest = (if left < n \<and> h ! left < h ! smallest then left else smallest);
          smallest = (if right < n \<and> h ! right < h ! smallest then right else smallest)
      in smallest)"

lemma smallest_child_cases: "smallest_child h n i \<noteq> i \<Longrightarrow> i < smallest_child h n i \<and> smallest_child h n i < n"
  by (auto simp: smallest_child_def Let_def split: if_splits)

function sift_down :: "'a::linorder list \<Rightarrow> nat \<Rightarrow> nat \<Rightarrow> 'a list" where
  "sift_down h n idx =
     (let s = smallest_child h n idx in
      if s = idx then h else sift_down (swap h idx s) n s)"
  by auto
termination
  by (relation "measure (\<lambda>(h, n, idx). n - idx)") (auto dest: smallest_child_cases)

declare sift_down.simps [simp del]

section \<open>Heaps\<close>

definition heap_ok :: "'a::linorder list \<Rightarrow> nat \<Rightarrow> bool" where
  "heap_ok h n \<longleftrightarrow> (\<forall>j. 0 < j \<and> j < n \<longrightarrow> h ! parent j \<le> h ! j)"

text \<open>A heap that may be broken between index \<open>i\<close> and its parent, or between \<open>i\<close> and its children.\<close>

definition heap_up :: "'a::linorder list \<Rightarrow> nat \<Rightarrow> nat \<Rightarrow> bool" where
  "heap_up h n i \<longleftrightarrow> (\<forall>j. 0 < j \<and> j < n \<and> j \<noteq> i \<longrightarrow> h ! parent j \<le> h ! j)
     \<and> (\<forall>j. 0 < j \<and> j < n \<and> parent j = i \<and> 0 < i \<longrightarrow> h ! parent i \<le> h ! j)"

definition heap_down :: "'a::linorder list \<Rightarrow> nat \<Rightarrow> nat \<Rightarrow> bool" where
  "heap_down h n i \<longleftrightarrow> (\<forall>j. 0 < j \<and> j < n \<and> parent j \<noteq> i \<longrightarrow> h ! parent j \<le> h ! j)
     \<and> (\<forall>j. 0 < j \<and> j < n \<and> parent j = i \<and> 0 < i \<longrightarrow> h ! parent i \<le> h ! j)"

lemma heap_upD:
  "heap_up h n i \<Longrightarrow> 0 < j \<Longrightarrow> j < n \<Longrightarrow> j \<noteq> i \<Longrightarrow> h ! parent j \<le> h ! j"
  "heap_up h n i \<Longrightarrow> 0 < j \<Longrightarrow> j < n \<Longrightarrow> parent j = i \<Longrightarrow> 0 < i \<Longrightarrow> h ! parent i \<le> h ! j"
  by (auto simp: heap_up_def)

lemma heap_downD:
  "heap_down h n i \<Longrightarrow> 0 < j \<Longrightarrow> j < n \<Longrightarrow> parent j \<noteq> i \<Longrightarrow> h ! parent j \<le> h ! j"
  "heap_down h n i \<Longrightarrow> 0 < j \<Longrightarrow> j < n \<Longrightarrow> parent j = i \<Longrightarrow> 0 < i \<Longrightarrow> h ! parent i \<le> h ! j"
  by (auto simp: heap_down_def)

lemma length_swap [simp]: "length (swap h i j) = length h"
  by (simp add: swap_def)

lemma nth_swap:
  "i < length h \<Longrightarrow> j < length h \<Longrightarrow> swap h i j ! k = (if k = i then h ! j else if k = j then h ! i else h ! k)"
  by (auto simp: swap_def nth_list_update)

lemma swap_same_part:
  assumes "i < n" "j < n" "n \<le> length h"
  shows "mset (take n (swap h i j)) = mset (take n h)" and "drop n (swap h i j) = drop n h"
proof -
  have "take n (swap h i j) = (take n h)[i := take n h ! j, j := take n h ! i]"
    using assms by (simp add: swap_def take_update_swap)
  then show "mset (take n (swap h i j)) = mset (take n h)"
    using assms mset_swap [of j "take n h" i] by simp
  show "drop n (swap h i j) = drop n h" using assms by (simp add: swap_def)
qed

lemma heap_root_least: "heap_ok h n \<Longrightarrow> i < n \<Longrightarrow> h ! 0 \<le> h ! i"
proof (induction i rule: less_induct)
  case (less i)
  show ?case
  proof (cases "i = 0")
    case False
    then have "h ! 0 \<le> h ! parent i" "h ! parent i \<le> h ! i"
      using less parent_less [of i] by (auto simp: heap_ok_def)
    then show ?thesis by (rule order_trans)
  qed simp
qed

section \<open>Sifting up\<close>

lemma heap_up_swap:
  assumes up: "heap_up h n i" and i: "0 < i" "i < n" "n \<le> length h" and lt: "h ! i < h ! parent i"
  shows "heap_up (swap h i (parent i)) n (parent i)"
proof -
  let ?p = "parent i" and ?h = "swap h i (parent i)"
  have p: "?p < i" "?p < length h" "i < length h" using parent_less [OF i(1)] i by auto
  note nth = nth_swap [OF p(3,2)]
  have "?h ! parent j \<le> ?h ! j" if j: "0 < j" "j < n" "j \<noteq> ?p" for j
  proof -
    have pj: "parent j < j" by (rule parent_less [OF j(1)])
    consider "j = i" | "j \<noteq> i" "parent j = ?p" | "j \<noteq> i" "parent j = i" | "j \<noteq> i" "parent j \<noteq> i" "parent j \<noteq> ?p"
      by blast
    then show ?thesis
    proof cases
      case 1
      then show ?thesis using lt p(1) by (simp add: nth)
    next
      case 2
      then have "h ! ?p \<le> h ! j" using heap_upD(1) [OF up j(1,2)] by simp
      with 2 lt p(1) j(3) show ?thesis by (simp add: nth)
    next
      case 3
      then have "h ! ?p \<le> h ! j" using heap_upD(2) [OF up j(1,2)] i(1) by simp
      with 3 j(3) show ?thesis by (simp add: nth)
    next
      case 4
      then show ?thesis using heap_upD(1) [OF up j(1,2)] j(3) by (simp add: nth)
    qed
  qed
  moreover have "?h ! parent ?p \<le> ?h ! j" if j: "0 < j" "j < n" "parent j = ?p" "0 < ?p" for j
  proof -
    have g: "h ! parent ?p \<le> h ! ?p" using heap_upD(1) [OF up j(4)] p(1) i(2) by simp
    have pp: "parent ?p < ?p" by (rule parent_less [OF j(4)])
    show ?thesis
    proof (cases "j = i")
      case True
      then show ?thesis using g pp p(1) by (simp add: nth)
    next
      case False
      then have "h ! ?p \<le> h ! j" using heap_upD(1) [OF up j(1,2)] j(3) by simp
      moreover have "j \<noteq> ?p" using parent_less [OF j(1)] j(3) by auto
      ultimately show ?thesis using False g pp p(1) by (auto simp: nth)
    qed
  qed
  ultimately show ?thesis by (auto simp: heap_up_def)
qed

lemma heap_up_ok: "heap_up h n i \<Longrightarrow> i = 0 \<or> h ! parent i \<le> h ! i \<Longrightarrow> heap_ok h n"
  by (auto simp: heap_up_def heap_ok_def)

lemma sift_up_correct:
  "heap_up h n i \<Longrightarrow> i < n \<Longrightarrow> n \<le> length h \<Longrightarrow>
   heap_ok (sift_up h i) n \<and> length (sift_up h i) = length h
   \<and> mset (take n (sift_up h i)) = mset (take n h) \<and> drop n (sift_up h i) = drop n h"
proof (induction h i rule: sift_up.induct)
  case (1 h i)
  show ?case
  proof (cases "0 < i \<and> h ! i < h ! parent i")
    case True
    then have eq: "sift_up h i = sift_up (swap h i (parent i)) (parent i)"
      by (simp add: sift_up.simps [of h i])
    have p: "parent i < n" using parent_less [of i] True 1(3) by simp
    have "heap_up (swap h i (parent i)) n (parent i)"
      using heap_up_swap [OF 1(2) _ 1(3,4)] True by blast
    from 1(1) [OF _ _ this p] True 1(4) show ?thesis
      unfolding eq using swap_same_part [OF 1(3) p 1(4)] by simp
  next
    case False
    then have "sift_up h i = h" by (auto simp: sift_up.simps [of h i])
    moreover have "heap_ok h n" using False heap_up_ok [OF 1(2)] by (auto simp: not_less)
    ultimately show ?thesis by simp
  qed
qed

section \<open>Sifting down\<close>

lemma children: "0 < j \<Longrightarrow> parent j = i \<longleftrightarrow> j = 2 * i + 1 \<or> j = 2 * i + 2"
  unfolding parent_def by presburger

lemma smallest_child_least:
  "smallest_child h n i = i \<or> parent (smallest_child h n i) = i"
  "0 < j \<Longrightarrow> j < n \<Longrightarrow> parent j = i \<Longrightarrow> h ! smallest_child h n i \<le> h ! j"
  "h ! smallest_child h n i \<le> h ! i"
  "smallest_child h n i \<noteq> i \<Longrightarrow> h ! smallest_child h n i < h ! i"
  by (auto simp: smallest_child_def Let_def children split: if_splits)

lemma heap_down_ok: "heap_down h n i \<Longrightarrow> smallest_child h n i = i \<Longrightarrow> heap_ok h n"
  using smallest_child_least(2) [of _ n i h] by (auto simp: heap_down_def heap_ok_def)

lemma heap_down_swap:
  assumes down: "heap_down h n i" and i: "i < n" "n \<le> length h" and s: "smallest_child h n i \<noteq> i"
  shows "heap_down (swap h i (smallest_child h n i)) n (smallest_child h n i)"
proof -
  let ?s = "smallest_child h n i" and ?h = "swap h i (smallest_child h n i)"
  have sc: "i < ?s" "?s < n" "parent ?s = i" "h ! ?s < h ! i"
    using smallest_child_cases [OF s] smallest_child_least(1,4) [of h n i] s by auto
  have len: "i < length h" "?s < length h" using i sc by auto
  note nth = nth_swap [OF len]
  have "?h ! parent j \<le> ?h ! j" if j: "0 < j" "j < n" "parent j \<noteq> ?s" for j
  proof -
    have pj: "parent j < j" by (rule parent_less [OF j(1)])
    consider "j = i" | "j = ?s" | "j \<noteq> i" "j \<noteq> ?s" "parent j = i" | "j \<noteq> i" "j \<noteq> ?s" "parent j \<noteq> i"
      by blast
    then show ?thesis
    proof cases
      case 1
      have "h ! parent i \<le> h ! ?s" using heap_downD(2) [OF down _ sc(2,3)] sc(1) j(1) 1 by simp
      with 1 pj j(3) show ?thesis by (simp add: nth)
    next
      case 2
      then show ?thesis using sc by (simp add: nth)
    next
      case 3
      then show ?thesis using smallest_child_least(2) [OF j(1,2), of i h] by (simp add: nth)
    next
      case 4
      then show ?thesis using heap_downD(1) [OF down j(1,2)] j(3) by (simp add: nth)
    qed
  qed
  moreover have "?h ! parent ?s \<le> ?h ! j" if j: "0 < j" "j < n" "parent j = ?s" for j
  proof -
    have pj: "parent j < j" by (rule parent_less [OF j(1)])
    have "h ! ?s \<le> h ! j" using heap_downD(1) [OF down j(1,2)] j(3) sc(1) by simp
    with sc j pj show ?thesis by (auto simp: nth)
  qed
  ultimately show ?thesis by (auto simp: heap_down_def)
qed

lemma sift_down_correct:
  "heap_down h n i \<Longrightarrow> i < n \<Longrightarrow> n \<le> length h \<Longrightarrow>
   heap_ok (sift_down h n i) n \<and> length (sift_down h n i) = length h
   \<and> mset (take n (sift_down h n i)) = mset (take n h) \<and> drop n (sift_down h n i) = drop n h"
proof (induction h n i rule: sift_down.induct)
  case (1 h n i)
  let ?s = "smallest_child h n i"
  show ?case
  proof (cases "?s = i")
    case True
    then have "sift_down h n i = h" by (simp add: sift_down.simps [of h n i])
    with heap_down_ok [OF 1(2) True] show ?thesis by simp
  next
    case False
    then have eq: "sift_down h n i = sift_down (swap h i ?s) n ?s" by (simp add: sift_down.simps [of h n i] Let_def)
    have s: "?s < n" using smallest_child_cases [OF False] by blast
    from 1(1) [OF refl False heap_down_swap [OF 1(2-4) False] s] 1(4) show ?thesis
      unfolding eq using swap_same_part [OF 1(3) s 1(4)] by simp
  qed
qed

end
