(* ===== verification/Cfs.thy ===== *)
theory Cfs
  imports Binheap Class_Queue Sched_Types
begin

text \<open>
  The fair scheduling class, \<open>kernel/sched/sched/src/fair.rs\<close>: a fixed array of 256 entries that
  holds a binary min-heap ordered by virtual runtime, ties broken by process id.  The abstract view
  of a queue is the multiset of its entries.
\<close>

section \<open>Entries\<close>

datatype CfsEntry = CfsEntry (vruntime: u64) (pid: u32)

instantiation CfsEntry :: linorder
begin

definition less_CfsEntry :: "CfsEntry \<Rightarrow> CfsEntry \<Rightarrow> bool" where
  "less_CfsEntry a b \<longleftrightarrow> vruntime a < vruntime b \<or> vruntime a = vruntime b \<and> pid a < pid b"

definition less_eq_CfsEntry :: "CfsEntry \<Rightarrow> CfsEntry \<Rightarrow> bool" where
  "less_eq_CfsEntry a b \<longleftrightarrow> vruntime a < vruntime b \<or> vruntime a = vruntime b \<and> pid a \<le> pid b"

instance
  by standard (auto simp: less_CfsEntry_def less_eq_CfsEntry_def intro: CfsEntry.expand)

end

definition CfsEntry_EMPTY :: CfsEntry where
  "CfsEntry_EMPTY = CfsEntry (- 1) 0"

section \<open>The queue\<close>

definition SCHED_MIN_GRANULARITY_NS :: u64 where "SCHED_MIN_GRANULARITY_NS = 1000000"
definition SCHED_LATENCY_NS :: u64 where "SCHED_LATENCY_NS = 6000000"
definition WAKEUP_GRANULARITY_NS :: u64 where "WAKEUP_GRANULARITY_NS = 1000000"
definition MAX_CFS_TASKS :: nat where "MAX_CFS_TASKS = 256"

record CfsRunQueue =
  heap :: "CfsEntry list"
  heap_len :: nat
  load_weight :: u64
  min_vruntime :: u64
  cfs_nr_running :: u32

definition CfsRunQueue_new :: CfsRunQueue where
  "CfsRunQueue_new = \<lparr>heap = replicate MAX_CFS_TASKS CfsEntry_EMPTY, heap_len = 0, load_weight = 0,
     min_vruntime = 0, cfs_nr_running = 0\<rparr>"

definition CfsRunQueue_enqueue :: "CfsRunQueue \<Rightarrow> Pid \<Rightarrow> u64 \<Rightarrow> u64 \<Rightarrow> u64 \<times> CfsRunQueue" where
  "CfsRunQueue_enqueue q p vr weight =
     (let adjusted_vruntime = max vr (saturating_sub (min_vruntime q) SCHED_LATENCY_NS);
          q' = (if heap_len q < MAX_CFS_TASKS
                then q\<lparr>heap := sift_up ((heap q)[heap_len q := CfsEntry adjusted_vruntime p]) (heap_len q),
                       heap_len := heap_len q + 1\<rparr>
                else q)
      in (adjusted_vruntime,
          q'\<lparr>load_weight := saturating_add (load_weight q') weight,
             cfs_nr_running := cfs_nr_running q' + 1\<rparr>))"

definition heap_find :: "CfsRunQueue \<Rightarrow> Pid \<Rightarrow> nat option" where
  "heap_find q p = find (\<lambda>i. pid (heap q ! i) = p) [0..<heap_len q]"

definition CfsRunQueue_dequeue :: "CfsRunQueue \<Rightarrow> Pid \<Rightarrow> u64 \<Rightarrow> bool \<times> CfsRunQueue" where
  "CfsRunQueue_dequeue q p weight =
     (case heap_find q p of
        None \<Rightarrow> (False, q)
      | Some pos \<Rightarrow>
          (let len = heap_len q - 1;
               h = (if pos < len then
                      (let h = (heap q)[pos := heap q ! len, len := CfsEntry_EMPTY] in
                       if 0 < pos \<and> h ! pos < h ! parent pos then sift_up h pos else sift_down h len pos)
                    else (heap q)[len := CfsEntry_EMPTY])
           in (True, q\<lparr>heap := h, heap_len := len, load_weight := saturating_sub (load_weight q) weight,
                       cfs_nr_running := saturating_sub (cfs_nr_running q) 1\<rparr>)))"

definition CfsRunQueue_pick_next :: "CfsRunQueue \<Rightarrow> Pid option" where
  "CfsRunQueue_pick_next q = (if 0 < heap_len q then Some (pid (heap q ! 0)) else None)"

definition CfsRunQueue_pop_next :: "u64 \<Rightarrow> CfsRunQueue \<Rightarrow> Pid option \<times> CfsRunQueue" where
  "CfsRunQueue_pop_next weight q =
     (if heap_len q = 0 then (None, q)
      else
        (let min_pid = pid (heap q ! 0); len = heap_len q - 1;
             h = (if 0 < len
                  then sift_down ((heap q)[0 := heap q ! len, len := CfsEntry_EMPTY]) len 0
                  else (heap q)[0 := CfsEntry_EMPTY])
         in (Some min_pid, q\<lparr>heap := h, heap_len := len,
               load_weight := saturating_sub (load_weight q) weight,
               cfs_nr_running := saturating_sub (cfs_nr_running q) 1\<rparr>)))"

definition CfsRunQueue_update_min_vruntime :: "CfsRunQueue \<Rightarrow> u64 \<Rightarrow> CfsRunQueue" where
  "CfsRunQueue_update_min_vruntime q curr_vruntime =
     (let new_min = (if 0 < heap_len q then vruntime (heap q ! 0) else curr_vruntime) in
      q\<lparr>min_vruntime := max (min_vruntime q) new_min\<rparr>)"

definition CfsRunQueue_is_empty :: "CfsRunQueue \<Rightarrow> bool" where
  "CfsRunQueue_is_empty q \<longleftrightarrow> cfs_nr_running q = 0"

definition CfsRunQueue_set_min_vruntime :: "CfsRunQueue \<Rightarrow> u64 \<Rightarrow> CfsRunQueue" where
  "CfsRunQueue_set_min_vruntime q vr = q\<lparr>min_vruntime := vr\<rparr>"

text \<open>The products and quotients are taken in 128 bits and truncated to 64 bits.\<close>

definition CfsRunQueue_calc_ideal_runtime :: "CfsRunQueue \<Rightarrow> u64 \<Rightarrow> u64" where
  "CfsRunQueue_calc_ideal_runtime q weight =
     (if load_weight q = 0 then SCHED_LATENCY_NS
      else
        (let scaled = (ucast weight :: u128) * ucast SCHED_LATENCY_NS;
             ideal = ucast (scaled div ucast (load_weight q)) :: u64
         in max ideal SCHED_MIN_GRANULARITY_NS))"

definition calc_vruntime_delta :: "u64 \<Rightarrow> u64 \<Rightarrow> u64" where
  "calc_vruntime_delta delta_exec weight =
     (if weight = 0 then delta_exec
      else ucast (((ucast delta_exec :: u128) * ucast NICE_0_WEIGHT) div ucast weight))"

section \<open>Invariant and abstraction\<close>

definition cfs_entries :: "CfsRunQueue \<Rightarrow> CfsEntry multiset" where
  "cfs_entries q = mset (take (heap_len q) (heap q))"

definition cfs_inv :: "CfsRunQueue \<Rightarrow> bool" where
  "cfs_inv q \<longleftrightarrow> length (heap q) = MAX_CFS_TASKS \<and> heap_len q \<le> MAX_CFS_TASKS
     \<and> heap_ok (heap q) (heap_len q) \<and> cfs_nr_running q = of_nat (heap_len q)"

lemma cfs_inv_new: "cfs_inv CfsRunQueue_new"
  by (simp add: cfs_inv_def CfsRunQueue_new_def heap_ok_def)

lemma size_cfs_entries: "cfs_inv q \<Longrightarrow> size (cfs_entries q) = heap_len q"
  by (simp add: cfs_inv_def cfs_entries_def min_def)

lemma cfs_entries_empty: "cfs_inv q \<Longrightarrow> cfs_entries q = {#} \<longleftrightarrow> heap_len q = 0"
  using size_cfs_entries [of q] by (metis size_empty size_eq_0_iff_empty)

section \<open>Insertion\<close>

lemma heap_up_append:
  assumes "heap_ok h n" "n < length h"
  shows "heap_up (h[n := e]) (n + 1) n"
proof -
  have "(h[n := e]) ! parent j \<le> (h[n := e]) ! j" if j: "0 < j" "j < n" for j
    using assms parent_less [OF j(1)] j by (auto simp: heap_ok_def)
  moreover have "parent j \<noteq> n" if "0 < j" "j < n + 1" for j using parent_less [OF that(1)] that(2) by simp
  ultimately show ?thesis by (auto simp: heap_up_def less_Suc_eq)
qed

lemma mset_take_append: "n < length h \<Longrightarrow> mset (take (n + 1) (h[n := e])) = add_mset e (mset (take n h))"
  by (simp add: take_Suc_conv_app_nth)

lemma enqueue_entries:
  assumes inv: "cfs_inv q" and room: "heap_len q < MAX_CFS_TASKS"
    and res: "CfsRunQueue_enqueue q p vr w = (avr, q')"
  shows "cfs_inv q'" "cfs_entries q' = add_mset (CfsEntry avr p) (cfs_entries q)"
    and "avr = max vr (saturating_sub (min_vruntime q) SCHED_LATENCY_NS)"
proof -
  let ?h = "(heap q)[heap_len q := CfsEntry avr p]"
  show avr: "avr = max vr (saturating_sub (min_vruntime q) SCHED_LATENCY_NS)"
    using res by (auto simp: CfsRunQueue_enqueue_def Let_def)
  have h': "heap q' = sift_up ?h (heap_len q)" "heap_len q' = heap_len q + 1"
    "cfs_nr_running q' = cfs_nr_running q + 1"
    using res room avr by (auto simp: CfsRunQueue_enqueue_def Let_def)
  have len: "heap_len q < length (heap q)" using inv room by (simp add: cfs_inv_def)
  then have "heap_up ?h (heap_len q + 1) (heap_len q)"
    using inv by (intro heap_up_append) (simp_all add: cfs_inv_def)
  from sift_up_correct [OF this] len have ok: "heap_ok (heap q') (heap_len q')"
    "length (heap q') = length (heap q)" "mset (take (heap_len q') (heap q')) = mset (take (heap_len q + 1) ?h)"
    by (simp_all add: h')
  show "cfs_inv q'" using inv ok h' room by (simp add: cfs_inv_def)
  show "cfs_entries q' = add_mset (CfsEntry avr p) (cfs_entries q)"
    unfolding cfs_entries_def ok(3) by (rule mset_take_append [OF len])
qed

section \<open>Removal\<close>

text \<open>Moving the last entry to a vacated position breaks the heap at that position only.\<close>

lemma heap_replace:
  fixes h :: "'a::linorder list" and e :: 'a
  assumes ok: "heap_ok h (Suc n)" and len: "Suc n \<le> length h" and pos: "pos < n"
  defines "h' \<equiv> h[pos := h ! n, n := e]"
  shows "0 < pos \<and> h' ! pos < h' ! parent pos \<Longrightarrow> heap_up h' n pos"
    and "\<not> (0 < pos \<and> h' ! pos < h' ! parent pos) \<Longrightarrow> heap_down h' n pos"
proof -
  have nth: "h' ! j = (if j = pos then h ! n else h ! j)" if "j < n" for j
    using that pos len by (simp add: h'_def nth_list_update)
  have step: "h ! parent j \<le> h ! j" if "0 < j" "j < Suc n" for j using ok that by (simp add: heap_ok_def)
  have other: "h' ! parent j \<le> h' ! j" if "0 < j" "j < n" "j \<noteq> pos" "parent j \<noteq> pos" for j
    using that step [of j] parent_less [of j] by (simp add: nth)
  have grand: "h' ! parent pos \<le> h' ! j" if "0 < j" "j < n" "parent j = pos" "0 < pos" for j
  proof -
    have "h ! parent pos \<le> h ! pos" "h ! pos \<le> h ! j" using step [of pos] step [of j] that pos by auto
    then show ?thesis using that parent_less [of pos] parent_less [of j] pos by (simp add: nth)
  qed
  have below: "h ! parent pos \<le> h' ! j" if "0 < j" "j < n" "parent j = pos" "0 < pos" for j
    using grand [OF that] parent_less [of pos] that pos by (simp add: nth)
  {
    assume up: "0 < pos \<and> h' ! pos < h' ! parent pos"
    have "h' ! parent j \<le> h' ! j" if "0 < j" "j < n" "j \<noteq> pos" for j
      using other [OF that] up grand [OF that(1,2)] by (cases "parent j = pos") auto
    with grand show "heap_up h' n pos" by (auto simp: heap_up_def)
  }
  {
    assume "\<not> (0 < pos \<and> h' ! pos < h' ! parent pos)"
    then have "h' ! parent j \<le> h' ! j" if "0 < j" "j < n" "parent j \<noteq> pos" for j
      using other [OF that(1,2)] that by (cases "j = pos") auto
    with grand show "heap_down h' n pos" by (auto simp: heap_down_def)
  }
qed

lemma mset_replace:
  assumes "pos < n" "n < length h"
  shows "mset (take n (h[pos := h ! n, n := e])) = mset (take (Suc n) h) - {#h ! pos#}"
proof -
  have "take n (h[pos := h ! n, n := e]) = (take n h)[pos := h ! n]"
    by (simp only: take_update_cancel [OF order_refl] take_update_swap)
  then show ?thesis
    using assms mset_update [of pos "take n h" "h ! n"] nth_mem_mset [of pos "take n h"]
    by (simp add: take_Suc_conv_app_nth)
qed

lemma heap_ok_less: "heap_ok h n \<Longrightarrow> m \<le> n \<Longrightarrow> heap_ok h m"
  by (simp add: heap_ok_def)

lemma heap_ok_update_end: "heap_ok h n \<Longrightarrow> heap_ok (h[n := e]) n"
proof -
  assume ok: "heap_ok h n"
  have "(h[n := e]) ! parent j \<le> (h[n := e]) ! j" if "0 < j" "j < n" for j
    using ok that parent_less [OF that(1)] by (simp add: heap_ok_def)
  then show ?thesis by (simp add: heap_ok_def)
qed

lemma heap_find_None: "heap_find q p = None \<longleftrightarrow> (\<forall>i < heap_len q. pid (heap q ! i) \<noteq> p)"
  by (auto simp: heap_find_def find_None_iff)

lemma heap_find_Some:
  "heap_find q p = Some i \<Longrightarrow> i < heap_len q \<and> pid (heap q ! i) = p"
  by (auto simp: heap_find_def find_Some_iff)

lemma of_nat_pred_u32: "0 < n \<Longrightarrow> n \<le> 256 \<Longrightarrow> saturating_sub (of_nat n) 1 = (of_nat (n - 1) :: u32)"
proof -
  assume n: "0 < n" "n \<le> 256"
  then have "unat (of_nat n :: u32) = n" by (simp add: unat_of_nat take_bit_nat_eq_self)
  then have "\<not> (of_nat n :: u32) < 1" using n by (simp add: word_less_nat_alt)
  with n show ?thesis by (simp add: saturating_sub_def of_nat_diff)
qed

text \<open>Both removals take out the entry at a position and leave a well-formed queue.\<close>

lemma removed_at:
  assumes inv: "cfs_inv q" and len: "heap_len q = Suc n" and pos: "pos \<le> n"
    and h': "h' = (if pos < n then
        (let h = (heap q)[pos := heap q ! n, n := CfsEntry_EMPTY] in
         if 0 < pos \<and> h ! pos < h ! parent pos then sift_up h pos else sift_down h n pos)
      else (heap q)[n := CfsEntry_EMPTY])"
  shows "heap_ok h' n" "length h' = length (heap q)" "mset (take n h') = cfs_entries q - {#heap q ! pos#}"
proof -
  have ok: "heap_ok (heap q) (Suc n)" "Suc n \<le> length (heap q)" using inv len by (auto simp: cfs_inv_def)
  have "heap_ok h' n \<and> length h' = length (heap q) \<and> mset (take n h') = mset (take (Suc n) (heap q)) - {#heap q ! pos#}"
  proof (cases "pos < n")
    case True
    let ?h = "(heap q)[pos := heap q ! n, n := CfsEntry_EMPTY]"
    have m: "mset (take n ?h) = mset (take (Suc n) (heap q)) - {#heap q ! pos#}"
      using ok(2) by (intro mset_replace [OF True]) simp
    note rep = heap_replace [OF ok True, of CfsEntry_EMPTY]
    show ?thesis
    proof (cases "0 < pos \<and> ?h ! pos < ?h ! parent pos")
      case up: True
      have "h' = sift_up ?h pos" unfolding h' using True up by (simp only: Let_def if_True simp_thms)
      with sift_up_correct [OF rep(1) [OF up] True] ok(2) m show ?thesis by simp
    next
      case down: False
      have "h' = sift_down ?h n pos" unfolding h' using True down by (simp only: Let_def if_True if_False simp_thms)
      with sift_down_correct [OF rep(2) [OF down] True] ok(2) m show ?thesis by simp
    qed
  next
    case False
    with pos have [simp]: "pos = n" by simp
    have "heap_ok h' n" using h' heap_ok_update_end [OF heap_ok_less [OF ok(1)]] by simp
    then show ?thesis using h' ok(2) by (simp add: take_Suc_conv_app_nth)
  qed
  then show "heap_ok h' n" "length h' = length (heap q)" "mset (take n h') = cfs_entries q - {#heap q ! pos#}"
    by (simp_all add: cfs_entries_def len)
qed

lemma cfs_dequeue_Some:
  assumes inv: "cfs_inv q" and f: "heap_find q p = Some pos"
  obtains q' where "CfsRunQueue_dequeue q p w = (True, q')" "cfs_inv q'"
    "cfs_entries q' = cfs_entries q - {#heap q ! pos#}"
proof -
  have pos: "pos < heap_len q" using heap_find_Some [OF f] by blast
  then obtain n where n: "heap_len q = Suc n" by (cases "heap_len q") auto
  obtain q' where q': "CfsRunQueue_dequeue q p w = (True, q')"
    using f by (simp add: CfsRunQueue_dequeue_def Let_def)
  have eqs: "heap_len q' = n" "cfs_nr_running q' = saturating_sub (cfs_nr_running q) 1"
    and h': "heap q' = (if pos < n then
        (let h = (heap q)[pos := heap q ! n, n := CfsEntry_EMPTY] in
         if 0 < pos \<and> h ! pos < h ! parent pos then sift_up h pos else sift_down h n pos)
      else (heap q)[n := CfsEntry_EMPTY])"
    using q' f n by (auto simp: CfsRunQueue_dequeue_def Let_def)
  note rm = removed_at [OF inv n _ h']
  have le: "pos \<le> n" using pos n by simp
  have "cfs_inv q'"
    using inv rm(1,2) [OF le] n eqs of_nat_pred_u32 [of "Suc n"] by (simp add: cfs_inv_def MAX_CFS_TASKS_def)
  moreover have "cfs_entries q' = cfs_entries q - {#heap q ! pos#}"
    using rm(3) [OF le] by (simp add: cfs_entries_def [of q'] eqs)
  ultimately show thesis using that q' by blast
qed

lemma pop_next_Some:
  assumes inv: "cfs_inv q" and ne: "0 < heap_len q"
  obtains q' where "CfsRunQueue_pop_next w q = (Some (pid (heap q ! 0)), q')" "cfs_inv q'"
    "cfs_entries q' = cfs_entries q - {#heap q ! 0#}" "min_vruntime q' = min_vruntime q"
proof -
  obtain n where n: "heap_len q = Suc n" using ne by (cases "heap_len q") auto
  obtain q' where q': "CfsRunQueue_pop_next w q = (Some (pid (heap q ! 0)), q')"
    using ne by (simp add: CfsRunQueue_pop_next_def Let_def)
  have eqs: "heap_len q' = n" "cfs_nr_running q' = saturating_sub (cfs_nr_running q) 1"
    "min_vruntime q' = min_vruntime q"
    and h': "heap q' = (if 0 < n then
        (let h = (heap q)[0 := heap q ! n, n := CfsEntry_EMPTY] in
         if 0 < (0 :: nat) \<and> h ! 0 < h ! parent 0 then sift_up h 0 else sift_down h n 0)
      else (heap q)[n := CfsEntry_EMPTY])"
    using q' n by (auto simp: CfsRunQueue_pop_next_def Let_def split: if_splits)
  note rm = removed_at [OF inv n _ h']
  have "cfs_inv q'"
    using inv rm(1,2) n eqs of_nat_pred_u32 [of "Suc n"] by (simp add: cfs_inv_def MAX_CFS_TASKS_def)
  moreover have "cfs_entries q' = cfs_entries q - {#heap q ! 0#}"
    using rm(3) by (simp add: cfs_entries_def [of q'] eqs)
  ultimately show thesis using that q' eqs(3) by blast
qed

lemma heap_root_Min:
  assumes "cfs_inv q" "0 < heap_len q"
  shows "heap q ! 0 = Min_mset (cfs_entries q)"
proof (rule Min_eqI [symmetric])
  show "heap q ! 0 \<le> e" if "e \<in> set_mset (cfs_entries q)" for e
  proof -
    obtain i where "i < heap_len q" "heap q ! i = e"
      using \<open>e \<in># cfs_entries q\<close> assms(1) by (auto simp: cfs_entries_def cfs_inv_def in_set_conv_nth)
    then show ?thesis using assms(1) heap_root_least by (auto simp: cfs_inv_def)
  qed
  show "heap q ! 0 \<in> set_mset (cfs_entries q)"
    using assms by (auto simp: cfs_entries_def cfs_inv_def in_set_conv_nth intro!: exI [of _ 0])
qed simp

section \<open>The class queue\<close>

definition cfs_pids :: "CfsRunQueue \<Rightarrow> u32 multiset" where
  "cfs_pids q = image_mset pid (cfs_entries q)"

lemma heap_find_absent: "cfs_inv q \<Longrightarrow> heap_find q p = None \<longleftrightarrow> p \<notin># cfs_pids q"
  by (fastforce simp: heap_find_None cfs_pids_def cfs_entries_def cfs_inv_def in_set_conv_nth)

lemma Min_mset_in: "M \<noteq> {#} \<Longrightarrow> Min_mset M \<in># M"
  by (meson Min_in finite_set_mset set_mset_eq_empty_iff)

lemma pop_next_cases:
  assumes "cfs_inv q"
  shows "cfs_entries q = {#} \<Longrightarrow> CfsRunQueue_pop_next w q = (None, q) \<and> CfsRunQueue_pick_next q = None"
    and "cfs_entries q \<noteq> {#} \<Longrightarrow> \<exists>q'. CfsRunQueue_pop_next w q = (Some (pid (Min_mset (cfs_entries q))), q')
      \<and> cfs_inv q' \<and> cfs_entries q' = cfs_entries q - {#Min_mset (cfs_entries q)#}
      \<and> min_vruntime q' = min_vruntime q
      \<and> CfsRunQueue_pick_next q = Some (pid (Min_mset (cfs_entries q)))"
proof -
  assume "cfs_entries q = {#}"
  then show "CfsRunQueue_pop_next w q = (None, q) \<and> CfsRunQueue_pick_next q = None"
    using cfs_entries_empty [OF assms] by (simp add: CfsRunQueue_pop_next_def CfsRunQueue_pick_next_def)
next
  assume "cfs_entries q \<noteq> {#}"
  then have ne: "0 < heap_len q" using cfs_entries_empty [OF assms] by simp
  show "\<exists>q'. CfsRunQueue_pop_next w q = (Some (pid (Min_mset (cfs_entries q))), q')
      \<and> cfs_inv q' \<and> cfs_entries q' = cfs_entries q - {#Min_mset (cfs_entries q)#}
      \<and> min_vruntime q' = min_vruntime q
      \<and> CfsRunQueue_pick_next q = Some (pid (Min_mset (cfs_entries q)))"
    unfolding heap_root_Min [OF assms ne, symmetric]
    by (rule pop_next_Some [OF assms ne, of w]) (simp add: CfsRunQueue_pick_next_def ne)
qed

interpretation cfsq: class_queue cfs_inv cfs_pids CfsRunQueue_pick_next "CfsRunQueue_pop_next w" for w
proof unfold_locales
  fix q p q'
  assume inv: "cfs_inv q"
  note pop = pop_next_cases [OF inv, where w = w]
  show "CfsRunQueue_pick_next q = None \<longleftrightarrow> cfs_pids q = {#}"
    using pop by (cases "cfs_entries q = {#}") (auto simp: cfs_pids_def)
  show "p \<in># cfs_pids q" if "CfsRunQueue_pick_next q = Some p"
    using that pop Min_mset_in [of "cfs_entries q"]
    by (cases "cfs_entries q = {#}") (auto simp: cfs_pids_def intro!: imageI)
  show "fst (CfsRunQueue_pop_next w q) = CfsRunQueue_pick_next q"
    using pop by (cases "cfs_entries q = {#}") auto
  show "cfs_inv q' \<and> cfs_pids q' = cfs_pids q - {#p#}" if "CfsRunQueue_pop_next w q = (Some p, q')"
    using that pop Min_mset_in [of "cfs_entries q"]
    by (cases "cfs_entries q = {#}") (auto simp: cfs_pids_def image_mset_Diff)
  show "q' = q" if "CfsRunQueue_pop_next w q = (None, q')"
    using that pop by (cases "cfs_entries q = {#}") auto
qed

lemma sorted_list_of_multiset_Min:
  assumes "M \<noteq> {#}"
  shows "sorted_list_of_multiset M = Min_mset M # sorted_list_of_multiset (M - {#Min_mset M#})"
proof -
  let ?xs = "Min_mset M # sorted_list_of_multiset (M - {#Min_mset M#})"
  have "mset ?xs = M" using Min_mset_in [OF assms] by simp
  then have "sorted_list_of_multiset M = sort ?xs" by (metis sorted_list_of_multiset_mset)
  moreover have "sorted ?xs" by (auto dest: in_diffD)
  ultimately show ?thesis by (simp only: sorted_sort_id)
qed

text \<open>The virtual runtimes in the order in which removals hand the tasks out.\<close>

primrec cfs_dispatch :: "nat \<Rightarrow> u64 \<Rightarrow> CfsRunQueue \<Rightarrow> CfsEntry list" where
  "cfs_dispatch 0 w q = []"
| "cfs_dispatch (Suc n) w q =
     (case CfsRunQueue_pop_next w q of
        (None, _) \<Rightarrow> []
      | (Some p, q') \<Rightarrow> CfsEntry (vruntime (heap q ! 0)) p # cfs_dispatch n w q')"

lemma cfs_dispatch_sorted:
  "cfs_inv q \<Longrightarrow> heap_len q \<le> n \<Longrightarrow> cfs_dispatch n w q = sorted_list_of_multiset (cfs_entries q)"
proof (induction n arbitrary: q)
  case 0
  then show ?case using cfs_entries_empty [of q] by simp
next
  case (Suc n)
  show ?case
  proof (cases "heap_len q = 0")
    case True
    then have "cfs_entries q = {#}" using cfs_entries_empty [OF Suc.prems(1)] by simp
    with pop_next_cases(1) [OF Suc.prems(1) this] show ?thesis by simp
  next
    case False
    then have ne: "0 < heap_len q" by simp
    obtain q' where q': "CfsRunQueue_pop_next w q = (Some (pid (heap q ! 0)), q')" "cfs_inv q'"
      "cfs_entries q' = cfs_entries q - {#heap q ! 0#}"
      by (rule pop_next_Some [OF Suc.prems(1) ne, of w])
    have root: "heap q ! 0 \<in># cfs_entries q"
      using Suc.prems(1) ne by (auto simp: cfs_entries_def cfs_inv_def in_set_conv_nth intro!: exI [of _ 0])
    then have "heap_len q' \<le> n"
      using Suc.prems(2) size_cfs_entries [OF q'(2)] size_cfs_entries [OF Suc.prems(1)] q'(3)
      by (simp add: size_Diff_singleton)
    from Suc.IH [OF q'(2) this] have "cfs_dispatch (Suc n) w q
        = heap q ! 0 # sorted_list_of_multiset (cfs_entries q - {#heap q ! 0#})"
      using q' by simp
    moreover have "cfs_entries q \<noteq> {#}" using root by auto
    note sorted_list_of_multiset_Min [OF this, folded heap_root_Min [OF Suc.prems(1) ne]]
    ultimately show ?thesis by (rule trans [OF _ sym])
  qed
qed

section \<open>Arithmetic of shares\<close>

lemma unat_ucast_u128: "unat (ucast w :: u128) = unat w" for w :: u64
  by (simp add: unsigned_ucast_eq take_bit_nat_eq_self unat_u64_less less_trans [OF unat_u64_less])

lemma unat_scaled_div:
  fixes d w :: u64
  assumes "k < 2 ^ 32" "w \<noteq> 0"
  shows "unat (ucast (((ucast d :: u128) * of_nat k) div ucast w) :: u64) = (unat d * k div unat w) mod 2 ^ 64"
proof -
  have k: "unat (of_nat k :: u128) = k" using assms(1) by (simp add: unat_of_nat take_bit_nat_eq_self)
  have "unat d * k < 2 ^ 64 * 2 ^ 32"
    using assms(1) unat_u64_less [of d] by (intro mult_strict_mono) auto
  then have "unat d * k < 2 ^ 128" by simp
  then have "unat ((ucast d :: u128) * of_nat k) = unat d * k"
    by (simp add: unat_word_ariths unat_ucast_u128 k)
  then have "unat (((ucast d :: u128) * of_nat k) div ucast w) = unat d * k div unat w"
    by (simp add: unat_div unat_ucast_u128)
  then show ?thesis by (simp add: unsigned_ucast_eq take_bit_eq_mod)
qed

section \<open>Properties\<close>

text \<open>A queue with one task, the concrete input of the instances below.\<close>

lemma cfs_single:
  shows "cfs_inv (snd (CfsRunQueue_enqueue CfsRunQueue_new p vr w))"
    and "cfs_entries (snd (CfsRunQueue_enqueue CfsRunQueue_new p vr w)) = {#CfsEntry vr p#}"
proof -
  let ?e = "CfsRunQueue_enqueue CfsRunQueue_new p vr w"
  note e = enqueue_entries [OF cfs_inv_new, of p vr w "fst ?e" "snd ?e"]
  have "heap_len CfsRunQueue_new < MAX_CFS_TASKS" by (simp add: CfsRunQueue_new_def MAX_CFS_TASKS_def)
  note e = e [OF this, simplified]
  show "cfs_inv (snd ?e)" by (rule e(1))
  have "fst ?e = vr"
    by (simp add: CfsRunQueue_enqueue_def CfsRunQueue_new_def saturating_sub_def SCHED_LATENCY_NS_def Let_def)
  with e(2) show "cfs_entries (snd ?e) = {#CfsEntry vr p#}" by (simp add: cfs_entries_def CfsRunQueue_new_def)
qed

text \<open>
  C25. Removal refines taking the minimum out of the multiset of entries: the task with the least
  virtual runtime, the lower process id among equals, is handed out, exactly its entry disappears,
  \<open>pick_next\<close> announces the same task, and an empty queue is left as it is.
\<close>

theorem cfs_pop_next_refines_min:
  assumes "cfs_inv q"
  shows "case CfsRunQueue_pop_next w q of
      (None, q') \<Rightarrow> q' = q \<and> cfs_entries q = {#} \<and> CfsRunQueue_pick_next q = None
    | (Some p, q') \<Rightarrow> p = pid (Min_mset (cfs_entries q)) \<and> Min_mset (cfs_entries q) \<in># cfs_entries q
        \<and> cfs_entries q' = cfs_entries q - {#Min_mset (cfs_entries q)#}
        \<and> cfs_inv q' \<and> CfsRunQueue_pick_next q = Some p"
  using pop_next_cases [OF assms, of w] Min_mset_in [of "cfs_entries q"]
  by (cases "cfs_entries q = {#}") auto

theorem cfs_pop_next_refines_min_witness:
  "fst (CfsRunQueue_pop_next 1024 (snd (CfsRunQueue_enqueue CfsRunQueue_new 7 5 1024))) = Some 7"
  using cfs_pop_next_refines_min [OF cfs_single(1) [of 7 5 1024], of 1024]
  by (auto simp: cfs_single split: prod.splits option.splits)

text \<open>
  C26. Popping a queue until it is empty dispatches its tasks in the order of their virtual
  runtimes, each exactly once.
\<close>

theorem cfs_dispatch_order:
  assumes "cfs_inv q"
  shows "cfs_dispatch (heap_len q) w q = sorted_list_of_multiset (cfs_entries q)"
  by (rule cfs_dispatch_sorted [OF assms order_refl])

theorem cfs_dispatch_order_witness:
  "cfs_dispatch (heap_len (snd (CfsRunQueue_enqueue CfsRunQueue_new 7 5 1024))) 1024
     (snd (CfsRunQueue_enqueue CfsRunQueue_new 7 5 1024)) = [CfsEntry 5 7]"
  using cfs_dispatch_order [OF cfs_single(1) [of 7 5 1024], of 1024]
  by (simp add: cfs_single)

text \<open>
  C27. With room in the heap, enqueueing adds one entry for the task and keeps the invariant.  The
  virtual runtime it gets is never below its own and never more than one scheduling period behind
  the queue's minimum.
\<close>

theorem cfs_enqueue_adds:
  assumes "cfs_inv q" "heap_len q < MAX_CFS_TASKS" "CfsRunQueue_enqueue q p vr weight = (avr, q')"
  shows "cfs_inv q' \<and> cfs_entries q' = add_mset (CfsEntry avr p) (cfs_entries q) \<and> vr \<le> avr
    \<and> unat (min_vruntime q) \<le> unat avr + unat SCHED_LATENCY_NS \<and> min_vruntime q' = min_vruntime q"
proof -
  note e = enqueue_entries [OF assms]
  have "unat avr = max (unat vr) (unat (min_vruntime q) - unat SCHED_LATENCY_NS)"
    unfolding e(3) by (simp add: rust_arith)
  moreover have "min_vruntime q' = min_vruntime q"
    using assms(3) by (auto simp: CfsRunQueue_enqueue_def Let_def)
  ultimately show ?thesis using e by auto
qed

theorem cfs_enqueue_adds_witness:
  "cfs_entries (snd (CfsRunQueue_enqueue CfsRunQueue_new 7 5 1024)) = {#CfsEntry 5 7#}"
proof -
  have "CfsRunQueue_enqueue CfsRunQueue_new 7 5 1024 = (5, snd (CfsRunQueue_enqueue CfsRunQueue_new 7 5 1024))"
    by (simp add: CfsRunQueue_enqueue_def CfsRunQueue_new_def saturating_sub_def SCHED_LATENCY_NS_def Let_def)
  from cfs_enqueue_adds [OF cfs_inv_new _ this] show ?thesis
    by (simp add: cfs_entries_def CfsRunQueue_new_def MAX_CFS_TASKS_def)
qed

text \<open>
  C28. Dequeueing by process id succeeds exactly when the task is queued and then removes exactly
  one of its entries; otherwise nothing changes.
\<close>

theorem cfs_dequeue_removes:
  assumes "cfs_inv q"
  shows "case CfsRunQueue_dequeue q p weight of
      (False, q') \<Rightarrow> q' = q \<and> p \<notin># cfs_pids q
    | (True, q') \<Rightarrow> cfs_inv q' \<and> (\<exists>vr. CfsEntry vr p \<in># cfs_entries q
        \<and> cfs_entries q' = cfs_entries q - {#CfsEntry vr p#})"
proof (cases "heap_find q p")
  case None
  have "p \<notin># cfs_pids q"
    using None heap_find_absent [OF assms] by simp
  with None show ?thesis by (simp add: CfsRunQueue_dequeue_def)
next
  case (Some pos)
  obtain q' where q': "CfsRunQueue_dequeue q p weight = (True, q')" "cfs_inv q'"
    "cfs_entries q' = cfs_entries q - {#heap q ! pos#}"
    by (rule cfs_dequeue_Some [OF assms Some, of weight])
  have "heap q ! pos = CfsEntry (vruntime (heap q ! pos)) p"
    using heap_find_Some [OF Some] by (metis CfsEntry.collapse)
  moreover have "heap q ! pos \<in># cfs_entries q"
    using heap_find_Some [OF Some] assms by (auto simp: cfs_entries_def cfs_inv_def in_set_conv_nth)
  ultimately have "\<exists>vr. CfsEntry vr p \<in># cfs_entries q \<and> cfs_entries q' = cfs_entries q - {#CfsEntry vr p#}"
    using q'(3) by metis
  with q' show ?thesis by simp
qed

theorem cfs_dequeue_removes_witness:
  "fst (CfsRunQueue_dequeue (snd (CfsRunQueue_enqueue CfsRunQueue_new 7 5 1024)) 7 1024)
   \<and> \<not> fst (CfsRunQueue_dequeue (snd (CfsRunQueue_enqueue CfsRunQueue_new 7 5 1024)) 8 1024)"
  using cfs_dequeue_removes [OF cfs_single(1) [of 7 5 1024], of 7 1024]
    cfs_dequeue_removes [OF cfs_single(1) [of 7 5 1024], of 8 1024]
  by (auto simp: cfs_single cfs_pids_def split: prod.splits bool.splits)

text \<open>
  C29. Shares: a task is charged its run time scaled by the ratio of the default weight to its own,
  exactly, and its time slice is its share of the scheduling period but never below the minimal
  granularity; both are exact as long as the result fits in 64 bits.
\<close>

theorem cfs_shares_exact:
  assumes "weight \<noteq> 0" "load_weight q \<noteq> 0"
  shows "unat (calc_vruntime_delta d weight) = (unat d * 1024 div unat weight) mod 2 ^ 64
    \<and> unat (CfsRunQueue_calc_ideal_runtime q weight)
        = max ((unat weight * 6000000 div unat (load_weight q)) mod 2 ^ 64) 1000000"
proof -
  have "ucast NICE_0_WEIGHT = (of_nat 1024 :: u128)" "ucast SCHED_LATENCY_NS = (of_nat 6000000 :: u128)"
    by (simp_all add: NICE_0_WEIGHT_def SCHED_LATENCY_NS_def)
  with assms unat_scaled_div [of 1024 weight d] unat_scaled_div [of 6000000 "load_weight q" weight]
  show ?thesis
    by (simp add: calc_vruntime_delta_def CfsRunQueue_calc_ideal_runtime_def Let_def unat_max
        SCHED_MIN_GRANULARITY_NS_def)
qed

theorem cfs_shares_exact_witness:
  "unat (calc_vruntime_delta 3000 512) = 6000
   \<and> unat (CfsRunQueue_calc_ideal_runtime (CfsRunQueue_new\<lparr>load_weight := 3072\<rparr>) 1024) = 2000000"
  using cfs_shares_exact [of 512 "CfsRunQueue_new\<lparr>load_weight := 3072\<rparr>" 3000]
    cfs_shares_exact [of 1024 "CfsRunQueue_new\<lparr>load_weight := 3072\<rparr>" 3000]
  by simp

end
