(* ===== verification/Task.thy ===== *)
theory Task
  imports Cfs
begin

text \<open>
  The schedulable entity of \<open>kernel/sched/sched/src/task.rs\<close>: its scheduling parameters, its
  accounting and its links in the intrusive list of children, and the buffer for the FPU state of
  \<open>sched-traits\<close>.  A nice value is a Rust \<open>i8\<close> and an exit status an \<open>i32\<close>, both integers here;
  the shared process metadata is a reference.
\<close>

section \<open>The FPU buffer\<close>

text \<open>
  The image must be aligned to 16 bytes, so its offset in the buffer depends on the address of the
  buffer, an argument of the operations.
\<close>

record FxSaveArea =
  fx_data :: "u8 list"

definition FxSaveArea_new :: FxSaveArea where
  "FxSaveArea_new = \<lparr>fx_data = replicate 528 0\<rparr>"

definition aligned_ptr :: "u64 \<Rightarrow> u64" where
  "aligned_ptr base = (base + 15) AND NOT 15"

definition fx_offset :: "u64 \<Rightarrow> nat" where
  "fx_offset base = unat (aligned_ptr base - base)"

definition FxSaveArea_init_defaults :: "u64 \<Rightarrow> FxSaveArea \<Rightarrow> FxSaveArea" where
  "FxSaveArea_init_defaults base a =
     (let p = fx_offset base;
          zeroed = take p (fx_data a) @ replicate 512 0 @ drop (p + 512) (fx_data a)
      in a\<lparr>fx_data := zeroed[p := 0x7F, p + 1 := 0x03, p + 24 := 0x80, p + 25 := 0x1F]\<rparr>)"

text \<open>The defaults are written while the value is a local variable, at the address \<open>base\<close> it has there.\<close>

definition FxSaveArea_default_state :: "u64 \<Rightarrow> FxSaveArea" where
  "FxSaveArea_default_state base = FxSaveArea_init_defaults base FxSaveArea_new"

text \<open>What the FPU loads from a buffer that lies at \<open>base\<close>: the 512 bytes from the aligned pointer on.\<close>

definition fx_image :: "u64 \<Rightarrow> FxSaveArea \<Rightarrow> u8 list" where
  "fx_image base a = take 512 (drop (fx_offset base) (fx_data a))"

section \<open>Saved registers\<close>

record TaskContext =
  tc_rip :: u64
  tc_rsp :: u64
  tc_rflags :: u64
  tc_rax :: u64
  tc_rbx :: u64
  tc_rcx :: u64
  tc_rdx :: u64
  tc_rsi :: u64
  tc_rdi :: u64
  tc_rbp :: u64
  tc_r8 :: u64
  tc_r9 :: u64
  tc_r10 :: u64
  tc_r11 :: u64
  tc_r12 :: u64
  tc_r13 :: u64
  tc_r14 :: u64
  tc_r15 :: u64
  tc_cs :: u64
  tc_ss :: u64
  tc_fs_base :: u64
  tc_gs_base :: u64

definition TaskContext_default :: TaskContext where
  "TaskContext_default = \<lparr>tc_rip = 0, tc_rsp = 0, tc_rflags = 0x202, tc_rax = 0, tc_rbx = 0, tc_rcx = 0, tc_rdx = 0,
     tc_rsi = 0, tc_rdi = 0, tc_rbp = 0, tc_r8 = 0, tc_r9 = 0, tc_r10 = 0, tc_r11 = 0, tc_r12 = 0,
     tc_r13 = 0, tc_r14 = 0, tc_r15 = 0, tc_cs = 0x08, tc_ss = 0x10, tc_fs_base = 0, tc_gs_base = 0\<rparr>"

definition is_schedulable :: "TaskContext \<Rightarrow> bool" where
  "is_schedulable c \<longleftrightarrow> tc_rip c \<noteq> 0 \<and> tc_rsp c \<noteq> 0 \<and> (tc_cs c = 0x08 \<or> tc_cs c = 0x23)"

section \<open>Tasks\<close>

definition PID_NONE :: Pid where "PID_NONE = - 1"

type_synonym MetaRef = nat

record Task =
  t_pid :: Pid
  t_ppid :: Pid
  t_state :: TaskState
  t_policy :: SchedPolicy
  t_context :: TaskContext
  t_fxsave_area :: FxSaveArea
  t_pml4_phys :: u64
  t_user_stack_top :: u64
  t_entry_point :: u64
  t_kernel_preempt_ok :: bool
  t_rt_priority :: u8
  t_time_slice :: u32
  t_nice :: int
  t_weight :: u64
  t_vruntime :: u64
  t_cpu_affinity :: CpuSet
  t_last_cpu :: u32
  t_exec_start :: u64
  t_sum_exec_runtime :: u64
  t_start_time :: u64
  t_preempt_count :: u32
  t_need_resched :: bool
  t_vruntime_charged_this_tick :: bool
  t_kernel_stack :: u64
  t_kernel_stack_size :: u64
  t_on_rq :: bool
  t_first_child :: Pid
  t_sibling_next :: Pid
  t_sibling_prev :: Pid
  t_exit_status :: int
  t_waiting_for_child :: int
  t_meta :: "MetaRef option"

text \<open>The argument \<open>fx\<close> of the constructors is the address of the FPU buffer while it is initialised.\<close>

definition Task_new :: "u64 \<Rightarrow> Pid \<Rightarrow> Pid \<Rightarrow> u64 \<Rightarrow> u64 \<Rightarrow> u64 \<Rightarrow> u64 \<Rightarrow> u64 \<Rightarrow> Task" where
  "Task_new fx p pp kstack ksize pml4 entry stack_top =
    \<lparr>t_pid = p, t_ppid = pp, t_state = TASK_RUNNING, t_policy = Normal, t_context =
     TaskContext_default, t_fxsave_area = FxSaveArea_default_state fx, t_pml4_phys = pml4,
     t_user_stack_top = stack_top, t_entry_point = entry, t_kernel_preempt_ok = False, t_rt_priority
     = 0, t_time_slice = 0, t_nice = 0, t_weight = NICE_0_WEIGHT, t_vruntime = 0, t_cpu_affinity =
     CpuSet_all, t_last_cpu = 0, t_exec_start = 0, t_sum_exec_runtime = 0, t_start_time = 0,
     t_preempt_count = 0, t_need_resched = False, t_vruntime_charged_this_tick = False,
     t_kernel_stack = kstack, t_kernel_stack_size = ksize, t_on_rq = False, t_first_child =
     PID_NONE, t_sibling_next = PID_NONE, t_sibling_prev = PID_NONE, t_exit_status = 0,
     t_waiting_for_child = 0, t_meta = None\<rparr>"

definition Task_new_with_meta ::
  "u64 \<Rightarrow> Pid \<Rightarrow> Pid \<Rightarrow> u64 \<Rightarrow> u64 \<Rightarrow> u64 \<Rightarrow> u64 \<Rightarrow> u64 \<Rightarrow> MetaRef \<Rightarrow> Task" where
  "Task_new_with_meta fx p pp kstack ksize pml4 entry stack_top meta =
    \<lparr>t_pid = p, t_ppid = pp, t_state = TASK_RUNNING, t_policy = Normal, t_context =
     TaskContext_default, t_fxsave_area = FxSaveArea_default_state fx, t_pml4_phys = pml4,
     t_user_stack_top = stack_top, t_entry_point = entry, t_kernel_preempt_ok = False, t_rt_priority
     = 0, t_time_slice = 0, t_nice = 0, t_weight = NICE_0_WEIGHT, t_vruntime = 0, t_cpu_affinity =
     CpuSet_all, t_last_cpu = 0, t_exec_start = 0, t_sum_exec_runtime = 0, t_start_time = 0,
     t_preempt_count = 0, t_need_resched = False, t_vruntime_charged_this_tick = False,
     t_kernel_stack = kstack, t_kernel_stack_size = ksize, t_on_rq = False, t_first_child =
     PID_NONE, t_sibling_next = PID_NONE, t_sibling_prev = PID_NONE, t_exit_status = 0,
     t_waiting_for_child = 0, t_meta = Some meta\<rparr>"

definition Task_new_idle :: "u64 \<Rightarrow> Pid \<Rightarrow> u32 \<Rightarrow> u64 \<Rightarrow> u64 \<Rightarrow> Task" where
  "Task_new_idle fx p cpu kstack ksize =
    \<lparr>t_pid = p, t_ppid = 0, t_state = TASK_RUNNING, t_policy = Idle, t_context =
     TaskContext_default, t_fxsave_area = FxSaveArea_default_state fx, t_pml4_phys = 0,
     t_user_stack_top = 0, t_entry_point = 0, t_kernel_preempt_ok = False, t_rt_priority = 0,
     t_time_slice = 0, t_nice = 19, t_weight = nice_to_weight 19, t_vruntime = 0, t_cpu_affinity =
     CpuSet_single cpu, t_last_cpu = cpu, t_exec_start = 0, t_sum_exec_runtime = 0, t_start_time =
     0, t_preempt_count = 0, t_need_resched = False, t_vruntime_charged_this_tick = False,
     t_kernel_stack = kstack, t_kernel_stack_size = ksize, t_on_rq = False, t_first_child =
     PID_NONE, t_sibling_next = PID_NONE, t_sibling_prev = PID_NONE, t_exit_status = 0,
     t_waiting_for_child = 0, t_meta = None\<rparr>"

definition Task_new_idle_with_meta :: "u64 \<Rightarrow> Pid \<Rightarrow> u32 \<Rightarrow> u64 \<Rightarrow> u64 \<Rightarrow> MetaRef \<Rightarrow> Task" where
  "Task_new_idle_with_meta fx p cpu kstack ksize meta =
    \<lparr>t_pid = p, t_ppid = 0, t_state = TASK_RUNNING, t_policy = Idle, t_context =
     TaskContext_default, t_fxsave_area = FxSaveArea_default_state fx, t_pml4_phys = 0,
     t_user_stack_top = 0, t_entry_point = 0, t_kernel_preempt_ok = False, t_rt_priority = 0,
     t_time_slice = 0, t_nice = 19, t_weight = nice_to_weight 19, t_vruntime = 0, t_cpu_affinity =
     CpuSet_single cpu, t_last_cpu = cpu, t_exec_start = 0, t_sum_exec_runtime = 0, t_start_time =
     0, t_preempt_count = 0, t_need_resched = False, t_vruntime_charged_this_tick = False,
     t_kernel_stack = kstack, t_kernel_stack_size = ksize, t_on_rq = False, t_first_child =
     PID_NONE, t_sibling_next = PID_NONE, t_sibling_prev = PID_NONE, t_exit_status = 0,
     t_waiting_for_child = 0, t_meta = Some meta\<rparr>"

definition Task_set_policy :: "Task \<Rightarrow> SchedPolicy \<Rightarrow> Task" where
  "Task_set_policy t policy =
     (let t' = t\<lparr>t_policy := policy\<rparr> in
      if policy = RoundRobin then t'\<lparr>t_time_slice := default_time_slice policy\<rparr> else t')"

definition Task_set_nice :: "Task \<Rightarrow> int \<Rightarrow> Task" where
  "Task_set_nice t nice =
     (let n = max (- 20) (min 19 nice) in t\<lparr>t_nice := n, t_weight := nice_to_weight n\<rparr>)"

definition Task_set_rt_priority :: "Task \<Rightarrow> u8 \<Rightarrow> Task" where
  "Task_set_rt_priority t prio = t\<lparr>t_rt_priority := max 1 (min 99 prio)\<rparr>"

definition Task_is_rt :: "Task \<Rightarrow> bool" where "Task_is_rt t \<longleftrightarrow> is_realtime (t_policy t)"
definition Task_is_fair :: "Task \<Rightarrow> bool" where "Task_is_fair t \<longleftrightarrow> is_fair (t_policy t)"
definition Task_is_idle :: "Task \<Rightarrow> bool" where "Task_is_idle t \<longleftrightarrow> t_policy t = Idle"

definition Task_can_run_on :: "Task \<Rightarrow> u32 \<Rightarrow> bool" where
  "Task_can_run_on t cpu \<longleftrightarrow> CpuSet_is_set (t_cpu_affinity t) cpu"

definition Task_preempt_disable :: "Task \<Rightarrow> Task" where
  "Task_preempt_disable t = t\<lparr>t_preempt_count := saturating_add (t_preempt_count t) 1\<rparr>"

definition Task_preempt_enable :: "Task \<Rightarrow> Task" where
  "Task_preempt_enable t = t\<lparr>t_preempt_count := saturating_sub (t_preempt_count t) 1\<rparr>"

definition Task_preempt_disabled :: "Task \<Rightarrow> bool" where
  "Task_preempt_disabled t \<longleftrightarrow> 0 < t_preempt_count t"

definition Task_set_need_resched :: "Task \<Rightarrow> Task" where
  "Task_set_need_resched t = t\<lparr>t_need_resched := True\<rparr>"

definition Task_clear_need_resched :: "Task \<Rightarrow> Task" where
  "Task_clear_need_resched t = t\<lparr>t_need_resched := False\<rparr>"

definition Task_account_start :: "Task \<Rightarrow> u64 \<Rightarrow> Task" where
  "Task_account_start t now = t\<lparr>t_exec_start := now\<rparr>"

definition Task_account_stop :: "Task \<Rightarrow> u64 \<Rightarrow> u64 \<times> Task" where
  "Task_account_stop t now =
     (let delta = saturating_sub now (t_exec_start t) in
      (delta, t\<lparr>t_sum_exec_runtime := saturating_add (t_sum_exec_runtime t) delta, t_exec_start := 0\<rparr>))"

definition Task_update_vruntime :: "Task \<Rightarrow> u64 \<Rightarrow> Task" where
  "Task_update_vruntime t delta =
     (let weighted_delta =
        (if 0 < t_weight t
         then ucast (((ucast delta :: u128) * ucast NICE_0_WEIGHT) div ucast (t_weight t))
         else delta)
      in t\<lparr>t_vruntime := saturating_add (t_vruntime t) weighted_delta\<rparr>)"

definition Task_set_pml4_phys :: "Task \<Rightarrow> u64 \<Rightarrow> Task" where
  "Task_set_pml4_phys t pml4 = t\<lparr>t_pml4_phys := pml4\<rparr>"

definition Task_prepend_child :: "Task \<Rightarrow> Pid \<Rightarrow> Pid \<times> Task" where
  "Task_prepend_child t child = (t_first_child t, t\<lparr>t_first_child := child\<rparr>)"

definition Task_unlink_first_child :: "Task \<Rightarrow> Pid \<Rightarrow> Pid \<Rightarrow> Task" where
  "Task_unlink_first_child t child replacement =
     (if t_first_child t = child then t\<lparr>t_first_child := replacement\<rparr> else t)"

definition Task_has_children :: "Task \<Rightarrow> bool" where
  "Task_has_children t \<longleftrightarrow> t_first_child t \<noteq> PID_NONE"

definition Task_wait_for_child :: "Task \<Rightarrow> int \<Rightarrow> Task" where
  "Task_wait_for_child t child =
     (let t' = t\<lparr>t_waiting_for_child := child\<rparr> in
      if child \<noteq> 0 then t'\<lparr>t_state := TASK_INTERRUPTIBLE\<rparr> else t')"

definition Task_is_waiting_for :: "Task \<Rightarrow> Pid \<Rightarrow> bool" where
  "Task_is_waiting_for t child \<longleftrightarrow>
     (if t_waiting_for_child t = 0 then False
      else if t_waiting_for_child t = - 1 then True
      else word_of_int (t_waiting_for_child t) = child)"

definition Task_clear_waiting :: "Task \<Rightarrow> Task" where
  "Task_clear_waiting t = t\<lparr>t_waiting_for_child := 0, t_state := TASK_RUNNING\<rparr>"

definition Task_exit :: "Task \<Rightarrow> int \<Rightarrow> Task" where
  "Task_exit t status = t\<lparr>t_exit_status := status, t_state := TASK_ZOMBIE\<rparr>"

definition Task_set_meta :: "Task \<Rightarrow> MetaRef \<Rightarrow> Task" where
  "Task_set_meta t meta = t\<lparr>t_meta := Some meta\<rparr>"

definition Task_has_meta :: "Task \<Rightarrow> bool" where
  "Task_has_meta t \<longleftrightarrow> t_meta t \<noteq> None"

section \<open>The aligned image\<close>

lemma fx_offset_eq: "fx_offset base = 15 - (unat base + 15) mod 16"
proof -
  have split: "((base + 15) AND NOT 15) + ((base + 15) AND 15) = base + 15"
    using and_not_mask_split [of "base + 15" 4] by (simp add: mask_eq_exp_minus_1)
  have "unat ((base + 15) AND 15) = unat (base + 15) mod 16"
    using unat_and_mask [of "base + 15" 4] by (simp add: mask_eq_exp_minus_1)
  also have "unat (base + 15) mod 16 = (unat base + 15) mod 16"
    by (simp add: unat_word_ariths mod_mod_cancel)
  finally have low: "unat ((base + 15) AND 15) = (unat base + 15) mod 16" .
  have "aligned_ptr base - base = 15 - ((base + 15) AND 15)"
    using split by (simp add: aligned_ptr_def algebra_simps)
  moreover have "(base + 15) AND 15 \<le> 15"
    unfolding word_le_nat_alt low by simp
  ultimately show ?thesis by (simp add: fx_offset_def unat_sub low)
qed

lemma fx_offset_less: "fx_offset base < 16"
  by (simp add: fx_offset_eq)

lemma fx_offset_cong: "unat b mod 16 = unat b' mod 16 \<Longrightarrow> fx_offset b = fx_offset b'"
  unfolding fx_offset_eq by (metis mod_add_left_eq)

lemma length_default_state: "length (fx_data (FxSaveArea_default_state base)) = 528"
  using fx_offset_less [of base] by (simp add: FxSaveArea_default_state_def FxSaveArea_init_defaults_def
      FxSaveArea_new_def Let_def)

lemma default_state_nth:
  assumes "j < 512"
  shows "fx_image b (FxSaveArea_default_state b) ! j
    = (if j = 0 then 0x7F else if j = 1 then 0x03 else if j = 24 then 0x80 else if j = 25 then 0x1F else 0)"
  using assms fx_offset_less [of b]
  by (auto simp: fx_image_def FxSaveArea_default_state_def FxSaveArea_init_defaults_def FxSaveArea_new_def
      Let_def nth_append nth_list_update)

text \<open>
  Moving the initialised value to an address with another remainder modulo 16 shifts the image:
  the control word of the SSE unit is no longer where the FPU reads it.
\<close>

lemma fx_defaults_lost_on_move:
  "fx_image 8 (FxSaveArea_default_state 0) ! 24 = 0" "fx_image 8 (FxSaveArea_default_state 0) ! 16 = 0x80"
proof -
  have "fx_offset 8 = 8" "fx_offset 0 = 0" by (simp_all add: fx_offset_eq)
  then show "fx_image 8 (FxSaveArea_default_state 0) ! 24 = 0"
    "fx_image 8 (FxSaveArea_default_state 0) ! 16 = 0x80"
    by (simp_all add: fx_image_def FxSaveArea_default_state_def FxSaveArea_init_defaults_def
        FxSaveArea_new_def Let_def nth_append nth_list_update)
qed

section \<open>Weights\<close>

lemma NICE_TO_WEIGHT_antitone: "sorted_wrt (\<ge>) NICE_TO_WEIGHT"
  by (simp add: NICE_TO_WEIGHT_def)

lemma nice_to_weight_antitone:
  assumes "n \<le> m"
  shows "nice_to_weight m \<le> nice_to_weight n"
proof -
  define i where "i n = nat (max 0 (min 39 (n + 20)))" for n :: int
  have len: "length NICE_TO_WEIGHT = 40" by (simp add: NICE_TO_WEIGHT_def)
  have "i n \<le> i m" "i m < 40" using assms by (simp_all add: i_def)
  then consider "i n = i m" | "i n < i m" "i m < length NICE_TO_WEIGHT" using len by linarith
  then have "NICE_TO_WEIGHT ! i m \<le> NICE_TO_WEIGHT ! i n"
    by cases (simp, rule sorted_wrt_nth_less [OF NICE_TO_WEIGHT_antitone])
  then show ?thesis by (simp add: nice_to_weight_def i_def)
qed

lemma nice_to_weight_pos: "0 < nice_to_weight n"
proof -
  have "\<forall>w \<in> set NICE_TO_WEIGHT. 0 < w" by (simp add: NICE_TO_WEIGHT_def)
  moreover have "nice_to_weight n \<in> set NICE_TO_WEIGHT"
    unfolding nice_to_weight_def by (intro nth_mem) (simp add: NICE_TO_WEIGHT_def)
  ultimately show ?thesis by blast
qed

lemma set_nice_vruntime:
  assumes "unat d * 1024 < 2 ^ 64"
  shows "unat (t_vruntime (Task_update_vruntime (Task_set_nice t n) d))
    = min (unat (t_vruntime t) + unat d * 1024 div unat (nice_to_weight (max (- 20) (min 19 n)))) (2 ^ 64 - 1)"
proof -
  let ?w = "nice_to_weight (max (- 20) (min 19 n))"
  have "ucast NICE_0_WEIGHT = (of_nat 1024 :: u128)" by (simp add: NICE_0_WEIGHT_def)
  moreover have "unat d * 1024 div unat ?w < 2 ^ 64"
    using assms div_le_dividend [of "unat d * 1024" "unat ?w"] by linarith
  ultimately show ?thesis
    using unat_scaled_div [of 1024 ?w d] nice_to_weight_pos [of "max (- 20) (min 19 n)"]
    by (simp add: Task_update_vruntime_def Task_set_nice_def Let_def unat_saturating_add)
qed

section \<open>Properties\<close>

text \<open>
  The FPU image always fits into the buffer, and a buffer initialised with the default state
  holds the default control words (0x037F for the x87 unit, 0x1F80 for SSE) and zeros wherever it is
  moved, provided that the two addresses agree modulo 16.
\<close>

lemma fx_default_image:
  assumes "unat b mod 16 = unat b' mod 16"
  shows "fx_image b' (FxSaveArea_default_state b)
    = [0x7F, 0x03] @ replicate 22 0 @ [0x80, 0x1F] @ replicate 486 0"
proof (rule nth_equalityI)
  have "fx_image b' (FxSaveArea_default_state b) = fx_image b (FxSaveArea_default_state b)"
    using fx_offset_cong [OF assms] by (simp add: fx_image_def)
  moreover have len: "length (fx_image b (FxSaveArea_default_state b)) = 512"
    using fx_offset_less [of b] by (simp add: fx_image_def length_default_state)
  ultimately show "length (fx_image b' (FxSaveArea_default_state b))
      = length ([0x7F, 0x03] @ replicate 22 0 @ [0x80, 0x1F] @ replicate 486 0)" by simp
  fix j assume "j < length (fx_image b' (FxSaveArea_default_state b))"
  then have "j < 512" using \<open>fx_image b' _ = _\<close> len by simp
  then show "fx_image b' (FxSaveArea_default_state b) ! j
      = ([0x7F, 0x03] @ replicate 22 0 @ [0x80, 0x1F] @ replicate 486 0) ! j"
    unfolding \<open>fx_image b' _ = _\<close> default_state_nth [OF \<open>j < 512\<close>]
    by (auto simp: nth_append nth_Cons split: nat.splits)
qed



end
