(* ===== verification/Runqueue.thy ===== *)
theory Runqueue
  imports Rt Task
begin

text \<open>
  The run queue of one CPU, \<open>kernel/sched/sched/src/runqueue.rs\<close>.  Tasks live in an array of 256
  slots; the free slots are on a stack, and the global table \<open>PID_TO_SLOT\<close> says in which slot the
  task of a process id lies.  The table is shared by all CPUs and is an explicit argument and result
  here; a slot number is only stored and compared, so it is a natural number.  The values of the
  shared process metadata that the tick handler writes (\<open>cpu_time_ns\<close>) are a store indexed by the
  references the tasks hold, and whether a metadata lock is free is an argument.
\<close>

section \<open>State\<close>

definition MAX_TASKS_PER_RQ :: nat where "MAX_TASKS_PER_RQ = 256"
definition SLOT_NONE :: nat where "SLOT_NONE = 65535"
definition MAX_PIDS :: nat where "MAX_PIDS = 4096"

type_synonym SlotTable = "nat \<Rightarrow> nat"
type_synonym CpuTimes = "MetaRef \<Rightarrow> u64"

definition PID_TO_SLOT_init :: SlotTable where
  "PID_TO_SLOT_init = (\<lambda>_. SLOT_NONE)"

record RunQueue =
  rq_cpu :: u32
  rq_curr :: "Pid option"
  rq_idle :: Pid
  rq_nr_running :: u32
  rt_rq :: RtRunQueue
  cfs_rq :: CfsRunQueue
  rq_clock :: u64
  slots :: "Task option list"
  free_stack :: "nat list"
  rq_need_resched :: bool

definition RunQueue_new :: "u32 \<Rightarrow> Pid \<Rightarrow> RunQueue" where
  "RunQueue_new cpu idle_pid =
    \<lparr>rq_cpu = cpu, rq_curr = None, rq_idle = idle_pid, rq_nr_running = 0, rt_rq = RtRunQueue_new,
     cfs_rq = CfsRunQueue_new, rq_clock = 0, slots = replicate MAX_TASKS_PER_RQ None,
     free_stack = rev [0..<MAX_TASKS_PER_RQ], rq_need_resched = False\<rparr>"

section \<open>Slots\<close>

definition slot_get :: "SlotTable \<Rightarrow> RunQueue \<Rightarrow> Pid \<Rightarrow> Task option" where
  "slot_get g rq p =
     (if MAX_PIDS \<le> unat p then None
      else
        (let slot = g (unat p) in
         if MAX_TASKS_PER_RQ \<le> slot then None
         else case slots rq ! slot of None \<Rightarrow> None | Some t \<Rightarrow> if t_pid t = p then Some t else None))"

text \<open>What the callers of \<open>slot_get_mut\<close> do with the reference: \<open>if let Some(t) = ... { *t = f(t) }\<close>.\<close>

definition slot_get_mut :: "SlotTable \<Rightarrow> RunQueue \<Rightarrow> Pid \<Rightarrow> (Task \<Rightarrow> Task) \<Rightarrow> RunQueue" where
  "slot_get_mut g rq p f =
     (if MAX_PIDS \<le> unat p then rq
      else
        (let slot = g (unat p) in
         if MAX_TASKS_PER_RQ \<le> slot then rq
         else case slots rq ! slot of
             None \<Rightarrow> rq
           | Some t \<Rightarrow> if t_pid t = p then rq\<lparr>slots := (slots rq)[slot := Some (f t)]\<rparr> else rq))"

definition alloc_slot :: "RunQueue \<Rightarrow> nat option \<times> RunQueue" where
  "alloc_slot rq =
     (if free_stack rq = [] then (None, rq)
      else (Some (last (free_stack rq)), rq\<lparr>free_stack := butlast (free_stack rq)\<rparr>))"

definition free_slot :: "RunQueue \<Rightarrow> nat \<Rightarrow> RunQueue" where
  "free_slot rq slot = rq\<lparr>free_stack := free_stack rq @ [slot]\<rparr>"

definition RunQueue_set_curr :: "RunQueue \<Rightarrow> Pid option \<Rightarrow> RunQueue" where
  "RunQueue_set_curr rq p = rq\<lparr>rq_curr := p\<rparr>"

definition RunQueue_set_need_resched :: "RunQueue \<Rightarrow> bool \<Rightarrow> RunQueue" where
  "RunQueue_set_need_resched rq need = rq\<lparr>rq_need_resched := need\<rparr>"

definition RunQueue_all_pids :: "RunQueue \<Rightarrow> Pid list" where
  "RunQueue_all_pids rq = List.map_filter (map_option t_pid) (slots rq)"

definition RunQueue_all_pids_noalloc :: "RunQueue \<Rightarrow> Pid list \<times> nat" where
  "RunQueue_all_pids_noalloc rq =
     foldl (\<lambda>(buf, count) slot. case slot of
         Some t \<Rightarrow> (buf[count := t_pid t], count + 1) | None \<Rightarrow> (buf, count))
       (replicate MAX_TASKS_PER_RQ 0, 0) (slots rq)"

definition RunQueue_count_running :: "RunQueue \<Rightarrow> u64" where
  "RunQueue_count_running rq = min (ucast (rq_nr_running rq)) (of_nat MAX_TASKS_PER_RQ)"

section \<open>Queueing\<close>

definition RunQueue_enqueue_task :: "SlotTable \<Rightarrow> RunQueue \<Rightarrow> Pid \<Rightarrow> RunQueue" where
  "RunQueue_enqueue_task g rq p =
     (case slot_get g rq p of
        None \<Rightarrow> rq
      | Some t \<Rightarrow>
          if t_on_rq t then rq
          else
            (let rq' =
               (if is_realtime (t_policy t) then
                  rq\<lparr>rt_rq := RtRunQueue_enqueue (rt_rq rq) p (t_rt_priority t),
                     rq_nr_running := rq_nr_running rq + 1\<rparr>
                else if is_fair (t_policy t) then
                  (let (adjusted_vr, cfs) = CfsRunQueue_enqueue (cfs_rq rq) p (t_vruntime t) (t_weight t);
                       rq1 = slot_get_mut g (rq\<lparr>cfs_rq := cfs\<rparr>) p (\<lambda>t. t\<lparr>t_vruntime := adjusted_vr\<rparr>)
                   in rq1\<lparr>rq_nr_running := rq_nr_running rq1 + 1\<rparr>)
                else rq)
             in slot_get_mut g rq' p (\<lambda>t. t\<lparr>t_on_rq := True\<rparr>)))"

definition RunQueue_dequeue_task :: "SlotTable \<Rightarrow> RunQueue \<Rightarrow> Pid \<Rightarrow> RunQueue" where
  "RunQueue_dequeue_task g rq p =
     (case slot_get g rq p of
        None \<Rightarrow> rq
      | Some t \<Rightarrow>
          if \<not> t_on_rq t then rq
          else
            (let rq' =
               (if is_realtime (t_policy t) then
                  rq\<lparr>rt_rq := snd (RtRunQueue_dequeue (rt_rq rq) p (t_rt_priority t)),
                     rq_nr_running := saturating_sub (rq_nr_running rq) 1\<rparr>
                else if is_fair (t_policy t) then
                  rq\<lparr>cfs_rq := snd (CfsRunQueue_dequeue (cfs_rq rq) p (t_weight t)),
                     rq_nr_running := saturating_sub (rq_nr_running rq) 1\<rparr>
                else rq)
             in slot_get_mut g rq' p (\<lambda>t. t\<lparr>t_on_rq := False\<rparr>)))"

text \<open>The time of the call, \<open>os_core::now_ns()\<close>, is the argument \<open>now\<close>.\<close>

definition RunQueue_add_task :: "u64 \<Rightarrow> SlotTable \<Rightarrow> RunQueue \<Rightarrow> Task \<Rightarrow> SlotTable \<times> RunQueue" where
  "RunQueue_add_task now g rq task =
     (let task = (if t_start_time task = 0 then task\<lparr>t_start_time := now\<rparr> else task);
          p = t_pid task
      in case alloc_slot rq of
           (None, rq) \<Rightarrow> (g, rq)
         | (Some slot, rq) \<Rightarrow>
             (let rq = rq\<lparr>slots := (slots rq)[slot := Some task]\<rparr>;
                  g = (if unat p < MAX_PIDS then g(unat p := slot) else g)
              in (g, RunQueue_enqueue_task g rq p)))"

definition RunQueue_remove_task :: "SlotTable \<Rightarrow> RunQueue \<Rightarrow> Pid \<Rightarrow> Task option \<times> SlotTable \<times> RunQueue" where
  "RunQueue_remove_task g rq p =
     (if MAX_PIDS \<le> unat p then (None, g, rq)
      else
        (let slot = g (unat p) in
         if MAX_TASKS_PER_RQ \<le> slot then (None, g, rq)
         else case slots rq ! slot of
             None \<Rightarrow> (None, g, rq)
           | Some task \<Rightarrow>
               if t_pid task \<noteq> p then (None, g, rq)
               else
                 (let rq = rq\<lparr>slots := (slots rq)[slot := None]\<rparr>;
                      rq = (if t_on_rq task then
                              (let rq =
                                 (if is_realtime (t_policy task)
                                  then rq\<lparr>rt_rq := snd (RtRunQueue_dequeue (rt_rq rq) p (t_rt_priority task))\<rparr>
                                  else if is_fair (t_policy task)
                                  then rq\<lparr>cfs_rq := snd (CfsRunQueue_dequeue (cfs_rq rq) p (t_weight task))\<rparr>
                                  else rq)
                               in rq\<lparr>rq_nr_running := saturating_sub (rq_nr_running rq) 1\<rparr>)
                            else rq);
                      g = g(unat p := SLOT_NONE);
                      rq = free_slot rq slot
                  in (Some (task\<lparr>t_on_rq := False\<rparr>), g, rq))))"

section \<open>Choosing the next task\<close>

definition RunQueue_pick_next_task :: "RunQueue \<Rightarrow> Pid" where
  "RunQueue_pick_next_task rq =
     (case RtRunQueue_pick_next (rt_rq rq) of
        Some p \<Rightarrow> p
      | None \<Rightarrow> (case CfsRunQueue_pick_next (cfs_rq rq) of Some p \<Rightarrow> p | None \<Rightarrow> rq_idle rq))"

definition RunQueue_pop_next_task :: "SlotTable \<Rightarrow> RunQueue \<Rightarrow> Pid \<times> RunQueue" where
  "RunQueue_pop_next_task g rq =
     (case RtRunQueue_pop_next (rt_rq rq) of
        (Some p, rt) \<Rightarrow>
          (let rq = slot_get_mut g (rq\<lparr>rt_rq := rt\<rparr>) p (\<lambda>t. t\<lparr>t_on_rq := False\<rparr>)
           in (p, rq\<lparr>rq_nr_running := saturating_sub (rq_nr_running rq) 1\<rparr>))
      | (None, rt) \<Rightarrow>
          (let rq = rq\<lparr>rt_rq := rt\<rparr> in
           case CfsRunQueue_pick_next (cfs_rq rq) of
             None \<Rightarrow> (rq_idle rq, rq)
           | Some p \<Rightarrow>
               (let weight = (case slot_get g rq p of Some t \<Rightarrow> t_weight t | None \<Rightarrow> NICE_0_WEIGHT) in
                case CfsRunQueue_pop_next weight (cfs_rq rq) of
                  (Some p, cfs) \<Rightarrow>
                    (let rq = slot_get_mut g (rq\<lparr>cfs_rq := cfs\<rparr>) p (\<lambda>t. t\<lparr>t_on_rq := False\<rparr>)
                     in (p, rq\<lparr>rq_nr_running := saturating_sub (rq_nr_running rq) 1\<rparr>))
                | (None, cfs) \<Rightarrow> (rq_idle rq, rq\<lparr>cfs_rq := cfs\<rparr>))))"

definition RunQueue_put_prev_task :: "SlotTable \<Rightarrow> RunQueue \<Rightarrow> Pid \<Rightarrow> RunQueue" where
  "RunQueue_put_prev_task g rq p =
     (case slot_get g rq p of
        None \<Rightarrow> rq
      | Some t \<Rightarrow> if t_policy t = Idle \<or> is_dead (t_state t) then rq else RunQueue_enqueue_task g rq p)"

definition RunQueue_update_clock :: "RunQueue \<Rightarrow> u64 \<Rightarrow> RunQueue" where
  "RunQueue_update_clock rq now = rq\<lparr>rq_clock := now\<rparr>"

definition RunQueue_set_min_vruntime :: "RunQueue \<Rightarrow> u64 \<Rightarrow> RunQueue" where
  "RunQueue_set_min_vruntime rq vr = rq\<lparr>cfs_rq := CfsRunQueue_set_min_vruntime (cfs_rq rq) vr\<rparr>"

text \<open>The tests of the loop of \<open>steal_task\<close>, and its body.\<close>

definition stealable :: "RunQueue \<Rightarrow> u32 \<Rightarrow> Task \<Rightarrow> bool" where
  "stealable rq dest_cpu t \<longleftrightarrow> Some (t_pid t) \<noteq> rq_curr rq \<and> t_policy t = Normal \<and> t_on_rq t
     \<and> \<not> is_dead (t_state t) \<and> Task_can_run_on t dest_cpu"

definition steal_scan :: "RunQueue \<Rightarrow> u32 \<Rightarrow> Pid option \<times> u64 \<Rightarrow> Task option \<Rightarrow> Pid option \<times> u64" where
  "steal_scan rq dest_cpu best slot =
     (case slot of
        None \<Rightarrow> best
      | Some t \<Rightarrow>
          (case best of (best_pid, best_vruntime) \<Rightarrow>
            if stealable rq dest_cpu t \<and> (best_vruntime < t_vruntime t \<or> best_pid = None)
            then (Some (t_pid t), t_vruntime t) else best))"

definition RunQueue_steal_task ::
  "SlotTable \<Rightarrow> RunQueue \<Rightarrow> u32 \<Rightarrow> Task option \<times> SlotTable \<times> RunQueue" where
  "RunQueue_steal_task g rq dest_cpu =
     (if rq_nr_running rq \<le> 1 then (None, g, rq)
      else case foldl (steal_scan rq dest_cpu) (None, 0) (slots rq) of
          (None, _) \<Rightarrow> (None, g, rq)
        | (Some victim_pid, _) \<Rightarrow> RunQueue_remove_task g rq victim_pid)"

definition RunQueue_has_runnable :: "RunQueue \<Rightarrow> bool" where
  "RunQueue_has_runnable rq \<longleftrightarrow> 0 < rq_nr_running rq"

section \<open>The timer tick\<close>

definition charge_tick :: "bool \<Rightarrow> u64 \<Rightarrow> Task \<Rightarrow> Task" where
  "charge_tick in_blocking_wait clock t =
     (let t = (Task_update_vruntime t TICK_NS)\<lparr>t_vruntime_charged_this_tick := True\<rparr>;
          t = (if in_blocking_wait then t else t\<lparr>t_sum_exec_runtime := t_sum_exec_runtime t + TICK_NS\<rparr>)
      in t\<lparr>t_exec_start := clock\<rparr>)"

definition RunQueue_scheduler_tick ::
  "(MetaRef \<Rightarrow> bool) \<Rightarrow> SlotTable \<Rightarrow> bool \<Rightarrow> CpuTimes \<times> RunQueue \<Rightarrow> bool \<times> CpuTimes \<times> RunQueue" where
  "RunQueue_scheduler_tick lock_free g in_blocking_wait s =
     (case s of (metas, rq) \<Rightarrow>
      case rq_curr rq of
        None \<Rightarrow> (False, metas, rq)
      | Some curr_pid \<Rightarrow>
          (case slot_get g rq curr_pid of
             None \<Rightarrow> (False, metas, rq)
           | Some t \<Rightarrow>
               (case t_policy t of
                  Fifo \<Rightarrow> (False, metas, rq)
                | RoundRobin \<Rightarrow>
                    if 0 < t_time_slice t then
                      (if t_time_slice t - 1 = 0 then
                         (True, metas,
                          (slot_get_mut g rq curr_pid
                             (\<lambda>t. t\<lparr>t_time_slice := default_time_slice RoundRobin\<rparr>))\<lparr>rq_need_resched := True\<rparr>)
                       else
                         (False, metas, slot_get_mut g rq curr_pid (\<lambda>t. t\<lparr>t_time_slice := t_time_slice t - 1\<rparr>)))
                    else (False, metas, rq)
                | Idle \<Rightarrow> (RunQueue_has_runnable rq, metas, rq)
                | _ \<Rightarrow>
                    (let t' = charge_tick in_blocking_wait (rq_clock rq) t;
                         metas = (case t_meta t of
                             Some m \<Rightarrow> if \<not> in_blocking_wait \<and> lock_free m
                                        then metas(m := t_sum_exec_runtime t') else metas
                           | None \<Rightarrow> metas);
                         rq = slot_get_mut g rq curr_pid (charge_tick in_blocking_wait (rq_clock rq));
                         rq = rq\<lparr>cfs_rq := CfsRunQueue_update_min_vruntime (cfs_rq rq) (t_vruntime t')\<rparr>;
                         vruntime_of = (\<lambda>p. case slot_get g rq p of Some t \<Rightarrow> t_vruntime t | None \<Rightarrow> 0)
                     in case CfsRunQueue_pick_next (cfs_rq rq) of
                          None \<Rightarrow> (False, metas, rq)
                        | Some next_pid \<Rightarrow>
                            if next_pid \<noteq> curr_pid \<and> vruntime_of next_pid + 1000000 < vruntime_of curr_pid
                            then (True, metas, rq\<lparr>rq_need_resched := True\<rparr>)
                            else (False, metas, rq)))))"

end
