(* ===== verification/Runqueue_Inv.thy ===== *)
theory Runqueue_Inv
  imports Runqueue
begin

text \<open>
  The run queue as a table of tasks: what each operation does to the table that maps a process id to
  its task, and the invariant that ties the table, the slots, the queues of the two classes and the
  count of runnable tasks together.
\<close>

section \<open>The table of tasks\<close>

definition slots_ok :: "SlotTable \<Rightarrow> RunQueue \<Rightarrow> bool" where
  "slots_ok g rq \<longleftrightarrow> length (slots rq) = 256 \<and> distinct (free_stack rq)
     \<and> set (free_stack rq) = {i. i < 256 \<and> slots rq ! i = None}
     \<and> (\<forall>i<256. \<forall>t. slots rq ! i = Some t \<longrightarrow> unat (t_pid t) < 4096 \<and> g (unat (t_pid t)) = i)"

lemmas rq_consts = MAX_PIDS_def MAX_TASKS_PER_RQ_def SLOT_NONE_def

lemma slot_get_Some:
  "slot_get g rq p = Some t \<longleftrightarrow>
     unat p < 4096 \<and> g (unat p) < 256 \<and> slots rq ! g (unat p) = Some t \<and> t_pid t = p"
  by (auto simp: slot_get_def rq_consts Let_def split: option.splits)

lemma slot_get_cong: "slots rq = slots rq' \<Longrightarrow> slot_get g rq = slot_get g rq'"
  by (simp add: slot_get_def fun_eq_iff Let_def)

lemma slot_get_iff:
  assumes "slots_ok g rq"
  shows "slot_get g rq p = Some t \<longleftrightarrow> (\<exists>i<256. slots rq ! i = Some t \<and> t_pid t = p)"
  using assms by (auto simp: slot_get_Some slots_ok_def)

lemma slot_get_pid: "slot_get g rq p = Some t \<Longrightarrow> t_pid t = p"
  by (simp add: slot_get_Some)

lemma slot_get_mut_fields [simp]:
  "rt_rq (slot_get_mut g rq p f) = rt_rq rq" "cfs_rq (slot_get_mut g rq p f) = cfs_rq rq"
  "rq_nr_running (slot_get_mut g rq p f) = rq_nr_running rq" "rq_curr (slot_get_mut g rq p f) = rq_curr rq"
  "rq_idle (slot_get_mut g rq p f) = rq_idle rq" "rq_clock (slot_get_mut g rq p f) = rq_clock rq"
  "free_stack (slot_get_mut g rq p f) = free_stack rq" "rq_cpu (slot_get_mut g rq p f) = rq_cpu rq"
  "length (slots (slot_get_mut g rq p f)) = length (slots rq)"
  by (auto simp: slot_get_mut_def Let_def split: option.splits)

lemma slots_slot_get_mut:
  "slots (slot_get_mut g rq p f)
    = (case slot_get g rq p of None \<Rightarrow> slots rq | Some t \<Rightarrow> (slots rq)[g (unat p) := Some (f t)])"
  by (auto simp: slot_get_mut_def slot_get_def Let_def split: option.splits)

lemma slot_get_mut_get:
  assumes "\<And>t. t_pid (f t) = t_pid t" "length (slots rq) = 256"
  shows "slot_get g (slot_get_mut g rq p f) = (slot_get g rq)(p := map_option f (slot_get g rq p))"
proof (cases "slot_get g rq p")
  case None
  then have "slots (slot_get_mut g rq p f) = slots rq" by (simp add: slots_slot_get_mut)
  then show ?thesis using None slot_get_cong [of "slot_get_mut g rq p f" rq] by (simp add: fun_upd_idem)
next
  case (Some t)
  then have s: "slots (slot_get_mut g rq p f) = (slots rq)[g (unat p) := Some (f t)]"
    by (simp add: slots_slot_get_mut)
  have p: "unat p < 4096" "g (unat p) < 256" "slots rq ! g (unat p) = Some t" "t_pid t = p"
    using Some by (simp_all add: slot_get_Some)
  have "slot_get g (slot_get_mut g rq p f) p' = (if p' = p then Some (f t) else slot_get g rq p')" for p'
    using s p assms(1) [of t] assms(2)
    by (cases "g (unat p') = g (unat p)") (simp_all add: slot_get_def rq_consts Let_def)
  then show ?thesis using Some by (simp add: fun_eq_iff)
qed

lemma slot_get_mut_ok:
  assumes "slots_ok g rq" "\<And>t. t_pid (f t) = t_pid t"
  shows "slots_ok g (slot_get_mut g rq p f)"
proof (cases "slot_get g rq p")
  case None
  then show ?thesis using assms(1) by (simp add: slots_ok_def slots_slot_get_mut)
next
  case (Some t)
  then have s: "slots (slot_get_mut g rq p f) = (slots rq)[g (unat p) := Some (f t)]"
    by (simp add: slots_slot_get_mut)
  have p: "unat p < 4096" "g (unat p) < 256" "slots rq ! g (unat p) = Some t" "t_pid t = p"
    using Some by (simp_all add: slot_get_Some)
  have len: "length (slots rq) = 256" using assms(1) by (simp add: slots_ok_def)
  have nth: "slots (slot_get_mut g rq p f) ! i = (if i = g (unat p) then Some (f t) else slots rq ! i)"
    if "i < 256" for i using that s len by simp
  have "{i. i < 256 \<and> slots (slot_get_mut g rq p f) ! i = None} = {i. i < 256 \<and> slots rq ! i = None}"
    by (rule Collect_cong) (auto simp: nth p(3) split: if_splits)
  moreover have "unat (t_pid u) < 4096 \<and> g (unat (t_pid u)) = i"
    if i: "i < 256" "slots (slot_get_mut g rq p f) ! i = Some u" for i u
  proof (cases "i = g (unat p)")
    case True
    then have "u = f t" using nth [OF i(1)] i(2) by simp
    then show ?thesis using p(1,4) assms(2) True by simp
  next
    case False
    then have "slots rq ! i = Some u" using nth [OF i(1)] i(2) by simp
    then show ?thesis using assms(1) i(1) by (simp add: slots_ok_def)
  qed
  ultimately show ?thesis using assms(1) by (simp add: slots_ok_def)
qed

lemma slots_ok_cong:
  "slots rq = slots rq' \<Longrightarrow> free_stack rq = free_stack rq' \<Longrightarrow> slots_ok g rq \<longleftrightarrow> slots_ok g rq'"
  by (simp add: slots_ok_def)

lemma slot_get_upd [simp]:
  "slot_get g (rq\<lparr>cfs_rq := x0\<rparr>) = slot_get g rq"
  "slot_get g (rq\<lparr>rt_rq := x1\<rparr>) = slot_get g rq"
  "slot_get g (rq\<lparr>rq_nr_running := x2\<rparr>) = slot_get g rq"
  "slot_get g (rq\<lparr>rq_curr := x3\<rparr>) = slot_get g rq"
  "slot_get g (rq\<lparr>rq_clock := x4\<rparr>) = slot_get g rq"
  "slot_get g (rq\<lparr>rq_need_resched := x5\<rparr>) = slot_get g rq"
  "slot_get g (rq\<lparr>rq_idle := x6\<rparr>) = slot_get g rq"
  "slot_get g (rq\<lparr>rq_cpu := x7\<rparr>) = slot_get g rq"
  by (simp_all add: slot_get_def fun_eq_iff Let_def)

lemma slots_ok_upd [simp]:
  "slots_ok g (rq\<lparr>cfs_rq := x0\<rparr>) = slots_ok g rq"
  "slots_ok g (rq\<lparr>rt_rq := x1\<rparr>) = slots_ok g rq"
  "slots_ok g (rq\<lparr>rq_nr_running := x2\<rparr>) = slots_ok g rq"
  "slots_ok g (rq\<lparr>rq_curr := x3\<rparr>) = slots_ok g rq"
  "slots_ok g (rq\<lparr>rq_clock := x4\<rparr>) = slots_ok g rq"
  "slots_ok g (rq\<lparr>rq_need_resched := x5\<rparr>) = slots_ok g rq"
  "slots_ok g (rq\<lparr>rq_idle := x6\<rparr>) = slots_ok g rq"
  "slots_ok g (rq\<lparr>rq_cpu := x7\<rparr>) = slots_ok g rq"
  by (simp_all add: slots_ok_def)

text \<open>Placing a task in a free slot, and taking one out.\<close>

lemma slots_place:
  assumes ok: "slots_ok g rq" and p: "unat (t_pid task) < 4096" "slot_get g rq (t_pid task) = None"
    and free: "free_stack rq \<noteq> []"
  defines "s \<equiv> last (free_stack rq)"
  defines "rq' \<equiv> rq\<lparr>free_stack := butlast (free_stack rq), slots := (slots rq)[s := Some task]\<rparr>"
  shows "slots_ok (g(unat (t_pid task) := s)) rq'"
    and "slot_get (g(unat (t_pid task) := s)) rq' = (slot_get g rq)(t_pid task \<mapsto> task)"
proof -
  let ?p = "unat (t_pid task)"
  have len: "length (slots rq) = 256" and s: "s < 256" "slots rq ! s = None"
    using ok last_in_set [OF free] by (auto simp: slots_ok_def s_def)
  have other: "unat (t_pid u) \<noteq> ?p" if "i < 256" "slots rq ! i = Some u" for i u
  proof
    assume "unat (t_pid u) = ?p"
    then have "t_pid u = t_pid task" by (simp add: word_unat_eq_iff)
    with that slot_get_iff [OF ok, of "t_pid task" u] p(2) show False by auto
  qed
  have "set (butlast (free_stack rq)) = {i. i < 256 \<and> slots rq ! i = None} - {s}"
  proof -
    have "free_stack rq = butlast (free_stack rq) @ [s]" using free by (simp add: s_def)
    then have "distinct (butlast (free_stack rq) @ [s])"
      "set (free_stack rq) = insert s (set (butlast (free_stack rq)))"
      using ok by (metis slots_ok_def, metis list.set(1,2) set_append Un_insert_right sup_bot.right_neutral)
    with ok show ?thesis by (auto simp: slots_ok_def)
  qed
  then have "set (free_stack rq') = {i. i < 256 \<and> slots rq' ! i = None}"
    using len s by (auto simp: rq'_def nth_list_update)
  moreover have "unat (t_pid u) < 4096 \<and> (g(?p := s)) (unat (t_pid u)) = i"
    if "i < 256" "slots rq' ! i = Some u" for i u
    using that len s p ok other [of i u] by (auto simp: rq'_def nth_list_update slots_ok_def split: if_splits)
  ultimately show ok': "slots_ok (g(?p := s)) rq'"
    using ok by (simp add: slots_ok_def rq'_def distinct_butlast)
  have "slot_get (g(?p := s)) rq' p' = (if p' = t_pid task then Some task else slot_get g rq p')" for p'
    using len s p(1)
    by (cases "g (unat p') = s") (simp_all add: slot_get_def rq'_def rq_consts Let_def word_unat_eq_iff)
  then show "slot_get (g(?p := s)) rq' = (slot_get g rq)(t_pid task \<mapsto> task)" by (simp add: fun_eq_iff)
qed

lemma slots_take:
  assumes ok: "slots_ok g rq" and p: "slot_get g rq p = Some t"
  defines "s \<equiv> g (unat p)"
  defines "rq' \<equiv> rq\<lparr>slots := (slots rq)[s := None], free_stack := free_stack rq @ [s]\<rparr>"
  shows "slots_ok (g(unat p := SLOT_NONE)) rq'"
    and "slot_get (g(unat p := SLOT_NONE)) rq' = (slot_get g rq)(p := None)"
proof -
  have len: "length (slots rq) = 256" and s: "s < 256" "slots rq ! s = Some t" "t_pid t = p"
    using ok p by (auto simp: slots_ok_def s_def slot_get_Some)
  have "s \<notin> set (free_stack rq)" using ok s by (simp add: slots_ok_def)
  moreover have "set (free_stack rq') = {i. i < 256 \<and> slots rq' ! i = None}"
    using ok len s by (auto simp: rq'_def nth_list_update slots_ok_def split: if_splits)
  moreover have "unat (t_pid u) < 4096 \<and> (g(unat p := SLOT_NONE)) (unat (t_pid u)) = i"
    if "i < 256" "slots rq' ! i = Some u" for i u
  proof -
    have i: "i \<noteq> s" "slots rq ! i = Some u" using that len s(1) by (auto simp: rq'_def nth_list_update split: if_splits)
    with ok that(1) have "unat (t_pid u) < 4096" "g (unat (t_pid u)) = i" by (auto simp: slots_ok_def)
    moreover from this i have "unat (t_pid u) \<noteq> unat p" by (auto simp: s_def)
    ultimately show ?thesis by simp
  qed
  ultimately show "slots_ok (g(unat p := SLOT_NONE)) rq'"
    using ok by (simp add: slots_ok_def rq'_def)
  have "slot_get (g(unat p := SLOT_NONE)) rq' p' = (if p' = p then None else slot_get g rq p')" for p'
    using len s
    by (cases "g (unat p') = s") (simp_all add: slot_get_def rq'_def rq_consts Let_def word_unat_eq_iff)
  then show "slot_get (g(unat p := SLOT_NONE)) rq' = (slot_get g rq)(p := None)" by (simp add: fun_eq_iff)
qed

section \<open>The invariant\<close>

text \<open>
  A task with the flag \<open>on_rq\<close> and a real-time or fair policy is in the queue of its class exactly
  once, at its own priority; nothing else is queued, and \<open>nr_running\<close> counts what is queued.
\<close>

definition fair_queued :: "(Pid \<Rightarrow> Task option) \<Rightarrow> Pid \<Rightarrow> bool" where
  "fair_queued T p \<longleftrightarrow> (case T p of None \<Rightarrow> False | Some t \<Rightarrow> t_on_rq t \<and> is_fair (t_policy t))"

definition rt_queued :: "(Pid \<Rightarrow> Task option) \<Rightarrow> nat \<Rightarrow> Pid \<Rightarrow> bool" where
  "rt_queued T i p \<longleftrightarrow> (case T p of None \<Rightarrow> False
     | Some t \<Rightarrow> t_on_rq t \<and> is_realtime (t_policy t) \<and> priority_to_index (t_rt_priority t) = i)"

definition queues_ok :: "(Pid \<Rightarrow> Task option) \<Rightarrow> RunQueue \<Rightarrow> bool" where
  "queues_ok T rq \<longleftrightarrow> cfs_inv (cfs_rq rq) \<and> rt_inv (rt_rq rq)
     \<and> (\<forall>p. count (cfs_pids (cfs_rq rq)) p = of_bool (fair_queued T p))
     \<and> (\<forall>i<99. \<forall>p. count (mset (rt_row (rt_rq rq) i)) p = of_bool (rt_queued T i p))
     \<and> rq_nr_running rq = of_nat (size (cfs_pids (cfs_rq rq)) + size (rt_pids (rt_rq rq)))"

definition rq_ok :: "SlotTable \<Rightarrow> RunQueue \<Rightarrow> bool" where
  "rq_ok g rq \<longleftrightarrow> slots_ok g rq \<and> queues_ok (slot_get g rq) rq"

lemma policy_exclusive: "is_fair pol \<Longrightarrow> \<not> is_realtime pol"
  by (cases pol) auto

lemma policy_not_idle: "pol \<noteq> Idle \<longleftrightarrow> is_realtime pol \<or> is_fair pol"
  by (cases pol) auto

lemma rt_pids_sum: "rt_pids r = (\<Sum>i<99. mset (rt_row r i))"
proof -
  have "mset (concat (map f (rev [0..<n]))) = (\<Sum>i<n. mset (f i))" for f :: "nat \<Rightarrow> Pid list" and n
    by (induction n) (auto simp: ac_simps)
  then show ?thesis by (simp add: rt_pids_def rt_order_def)
qed

lemma rt_pids_update:
  assumes "rt_row r' = (rt_row r)(i := xs)" "i < 99"
  shows "rt_pids r' + mset (rt_row r i) = rt_pids r + mset xs"
proof -
  have i: "i \<in> {..<99 :: nat}" using assms(2) by simp
  have "(\<Sum>j\<in>{..<99} - {i}. mset (rt_row r' j)) = (\<Sum>j\<in>{..<99} - {i}. mset (rt_row r j))"
    using assms(1) by (intro sum.cong) auto
  moreover have "mset (rt_row r' i) = mset xs" using assms(1) by simp
  moreover note sum.remove [OF finite_lessThan i, of "\<lambda>j. mset (rt_row r j)"]
    sum.remove [OF finite_lessThan i, of "\<lambda>j. mset (rt_row r' j)"]
  ultimately show ?thesis unfolding rt_pids_sum by (simp only: ac_simps)
qed

lemma queued_None: "T p = None \<Longrightarrow> \<not> fair_queued T p \<and> \<not> rt_queued T i p"
  by (simp add: fair_queued_def rt_queued_def)

text \<open>The fair heap cannot overflow: each of its entries has a slot of its own.\<close>

lemma card_tasks:
  assumes "slots_ok g rq"
  shows "finite (dom (slot_get g rq))" "card (dom (slot_get g rq)) \<le> 256"
proof -
  define pids where "pids = (\<lambda>i. t_pid (the (slots rq ! i))) ` {..<256}"
  have fin: "finite pids" unfolding pids_def by (rule finite_imageI [OF finite_lessThan])
  have "p \<in> pids" if t: "slot_get g rq p = Some t" for p t
  proof -
    obtain i where i: "i < 256" "slots rq ! i = Some t" "t_pid t = p"
      using t slot_get_iff [OF assms] by blast
    then have "p = t_pid (the (slots rq ! i))" "i \<in> {..<256}" by simp_all
    then show ?thesis unfolding pids_def by (rule image_eqI)
  qed
  then have sub: "dom (slot_get g rq) \<subseteq> pids" by blast
  then show "finite (dom (slot_get g rq))" using fin by (rule finite_subset)
  have "card pids \<le> card {..<256 :: nat}" unfolding pids_def by (rule card_image_le [OF finite_lessThan])
  then show "card (dom (slot_get g rq)) \<le> 256" using card_mono [OF fin sub] by (simp only: card_lessThan)
qed

lemma fair_room:
  assumes "rq_ok g rq" "slot_get g rq p = Some t" "\<not> t_on_rq t"
  shows "heap_len (cfs_rq rq) < MAX_CFS_TASKS"
proof -
  let ?T = "slot_get g rq" and ?M = "cfs_pids (cfs_rq rq)"
  have q: "cfs_inv (cfs_rq rq)" and c: "count ?M p' = of_bool (fair_queued ?T p')" for p'
    using assms(1) by (auto simp: rq_ok_def queues_ok_def)
  have "size ?M = card (set_mset ?M)"
  proof -
    have "size ?M = (\<Sum>x\<in>set_mset ?M. count ?M x)" by (simp add: size_multiset_overloaded_eq)
    also have "\<dots> = (\<Sum>x\<in>set_mset ?M. 1)"
    proof (rule sum.cong)
      show "count ?M x = 1" if "x \<in> set_mset ?M" for x
        using that c [of x] by (metis count_greater_zero_iff of_bool_eq_iff of_bool_eq(1,2) less_numeral_extra(3))
    qed simp
    finally show ?thesis by simp
  qed
  moreover have "set_mset ?M \<subset> dom ?T"
  proof
    show "set_mset ?M \<subseteq> dom ?T"
      using c queued_None [of ?T] by (fastforce simp: set_mset_def dom_def)
    have "\<not> fair_queued ?T p" using assms(2,3) by (simp add: fair_queued_def)
    then have "p \<notin># ?M" using c [of p] by (simp add: count_eq_zero_iff)
    then show "set_mset ?M \<noteq> dom ?T" using assms(2) by blast
  qed
  moreover have "finite (dom ?T)" "card (dom ?T) \<le> 256" using card_tasks assms(1) by (auto simp: rq_ok_def)
  ultimately have "size ?M < 256" using psubset_card_mono [of "dom ?T" "set_mset ?M"] by linarith
  then show ?thesis using size_cfs_entries [OF q] by (simp add: cfs_pids_def MAX_CFS_TASKS_def)
qed

section \<open>How the queues change\<close>

lemma queued_upd:
  "fair_queued (T(p := x)) p' = (if p' = p then fair_queued (\<lambda>_. x) p else fair_queued T p')"
  "rt_queued (T(p := x)) i p' = (if p' = p then rt_queued (\<lambda>_. x) i p else rt_queued T i p')"
  by (simp_all add: fair_queued_def rt_queued_def)

lemma queues_ok_cong:
  assumes "queues_ok T rq" "cfs_inv (cfs_rq rq')" "cfs_pids (cfs_rq rq') = cfs_pids (cfs_rq rq)" "rt_rq rq' = rt_rq rq"
    "rq_nr_running rq' = rq_nr_running rq"
    "\<And>p. fair_queued T' p = fair_queued T p" "\<And>p i. rt_queued T' i p = rt_queued T i p"
  shows "queues_ok T' rq'"
  using assms by (simp add: queues_ok_def)

lemma size_rt_pids: "rt_inv r \<Longrightarrow> size (rt_pids r) \<le> 792"
proof -
  assume inv: "rt_inv r"
  have "size (\<Sum>i<n. mset (rt_row r i)) \<le> n * 8" if "n \<le> 99" for n
    using that
  proof (induction n)
    case (Suc n)
    have "length (rt_row r n) \<le> 8" using inv Suc.prems by (simp add: length_rt_row) (simp add: rt_inv_def)
    with Suc show ?case by simp
  qed simp
  from this [of 99] show ?thesis by (simp add: rt_pids_sum)
qed

lemma unat_nr_running:
  assumes "queues_ok T rq"
  shows "unat (rq_nr_running rq) = size (cfs_pids (cfs_rq rq)) + size (rt_pids (rt_rq rq))"
proof -
  have "size (cfs_pids (cfs_rq rq)) \<le> 256"
    using assms size_cfs_entries [of "cfs_rq rq"]
    by (simp add: queues_ok_def cfs_pids_def cfs_inv_def MAX_CFS_TASKS_def)
  moreover have "size (rt_pids (rt_rq rq)) \<le> 792" using assms size_rt_pids by (simp add: queues_ok_def)
  moreover have "rq_nr_running rq = of_nat (size (cfs_pids (cfs_rq rq)) + size (rt_pids (rt_rq rq)))"
    using assms by (simp add: queues_ok_def)
  ultimately show ?thesis by (simp add: unat_of_nat take_bit_nat_eq_self del: of_nat_add)
qed

lemma nr_dec:
  assumes "queues_ok T rq" "Suc m = size (cfs_pids (cfs_rq rq)) + size (rt_pids (rt_rq rq))"
  shows "saturating_sub (rq_nr_running rq) 1 = of_nat m"
proof -
  have "unat (rq_nr_running rq) = Suc m" using unat_nr_running [OF assms(1)] assms(2) by simp
  then have "rq_nr_running rq = of_nat (Suc m)" by (metis of_nat_unat ucast_id)
  moreover have "saturating_sub (rq_nr_running rq) 1 = rq_nr_running rq - 1"
    using \<open>unat _ = Suc m\<close> by (auto simp: saturating_sub_def)
  ultimately show ?thesis by simp
qed

lemma queues_add_fair:
  assumes ok: "queues_ok T rq" and p: "\<not> fair_queued T p" "\<And>i. \<not> rt_queued T i p"
    and cfs: "cfs_inv cfs" "cfs_pids cfs = add_mset p (cfs_pids (cfs_rq rq))"
    and t: "t_on_rq t" "is_fair (t_policy t)"
    and rq': "cfs_rq rq' = cfs" "rt_rq rq' = rt_rq rq" "rq_nr_running rq' = rq_nr_running rq + 1"
  shows "queues_ok (T(p \<mapsto> t)) rq'"
proof -
  have "fair_queued (\<lambda>_. Some t) p" "\<And>i. \<not> rt_queued (\<lambda>_. Some t) i p"
    using t policy_exclusive by (auto simp: fair_queued_def rt_queued_def)
  with assms show ?thesis by (auto simp: queues_ok_def queued_upd)
qed

lemma queues_del_fair:
  assumes ok: "queues_ok T rq" and p: "fair_queued T p"
    and cfs: "cfs_inv cfs" "cfs_pids cfs = cfs_pids (cfs_rq rq) - {#p#}"
    and x: "\<not> fair_queued (\<lambda>_. x) p" "\<And>i. \<not> rt_queued (\<lambda>_. x) i p"
    and rq': "cfs_rq rq' = cfs" "rt_rq rq' = rt_rq rq" "rq_nr_running rq' = saturating_sub (rq_nr_running rq) 1"
  shows "queues_ok (T(p := x)) rq'"
proof -
  have "p \<in># cfs_pids (cfs_rq rq)" using ok p by (simp add: queues_ok_def flip: count_greater_zero_iff)
  then have "cfs_pids (cfs_rq rq) = add_mset p (cfs_pids cfs)" using cfs by simp
  then have "saturating_sub (rq_nr_running rq) 1 = of_nat (size (cfs_pids cfs) + size (rt_pids (rt_rq rq)))"
    by (intro nr_dec [OF ok]) simp
  moreover have "\<not> rt_queued T i p" for i
    using p policy_exclusive by (auto simp: fair_queued_def rt_queued_def split: option.splits)
  ultimately show ?thesis using assms by (auto simp: queues_ok_def queued_upd)
qed

lemma queues_add_rt:
  assumes ok: "queues_ok T rq" and p: "\<not> fair_queued T p" "\<And>i. \<not> rt_queued T i p"
    and rt: "rt_inv rt" "rt_row rt = (rt_row (rt_rq rq))(i := rt_row (rt_rq rq) i @ [p])" "i < 99"
    and t: "t_on_rq t" "is_realtime (t_policy t)" "priority_to_index (t_rt_priority t) = i"
    and rq': "cfs_rq rq' = cfs_rq rq" "rt_rq rq' = rt" "rq_nr_running rq' = rq_nr_running rq + 1"
  shows "queues_ok (T(p \<mapsto> t)) rq'"
proof -
  have "\<not> fair_queued (\<lambda>_. Some t) p" "\<And>j. rt_queued (\<lambda>_. Some t) j p \<longleftrightarrow> j = i"
    using t policy_exclusive by (auto simp: fair_queued_def rt_queued_def)
  moreover have "rt_pids rt = add_mset p (rt_pids (rt_rq rq))"
    using rt_pids_update [OF rt(2,3)] by simp
  ultimately show ?thesis using assms by (auto simp: queues_ok_def queued_upd)
qed

lemma queues_del_rt:
  assumes ok: "queues_ok T rq" and p: "rt_queued T i p" "i < 99"
    and rt: "rt_inv rt" "rt_row rt = (rt_row (rt_rq rq))(i := xs)" "mset (rt_row (rt_rq rq) i) = add_mset p (mset xs)"
    and x: "\<not> fair_queued (\<lambda>_. x) p" "\<And>j. \<not> rt_queued (\<lambda>_. x) j p"
    and rq': "cfs_rq rq' = cfs_rq rq" "rt_rq rq' = rt" "rq_nr_running rq' = saturating_sub (rq_nr_running rq) 1"
  shows "queues_ok (T(p := x)) rq'"
proof -
  have pids: "rt_pids (rt_rq rq) = add_mset p (rt_pids rt)"
    using rt_pids_update [OF rt(2) p(2)] rt(3) by simp
  then have "saturating_sub (rq_nr_running rq) 1 = of_nat (size (cfs_pids (cfs_rq rq)) + size (rt_pids rt))"
    by (intro nr_dec [OF ok]) simp
  moreover have "\<not> fair_queued T p" "\<And>j. rt_queued T j p \<longleftrightarrow> j = i"
    using p policy_exclusive by (auto simp: fair_queued_def rt_queued_def split: option.splits)
  moreover have "count (mset xs) p' = of_bool (p' \<noteq> p \<and> rt_queued T i p')" for p'
  proof -
    have "count (mset (rt_row (rt_rq rq) i)) p' = of_bool (rt_queued T i p')" using ok p(2) by (simp add: queues_ok_def)
    then show ?thesis using p(1) rt(3) by (cases "p' = p") auto
  qed
  ultimately show ?thesis using assms by (auto simp: queues_ok_def queued_upd)
qed

section \<open>The operations\<close>

definition rt_has_room :: "RunQueue \<Rightarrow> Task \<Rightarrow> bool" where
  "rt_has_room rq t \<longleftrightarrow>
     (is_realtime (t_policy t) \<longrightarrow> length (rt_row (rt_rq rq) (priority_to_index (t_rt_priority t))) < 8)"

definition enqueued :: "RunQueue \<Rightarrow> Task \<Rightarrow> Task" where
  "enqueued rq t = (if is_fair (t_policy t)
     then t\<lparr>t_vruntime := max (t_vruntime t) (saturating_sub (min_vruntime (cfs_rq rq)) SCHED_LATENCY_NS),
            t_on_rq := True\<rparr>
     else t\<lparr>t_on_rq := True\<rparr>)"

lemma cfs_pids_enqueue:
  assumes "cfs_inv q" "heap_len q < MAX_CFS_TASKS" "CfsRunQueue_enqueue q p vr w = (avr, q')"
  shows "cfs_inv q'" "cfs_pids q' = add_mset p (cfs_pids q)"
    "avr = max vr (saturating_sub (min_vruntime q) SCHED_LATENCY_NS)"
  using enqueue_entries [OF assms] by (simp_all add: cfs_pids_def)

lemma enqueue_task_spec:
  assumes ok: "rq_ok g rq" and t: "slot_get g rq p = Some t" "\<not> t_on_rq t" and room: "rt_has_room rq t"
  shows "rq_ok g (RunQueue_enqueue_task g rq p)"
    and "slot_get g (RunQueue_enqueue_task g rq p) = (slot_get g rq)(p \<mapsto> enqueued rq t)"
proof -
  let ?T = "slot_get g rq" and ?rq' = "RunQueue_enqueue_task g rq p"
  have s: "slots_ok g rq" and q: "queues_ok ?T rq" and len: "length (slots rq) = 256"
    using ok by (simp_all add: rq_ok_def slots_ok_def)
  have nq: "\<not> fair_queued ?T p" "\<And>i. \<not> rt_queued ?T i p"
    using t by (simp_all add: fair_queued_def rt_queued_def)
  have "rq_ok g ?rq' \<and> slot_get g ?rq' = ?T(p \<mapsto> enqueued rq t)"
  proof (cases "is_realtime (t_policy t)")
    case True
    then have nf: "\<not> is_fair (t_policy t)" using policy_exclusive by blast
    let ?rt = "RtRunQueue_enqueue (rt_rq rq) p (t_rt_priority t)"
    let ?rq1 = "rq\<lparr>rt_rq := ?rt, rq_nr_running := rq_nr_running rq + 1\<rparr>"
    have rq': "?rq' = slot_get_mut g ?rq1 p (\<lambda>t. t\<lparr>t_on_rq := True\<rparr>)"
      using t True by (simp add: RunQueue_enqueue_task_def)
    have get: "slot_get g ?rq' = ?T(p \<mapsto> enqueued rq t)"
      unfolding rq' using t(1) len nf by (simp add: slot_get_mut_get enqueued_def)
    have rt: "rt_inv (rt_rq rq)" using q by (simp add: queues_ok_def)
    have "queues_ok (?T(p \<mapsto> enqueued rq t)) ?rq'"
      using enqueue_row [OF rt, of p "t_rt_priority t"] room True nf
      by (intro queues_add_rt [OF q nq, of ?rt "priority_to_index (t_rt_priority t)"])
        (simp_all add: rq' rt_has_room_def index_less enqueued_def)
    with get s show ?thesis by (simp add: rq_ok_def) (simp add: rq' slot_get_mut_ok)
  next
    case nrt: False
    show ?thesis
    proof (cases "is_fair (t_policy t)")
      case True
      obtain avr cfs where e: "CfsRunQueue_enqueue (cfs_rq rq) p (t_vruntime t) (t_weight t) = (avr, cfs)" by fastforce
      have "cfs_inv (cfs_rq rq)" using q by (simp add: queues_ok_def)
      note c = cfs_pids_enqueue [OF this fair_room [OF ok t] e]
      let ?rq1 = "slot_get_mut g (rq\<lparr>cfs_rq := cfs\<rparr>) p (\<lambda>t. t\<lparr>t_vruntime := avr\<rparr>)"
      let ?rq2 = "?rq1\<lparr>rq_nr_running := rq_nr_running ?rq1 + 1\<rparr>"
      have rq': "?rq' = slot_get_mut g ?rq2 p (\<lambda>t. t\<lparr>t_on_rq := True\<rparr>)"
        using t True nrt e by (simp add: RunQueue_enqueue_task_def Let_def)
      have get: "slot_get g ?rq' = ?T(p \<mapsto> enqueued rq t)"
        unfolding rq' using t(1) len True c(3) by (simp add: slot_get_mut_get enqueued_def)
      have "queues_ok (?T(p \<mapsto> enqueued rq t)) ?rq'"
        using c True by (intro queues_add_fair [OF q nq]) (simp_all add: rq' enqueued_def)
      with get s show ?thesis by (simp add: rq_ok_def) (simp add: rq' slot_get_mut_ok)
    next
      case False
      have rq': "?rq' = slot_get_mut g rq p (\<lambda>t. t\<lparr>t_on_rq := True\<rparr>)"
        using t False nrt by (simp add: RunQueue_enqueue_task_def Let_def)
      have get: "slot_get g ?rq' = ?T(p \<mapsto> enqueued rq t)"
        unfolding rq' using t(1) len False by (simp add: slot_get_mut_get enqueued_def)
      have "queues_ok (?T(p \<mapsto> enqueued rq t)) ?rq'"
        using q nq False nrt
        by (intro queues_ok_cong [OF q])
           (auto simp: rq' queued_upd queues_ok_def, auto simp: fair_queued_def rt_queued_def enqueued_def)
      with get s show ?thesis by (simp add: rq_ok_def) (simp add: rq' slot_get_mut_ok)
    qed
  qed
  then show "rq_ok g ?rq'" "slot_get g ?rq' = ?T(p \<mapsto> enqueued rq t)" by simp_all
qed

lemma enqueue_task_skip:
  "slot_get g rq p = None \<Longrightarrow> RunQueue_enqueue_task g rq p = rq"
  "slot_get g rq p = Some t \<Longrightarrow> t_on_rq t \<Longrightarrow> RunQueue_enqueue_task g rq p = rq"
  by (simp_all add: RunQueue_enqueue_task_def)

lemma enqueue_task_fields [simp]:
  "rq_curr (RunQueue_enqueue_task g rq p) = rq_curr rq" "rq_idle (RunQueue_enqueue_task g rq p) = rq_idle rq"
  "rq_clock (RunQueue_enqueue_task g rq p) = rq_clock rq" "free_stack (RunQueue_enqueue_task g rq p) = free_stack rq"
  by (simp_all add: RunQueue_enqueue_task_def Let_def split: option.split prod.split)

lemma cfs_dequeue_pids:
  assumes "cfs_inv q" "p \<in># cfs_pids q"
  shows "cfs_inv (snd (CfsRunQueue_dequeue q p w))"
    "cfs_pids (snd (CfsRunQueue_dequeue q p w)) = cfs_pids q - {#p#}"
proof -
  obtain pos where pos: "heap_find q p = Some pos"
    using heap_find_absent [OF assms(1)] assms(2) by blast
  obtain q' where q': "CfsRunQueue_dequeue q p w = (True, q')" "cfs_inv q'"
    "cfs_entries q' = cfs_entries q - {#heap q ! pos#}"
    by (rule cfs_dequeue_Some [OF assms(1) pos, of w])
  have "heap q ! pos \<in># cfs_entries q"
    using heap_find_Some [OF pos] assms(1) by (auto simp: cfs_entries_def cfs_inv_def in_set_conv_nth)
  then show "cfs_inv (snd (CfsRunQueue_dequeue q p w))"
    "cfs_pids (snd (CfsRunQueue_dequeue q p w)) = cfs_pids q - {#p#}"
    using q' heap_find_Some [OF pos] by (simp_all add: cfs_pids_def image_mset_Diff)
qed

lemma queued_on_rq:
  assumes "slot_get g rq p = Some t" "t_on_rq t"
  shows "is_fair (t_policy t) \<Longrightarrow> fair_queued (slot_get g rq) p"
    and "is_realtime (t_policy t) \<Longrightarrow> rt_queued (slot_get g rq) (priority_to_index (t_rt_priority t)) p"
  using assms by (simp_all add: fair_queued_def rt_queued_def)

lemma not_queued_off [simp]:
  "\<not> t_on_rq t \<Longrightarrow> \<not> fair_queued (\<lambda>_. Some t) p" "\<not> fair_queued (\<lambda>_. None) p"
  "\<not> t_on_rq t \<Longrightarrow> \<not> rt_queued (\<lambda>_. Some t) i p" "\<not> rt_queued (\<lambda>_. None) i p"
  by (simp_all add: fair_queued_def rt_queued_def)

text \<open>Taking a queued task out of the queue of its class.\<close>

lemma queues_del:
  assumes ok: "queues_ok (slot_get g rq) rq" and t: "slot_get g rq p = Some t" "t_on_rq t"
    and x: "\<not> fair_queued (\<lambda>_. x) p" "\<And>j. \<not> rt_queued (\<lambda>_. x) j p"
    and rq': "rq_nr_running rq' = saturating_sub (rq_nr_running rq) 1"
  shows "is_realtime (t_policy t) \<Longrightarrow> cfs_rq rq' = cfs_rq rq
      \<Longrightarrow> rt_rq rq' = snd (RtRunQueue_dequeue (rt_rq rq) p (t_rt_priority t))
      \<Longrightarrow> queues_ok ((slot_get g rq)(p := x)) rq'"
    and "is_fair (t_policy t) \<Longrightarrow> rt_rq rq' = rt_rq rq
      \<Longrightarrow> cfs_rq rq' = snd (CfsRunQueue_dequeue (cfs_rq rq) p w)
      \<Longrightarrow> queues_ok ((slot_get g rq)(p := x)) rq'"
proof -
  let ?i = "priority_to_index (t_rt_priority t)" and ?T = "slot_get g rq"
  have inv: "rt_inv (rt_rq rq)" "cfs_inv (cfs_rq rq)" using ok by (simp_all add: queues_ok_def)
  assume r: "is_realtime (t_policy t)" "cfs_rq rq' = cfs_rq rq"
    "rt_rq rq' = snd (RtRunQueue_dequeue (rt_rq rq) p (t_rt_priority t))"
  note rt = dequeue_row [OF inv(1), of p "t_rt_priority t"]
  have q: "rt_queued ?T ?i p" by (rule queued_on_rq(2) [OF t r(1)])
  then have "p \<in> set (rt_row (rt_rq rq) ?i)"
    using ok index_less [of "t_rt_priority t"] by (simp add: queues_ok_def flip: set_mset_mset count_greater_zero_iff)
  then have "mset (rt_row (rt_rq rq) ?i) = add_mset p (mset (remove1 p (rt_row (rt_rq rq) ?i)))" by simp
  then show "queues_ok (?T(p := x)) rq'"
    by (rule queues_del_rt [OF ok q index_less rt(1) rt(3) _ x r(2,3) rq'])
next
  have inv: "rt_inv (rt_rq rq)" "cfs_inv (cfs_rq rq)" using ok by (simp_all add: queues_ok_def)
  assume r: "is_fair (t_policy t)" "rt_rq rq' = rt_rq rq" "cfs_rq rq' = snd (CfsRunQueue_dequeue (cfs_rq rq) p w)"
  have q: "fair_queued (slot_get g rq) p" by (rule queued_on_rq(1) [OF t r(1)])
  then have "p \<in># cfs_pids (cfs_rq rq)" using ok by (simp add: queues_ok_def flip: count_greater_zero_iff)
  from cfs_dequeue_pids [OF inv(2) this, of w] r(2,3) rq'
  show "queues_ok ((slot_get g rq)(p := x)) rq'"
    by (intro queues_del_fair [OF ok q _ _ x]) simp_all
qed

lemma queues_unqueued:
  assumes ok: "queues_ok (slot_get g rq) rq" and t: "slot_get g rq p = Some t"
    and u: "\<not> t_on_rq t \<or> \<not> is_realtime (t_policy t) \<and> \<not> is_fair (t_policy t)"
    and x: "\<not> fair_queued (\<lambda>_. x) p" "\<And>j. \<not> rt_queued (\<lambda>_. x) j p"
    and rq': "rt_rq rq' = rt_rq rq" "cfs_rq rq' = cfs_rq rq" "rq_nr_running rq' = rq_nr_running rq"
  shows "queues_ok ((slot_get g rq)(p := x)) rq'"
proof -
  have "\<not> fair_queued (slot_get g rq) p" "\<And>j. \<not> rt_queued (slot_get g rq) j p"
    using t u by (auto simp: fair_queued_def rt_queued_def)
  with ok x rq' show ?thesis by (intro queues_ok_cong [OF ok]) (auto simp: queued_upd queues_ok_def)
qed

lemma dequeue_task_spec:
  assumes ok: "rq_ok g rq" and t: "slot_get g rq p = Some t"
  shows "rq_ok g (RunQueue_dequeue_task g rq p)"
    and "slot_get g (RunQueue_dequeue_task g rq p) = (slot_get g rq)(p \<mapsto> t\<lparr>t_on_rq := False\<rparr>)"
proof -
  let ?T = "slot_get g rq" and ?rq' = "RunQueue_dequeue_task g rq p" and ?t = "t\<lparr>t_on_rq := False\<rparr>"
  have s: "slots_ok g rq" and q: "queues_ok ?T rq" and len: "length (slots rq) = 256"
    using ok by (simp_all add: rq_ok_def slots_ok_def)
  have off: "\<not> fair_queued (\<lambda>_. Some ?t) p" "\<And>j. \<not> rt_queued (\<lambda>_. Some ?t) j p" by simp_all
  have "slots_ok g ?rq' \<and> slot_get g ?rq' = ?T(p \<mapsto> ?t)"
    using t s len by (auto simp: RunQueue_dequeue_task_def Let_def slot_get_mut_get slot_get_mut_ok fun_upd_idem)
  moreover have "queues_ok (?T(p \<mapsto> ?t)) ?rq'"
  proof (cases "t_on_rq t \<and> (is_realtime (t_policy t) \<or> is_fair (t_policy t))")
    case True
    then consider "is_realtime (t_policy t)" | "is_fair (t_policy t)" "\<not> is_realtime (t_policy t)" by blast
    then show ?thesis
    proof cases
      case 1
      with True t show ?thesis by (intro queues_del(1) [OF q t _ off]) (simp_all add: RunQueue_dequeue_task_def)
    next
      case 2
      with True t show ?thesis
        by (intro queues_del(2) [OF q t _ off, of _ "t_weight t"]) (simp_all add: RunQueue_dequeue_task_def)
    qed
  next
    case False
    then show ?thesis
      using t by (intro queues_unqueued [OF q t _ off]) (auto simp: RunQueue_dequeue_task_def Let_def)
  qed
  ultimately show "rq_ok g ?rq'" "slot_get g ?rq' = ?T(p \<mapsto> ?t)" by (simp_all add: rq_ok_def)
qed

lemma add_task_spec:
  assumes ok: "rq_ok g rq" and p: "unat (t_pid task) < 4096" "slot_get g rq (t_pid task) = None"
    and free: "free_stack rq \<noteq> []" and off: "\<not> t_on_rq task" and room: "rt_has_room rq task"
    and res: "RunQueue_add_task now g rq task = (g', rq')"
  defines "task' \<equiv> (if t_start_time task = 0 then task\<lparr>t_start_time := now\<rparr> else task)"
  shows "rq_ok g' rq'" and "slot_get g' rq' = (slot_get g rq)(t_pid task \<mapsto> enqueued rq task')"
    and "g' = g(unat (t_pid task) := last (free_stack rq))"
proof -
  let ?s = "last (free_stack rq)" and ?p = "t_pid task"
  let ?rq1 = "rq\<lparr>free_stack := butlast (free_stack rq), slots := (slots rq)[?s := Some task']\<rparr>"
  have task': "t_pid task' = ?p" "\<not> t_on_rq task'" "rt_has_room ?rq1 task'"
    using off room by (simp_all add: task'_def rt_has_room_def)
  have g': "g' = g(unat ?p := ?s)" and rq': "rq' = RunQueue_enqueue_task g' ?rq1 ?p"
    using res free p(1) task'(1)
    by (auto simp: RunQueue_add_task_def alloc_slot_def Let_def MAX_PIDS_def task'_def [symmetric])
  show "g' = g(unat ?p := ?s)" by (rule g')
  have s: "slots_ok g rq" and q: "queues_ok (slot_get g rq) rq" using ok by (simp_all add: rq_ok_def)
  from slots_place [OF s, of task'] p free
  have s1: "slots_ok g' ?rq1" and get1: "slot_get g' ?rq1 = (slot_get g rq)(?p \<mapsto> task')"
    by (simp_all add: task'(1) g')
  have "queues_ok ((slot_get g rq)(?p \<mapsto> task')) ?rq1"
    using q task'(2) queued_None [of "slot_get g rq" ?p] p(2)
    by (intro queues_ok_cong [OF q]) (auto simp: queued_upd queues_ok_def)
  then have ok1: "rq_ok g' ?rq1" using s1 get1 by (simp add: rq_ok_def)
  have get: "slot_get g' ?rq1 ?p = Some task'" by (simp add: get1)
  note enq = enqueue_task_spec [OF ok1 get task'(2,3)]
  show "rq_ok g' rq'" using enq(1) by (simp add: rq')
  show "slot_get g' rq' = (slot_get g rq)(?p \<mapsto> enqueued rq task')"
    using enq(2) by (simp add: rq' get1 enqueued_def)
qed

lemma remove_task_spec:
  assumes ok: "rq_ok g rq" and t: "slot_get g rq p = Some t"
    and counted: "t_on_rq t \<Longrightarrow> is_realtime (t_policy t) \<or> is_fair (t_policy t)"
  shows "\<exists>g' rq'. RunQueue_remove_task g rq p = (Some (t\<lparr>t_on_rq := False\<rparr>), g', rq') \<and> rq_ok g' rq'
    \<and> slot_get g' rq' = (slot_get g rq)(p := None) \<and> free_stack rq' \<noteq> [] \<and> g' = g(unat p := SLOT_NONE)"
proof -
  let ?T = "slot_get g rq" and ?s = "g (unat p)" and ?g' = "g(unat p := SLOT_NONE)"
  define rq' where "rq' = snd (snd (RunQueue_remove_task g rq p))"
  have s: "slots_ok g rq" and q: "queues_ok ?T rq" using ok by (simp_all add: rq_ok_def)
  have p: "unat p < 4096" "?s < 256" "slots rq ! ?s = Some t" "t_pid t = p" using t by (simp_all add: slot_get_Some)
  have res: "RunQueue_remove_task g rq p = (Some (t\<lparr>t_on_rq := False\<rparr>), ?g', rq')"
    and slots': "slots rq' = (slots rq)[?s := None]" "free_stack rq' = free_stack rq @ [?s]"
    using p by (auto simp: rq'_def RunQueue_remove_task_def Let_def rq_consts free_slot_def)
  let ?rq1 = "rq\<lparr>slots := (slots rq)[?s := None], free_stack := free_stack rq @ [?s]\<rparr>"
  have "slots_ok ?g' ?rq1" "slot_get ?g' ?rq1 = ?T(p := None)" by (rule slots_take [OF s t])+
  moreover have "slots rq' = slots ?rq1" "free_stack rq' = free_stack ?rq1" using slots' by simp_all
  ultimately have s': "slots_ok ?g' rq'" and get': "slot_get ?g' rq' = ?T(p := None)"
    using slots_ok_cong [of rq' ?rq1] slot_get_cong [of rq' ?rq1] by (auto simp del: select_convs)
  have "queues_ok (?T(p := None)) rq'"
  proof (cases "t_on_rq t")
    case True
    then consider "is_realtime (t_policy t)" | "is_fair (t_policy t)" "\<not> is_realtime (t_policy t)"
      using counted by blast
    then show ?thesis
    proof cases
      case 1
      with True p show ?thesis
        by (intro queues_del(1) [OF q t True])
           (simp_all add: rq'_def RunQueue_remove_task_def Let_def rq_consts free_slot_def)
    next
      case 2
      with True p show ?thesis
        by (intro queues_del(2) [OF q t True, of _ _ "t_weight t"])
           (simp_all add: rq'_def RunQueue_remove_task_def Let_def rq_consts free_slot_def)
    qed
  next
    case False
    with p show ?thesis
      by (intro queues_unqueued [OF q t])
         (simp_all add: rq'_def RunQueue_remove_task_def Let_def rq_consts free_slot_def)
  qed
  then show ?thesis using res s' get' slots'(2) by (simp add: rq_ok_def)
qed

end
