(* ===== verification/Runqueue_Steps.thy ===== *)
theory Runqueue_Steps
  imports Runqueue_Inv
begin

text \<open>
  Dispatch, migration and the timer tick on a run queue that satisfies the invariant, the run queue
  as a state machine, and its properties.
\<close>

section \<open>Dispatch\<close>

text \<open>
  The order in which the queued tasks will be dispatched: the real-time tasks by priority and
  arrival, then the fair ones by virtual runtime.
\<close>

definition rq_order :: "RunQueue \<Rightarrow> Pid list" where
  "rq_order rq = rt_order (rt_rq rq) @ map pid (sorted_list_of_multiset (cfs_entries (cfs_rq rq)))"

lemma set_rt_order: "p \<in> set (rt_row r i) \<Longrightarrow> i < 99 \<Longrightarrow> p \<in> set (rt_order r)"
  by (auto simp: rt_order_def)

lemma rt_row_queued:
  assumes "queues_ok T rq" "i < 99" "p \<in> set (rt_row (rt_rq rq) i)"
  shows "rt_queued T i p"
proof -
  have "0 < count (mset (rt_row (rt_rq rq) i)) p" using assms(3) by (simp only: count_greater_zero_iff set_mset_mset)
  moreover have "count (mset (rt_row (rt_rq rq) i)) p = of_bool (rt_queued T i p)"
    using assms(1,2) by (simp add: queues_ok_def)
  ultimately show ?thesis by (cases "rt_queued T i p") simp_all
qed

lemma cfs_pids_queued:
  assumes "queues_ok T rq" "p \<in># cfs_pids (cfs_rq rq)"
  shows "fair_queued T p"
proof -
  have "0 < count (cfs_pids (cfs_rq rq)) p" using assms(2) by (simp only: count_greater_zero_iff)
  moreover have "count (cfs_pids (cfs_rq rq)) p = of_bool (fair_queued T p)"
    using assms(1) by (simp add: queues_ok_def)
  ultimately show ?thesis by (cases "fair_queued T p") simp_all
qed

lemma pop_rt:
  assumes ok: "rq_ok g rq" and ne: "bitmap (rt_rq rq) \<noteq> 0"
  obtains p t rq' where "RunQueue_pop_next_task g rq = (p, rq')" "RunQueue_pick_next_task rq = p"
    "slot_get g rq p = Some t" "t_on_rq t" "is_realtime (t_policy t)" "rq_ok g rq'"
    "slot_get g rq' = (slot_get g rq)(p \<mapsto> t\<lparr>t_on_rq := False\<rparr>)" "rq_order rq = p # rq_order rq'"
proof -
  let ?r = "rt_rq rq" and ?T = "slot_get g rq"
  define i where "i = highest_index (bitmap ?r)"
  define p where "p = hd (rt_row ?r i)"
  have q: "queues_ok ?T rq" and s: "slots_ok g rq" and inv: "rt_inv ?r" and len: "length (slots rq) = 256"
    using ok by (simp_all add: rq_ok_def queues_ok_def slots_ok_def)
  have i: "rt_idx ?r i" unfolding i_def by (rule highest_index_idx [OF inv ne])
  then have row: "i < 99" "rt_row ?r i \<noteq> []" by (simp_all add: rt_idx_def)
  obtain r' where r': "RtRunQueue_pop_next ?r = (Some p, r')" "rt_inv r'"
    "rt_row r' = (rt_row ?r)(i := tl (rt_row ?r i))" "RtRunQueue_pick_next ?r = Some p"
    using pop_row(2) [OF inv i] p_def by blast
  have qd: "rt_queued ?T i p" using row by (intro rt_row_queued [OF q]) (simp_all add: p_def)
  then obtain t where t: "?T p = Some t" "t_on_rq t" "is_realtime (t_policy t)"
    by (auto simp: rt_queued_def split: option.splits)
  define rq' where "rq' = snd (RunQueue_pop_next_task g rq)"
  have pop: "RunQueue_pop_next_task g rq = (p, rq')" using r'(1) by (simp add: rq'_def RunQueue_pop_next_task_def Let_def)
  have get: "slot_get g rq' = ?T(p \<mapsto> t\<lparr>t_on_rq := False\<rparr>)"
    using r'(1) t(1) len by (simp add: rq'_def RunQueue_pop_next_task_def Let_def slot_get_mut_get)
  have rts: "rt_rq rq' = r'" "cfs_rq rq' = cfs_rq rq" "rq_nr_running rq' = saturating_sub (rq_nr_running rq) 1"
    using r'(1) by (simp_all add: rq'_def RunQueue_pop_next_task_def Let_def)
  have "mset (rt_row ?r i) = add_mset p (mset (tl (rt_row ?r i)))"
    using row by (simp add: p_def flip: mset.simps)
  from queues_del_rt [OF q qd row(1) r'(2,3) this _ _ rts(2,1,3), of "Some (t\<lparr>t_on_rq := False\<rparr>)"]
  have "queues_ok (slot_get g rq') rq'" by (simp add: get)
  moreover have "slots_ok g rq'"
    using s r'(1) by (simp add: rq'_def RunQueue_pop_next_task_def Let_def slot_get_mut_ok)
  ultimately have "rq_ok g rq'" by (simp add: rq_ok_def)
  moreover have "rq_order rq = p # rq_order rq'"
    using rt_order_pop [OF i r'(3)] by (simp add: rq_order_def rts p_def)
  moreover have "RunQueue_pick_next_task rq = p" using r'(4) by (simp add: RunQueue_pick_next_task_def)
  ultimately show ?thesis using that pop t get by blast
qed

lemma pop_fair:
  assumes ok: "rq_ok g rq" and rt: "bitmap (rt_rq rq) = 0" and ne: "cfs_entries (cfs_rq rq) \<noteq> {#}"
  obtains p t rq' where "RunQueue_pop_next_task g rq = (p, rq')" "RunQueue_pick_next_task rq = p"
    "slot_get g rq p = Some t" "t_on_rq t" "is_fair (t_policy t)" "rq_ok g rq'"
    "slot_get g rq' = (slot_get g rq)(p \<mapsto> t\<lparr>t_on_rq := False\<rparr>)" "rq_order rq = p # rq_order rq'"
proof -
  let ?c = "cfs_rq rq" and ?T = "slot_get g rq"
  define e where "e = Min_mset (cfs_entries ?c)"
  define p where "p = pid e"
  have q: "queues_ok ?T rq" and s: "slots_ok g rq" and inv: "rt_inv (rt_rq rq)" "cfs_inv ?c"
    and len: "length (slots rq) = 256"
    using ok by (simp_all add: rq_ok_def queues_ok_def slots_ok_def)
  have e: "e \<in># cfs_entries ?c" using Min_mset_in [OF ne] by (simp add: e_def)
  have qd: "fair_queued ?T p" using e by (intro cfs_pids_queued [OF q]) (simp add: cfs_pids_def p_def)
  then obtain t where t: "?T p = Some t" "t_on_rq t" "is_fair (t_policy t)"
    by (auto simp: fair_queued_def split: option.splits)
  obtain c' where c': "CfsRunQueue_pop_next (t_weight t) ?c = (Some p, c')" "cfs_inv c'"
    "cfs_entries c' = cfs_entries ?c - {#e#}" "CfsRunQueue_pick_next ?c = Some p"
    using pop_next_cases [OF inv(2), of "t_weight t"] ne by (auto simp: e_def p_def)
  have rtn: "RtRunQueue_pop_next (rt_rq rq) = (None, rt_rq rq)" "RtRunQueue_pick_next (rt_rq rq) = None"
    using pop_row(1) [OF inv(1) rt] by simp_all
  have c'p: "cfs_pids c' = cfs_pids ?c - {#p#}" using e c'(3) by (simp add: cfs_pids_def p_def image_mset_Diff)
  define rq' where "rq' = snd (RunQueue_pop_next_task g rq)"
  have pop: "RunQueue_pop_next_task g rq = (p, rq')"
    using rtn c'(1,4) t(1) by (simp add: rq'_def RunQueue_pop_next_task_def Let_def)
  have get: "slot_get g rq' = ?T(p \<mapsto> t\<lparr>t_on_rq := False\<rparr>)"
    using rtn c'(1,4) t(1) len by (simp add: rq'_def RunQueue_pop_next_task_def Let_def slot_get_mut_get)
  have rts: "rt_rq rq' = rt_rq rq" "cfs_rq rq' = c'" "rq_nr_running rq' = saturating_sub (rq_nr_running rq) 1"
    using rtn c'(1,4) t(1) by (simp_all add: rq'_def RunQueue_pop_next_task_def Let_def)
  from queues_del_fair [OF q qd c'(2) c'p _ _ rts(2,1,3), of "Some (t\<lparr>t_on_rq := False\<rparr>)"]
  have "queues_ok (slot_get g rq') rq'" by (simp add: get)
  moreover have "slots_ok g rq'"
    using s rtn c'(1,4) t(1) by (simp add: rq'_def RunQueue_pop_next_task_def Let_def slot_get_mut_ok)
  ultimately have "rq_ok g rq'" by (simp add: rq_ok_def)
  moreover have "rq_order rq = p # rq_order rq'"
    using rt_order_Nil [OF inv(1)] rt sorted_list_of_multiset_Min [OF ne]
    by (simp add: rq_order_def rts c'(3) e_def p_def)
  moreover have "RunQueue_pick_next_task rq = p" using rtn c'(4) by (simp add: RunQueue_pick_next_task_def)
  ultimately show ?thesis using that pop t get by blast
qed

lemma pop_next_task_spec:
  assumes ok: "rq_ok g rq"
  shows "case rq_order rq of
      [] \<Rightarrow> RunQueue_pop_next_task g rq = (rq_idle rq, rq) \<and> RunQueue_pick_next_task rq = rq_idle rq
    | p # ps \<Rightarrow> \<exists>t rq'. RunQueue_pop_next_task g rq = (p, rq') \<and> RunQueue_pick_next_task rq = p
        \<and> slot_get g rq p = Some t \<and> t_on_rq t \<and> rq_ok g rq' \<and> rq_order rq' = ps
        \<and> slot_get g rq' = (slot_get g rq)(p \<mapsto> t\<lparr>t_on_rq := False\<rparr>)"
proof (cases "bitmap (rt_rq rq) = 0")
  case rt: True
  have inv: "rt_inv (rt_rq rq)" "cfs_inv (cfs_rq rq)" using ok by (simp_all add: rq_ok_def queues_ok_def)
  show ?thesis
  proof (cases "cfs_entries (cfs_rq rq) = {#}")
    case True
    then have "CfsRunQueue_pick_next (cfs_rq rq) = None" using pop_next_cases [OF inv(2)] by auto
    moreover have "rq_order rq = []" using True rt rt_order_Nil [OF inv(1)] by (simp add: rq_order_def)
    ultimately show ?thesis
      using pop_row(1) [OF inv(1) rt] by (simp add: RunQueue_pop_next_task_def RunQueue_pick_next_task_def Let_def)
  next
    case False
    obtain p t rq' where "RunQueue_pop_next_task g rq = (p, rq')" "RunQueue_pick_next_task rq = p"
      "slot_get g rq p = Some t" "t_on_rq t" "rq_ok g rq'"
      "slot_get g rq' = (slot_get g rq)(p \<mapsto> t\<lparr>t_on_rq := False\<rparr>)" "rq_order rq = p # rq_order rq'"
      by (rule pop_fair [OF ok rt False])
    then show ?thesis by simp
  qed
next
  case False
  obtain p t rq' where "RunQueue_pop_next_task g rq = (p, rq')" "RunQueue_pick_next_task rq = p"
    "slot_get g rq p = Some t" "t_on_rq t" "rq_ok g rq'"
    "slot_get g rq' = (slot_get g rq)(p \<mapsto> t\<lparr>t_on_rq := False\<rparr>)" "rq_order rq = p # rq_order rq'"
    by (rule pop_rt [OF ok False])
  then show ?thesis by simp
qed

text \<open>The flags and the order.\<close>

lemma rq_order_mset: "mset (rq_order rq) = rt_pids (rt_rq rq) + cfs_pids (cfs_rq rq)"
  by (simp add: rq_order_def rt_pids_def cfs_pids_def)

lemma count_rt_pids:
  assumes "queues_ok T rq"
  shows "count (rt_pids (rt_rq rq)) p = (\<Sum>i<99. of_bool (rt_queued T i p))"
proof -
  have "count (\<Sum>i<n. mset (rt_row (rt_rq rq) i)) p = (\<Sum>i<n. of_bool (rt_queued T i p))" if "n \<le> 99" for n
    using that by (induction n) (use assms in \<open>auto simp: queues_ok_def simp del: count_mset\<close>)
  then show ?thesis by (simp add: rt_pids_sum)
qed

lemma count_rq_order:
  assumes ok: "rq_ok g rq"
  shows "count (mset (rq_order rq)) p
    = of_bool (\<exists>t. slot_get g rq p = Some t \<and> t_on_rq t \<and> t_policy t \<noteq> Idle)"
proof -
  let ?T = "slot_get g rq"
  have q: "queues_ok ?T rq" using ok by (simp add: rq_ok_def)
  have "count (mset (rq_order rq)) p = (\<Sum>i<99. of_bool (rt_queued ?T i p)) + of_bool (fair_queued ?T p)"
    using q count_rt_pids [OF q] by (simp add: rq_order_mset queues_ok_def del: count_mset)
  also have "\<dots> = of_bool (\<exists>t. ?T p = Some t \<and> t_on_rq t \<and> t_policy t \<noteq> Idle)"
  proof (cases "\<exists>t. ?T p = Some t \<and> t_on_rq t \<and> is_realtime (t_policy t)")
    case True
    then obtain t where t: "?T p = Some t" "t_on_rq t" "is_realtime (t_policy t)" by blast
    define k where "k = priority_to_index (t_rt_priority t)"
    have "(\<Sum>i<99. of_bool (rt_queued ?T i p) :: nat) = (\<Sum>i<99. if i = k then 1 else 0)"
      using t by (intro sum.cong) (auto simp: rt_queued_def k_def)
    also have "\<dots> = 1" using index_less [of "t_rt_priority t"] by (simp add: k_def)
    finally have "(\<Sum>i<99. of_bool (rt_queued ?T i p) :: nat) = 1" .
    moreover have "\<not> fair_queued ?T p" "t_policy t \<noteq> Idle"
      using t policy_exclusive by (auto simp: fair_queued_def)
    ultimately show ?thesis using t by simp
  next
    case False
    then have "\<not> rt_queued ?T i p" for i by (auto simp: rt_queued_def split: option.splits)
    moreover have "fair_queued ?T p \<longleftrightarrow> (\<exists>t. ?T p = Some t \<and> t_on_rq t \<and> t_policy t \<noteq> Idle)"
      using False by (auto simp: fair_queued_def policy_not_idle split: option.splits)
    ultimately show ?thesis by simp
  qed
  finally show ?thesis .
qed

section \<open>Putting back, migration, tick\<close>

lemma modify_task_ok:
  assumes "rq_ok g rq" "\<And>t. t_pid (f t) = t_pid t" "\<And>t. t_on_rq (f t) = t_on_rq t"
    "\<And>t. t_policy (f t) = t_policy t" "\<And>t. t_rt_priority (f t) = t_rt_priority t"
  shows "rq_ok g (slot_get_mut g rq p f)"
proof -
  have q: "queues_ok (slot_get g rq) rq" and s: "slots_ok g rq" "length (slots rq) = 256"
    using assms(1) by (simp_all add: rq_ok_def slots_ok_def)
  have "slots_ok g (slot_get_mut g rq p f)" by (rule slot_get_mut_ok [OF s(1) assms(2)])
  moreover have get: "slot_get g (slot_get_mut g rq p f) = (slot_get g rq)(p := map_option f (slot_get g rq p))"
    by (rule slot_get_mut_get [OF assms(2) s(2)])
  moreover have "fair_queued (\<lambda>_. map_option f (slot_get g rq p)) p \<longleftrightarrow> fair_queued (slot_get g rq) p"
    "rt_queued (\<lambda>_. map_option f (slot_get g rq p)) i p \<longleftrightarrow> rt_queued (slot_get g rq) i p" for i
    by (cases "slot_get g rq p"; simp add: fair_queued_def rt_queued_def assms(3-5))+
  then have "queues_ok ((slot_get g rq)(p := map_option f (slot_get g rq p))) (slot_get_mut g rq p f)"
    using q by (intro queues_ok_cong [OF q]) (auto simp: queued_upd queues_ok_def)
  ultimately show ?thesis by (simp add: rq_ok_def)
qed

lemma rq_ok_upd [simp]:
  "rq_ok g (rq\<lparr>rq_curr := a\<rparr>) = rq_ok g rq" "rq_ok g (rq\<lparr>rq_need_resched := b\<rparr>) = rq_ok g rq"
  "rq_ok g (rq\<lparr>rq_clock := c\<rparr>) = rq_ok g rq"
  by (simp_all add: rq_ok_def queues_ok_def)

lemma min_vruntime_ok [simp]:
  "cfs_entries (q\<lparr>min_vruntime := v\<rparr>) = cfs_entries q" "cfs_inv (q\<lparr>min_vruntime := v\<rparr>) = cfs_inv q"
  "cfs_pids (q\<lparr>min_vruntime := v\<rparr>) = cfs_pids q"
  by (simp_all add: cfs_entries_def cfs_inv_def cfs_pids_def)

lemma rq_ok_cfs:
  "cfs_inv q = cfs_inv (cfs_rq rq) \<Longrightarrow> cfs_pids q = cfs_pids (cfs_rq rq) \<Longrightarrow> rq_ok g (rq\<lparr>cfs_rq := q\<rparr>) = rq_ok g rq"
  by (simp add: rq_ok_def queues_ok_def)

lemma update_min_vruntime_ok [simp]:
  "cfs_inv (CfsRunQueue_update_min_vruntime q v) = cfs_inv q"
  "cfs_pids (CfsRunQueue_update_min_vruntime q v) = cfs_pids q"
  by (simp_all add: CfsRunQueue_update_min_vruntime_def Let_def)

lemma scheduler_tick_ok:
  assumes ok: "rq_ok g rq" and res: "RunQueue_scheduler_tick lock_free g wait (metas, rq) = (r, metas', rq')"
  shows "rq_ok g rq'"
proof (cases "rq_curr rq")
  case None
  with ok res show ?thesis by (simp add: RunQueue_scheduler_tick_def)
next
  case curr: (Some p)
  show ?thesis
  proof (cases "slot_get g rq p")
    case None
    with ok res curr show ?thesis by (simp add: RunQueue_scheduler_tick_def)
  next
    case (Some t)
    have slice: "rq_ok g (slot_get_mut g rq p (\<lambda>t. t\<lparr>t_time_slice := f t\<rparr>))" for f
      by (rule modify_task_ok [OF ok]) simp_all
    have charge: "rq_ok g (slot_get_mut g rq p (charge_tick w c))" for w c
      by (rule modify_task_ok [OF ok]) (simp_all add: charge_tick_def Task_update_vruntime_def Let_def)
    note tick = res [unfolded RunQueue_scheduler_tick_def, simplified curr Some prod.case option.case]
    show ?thesis
      using tick ok by (cases "t_policy t")
        (auto simp: slice charge rq_ok_cfs Let_def simp del: fun_upd_apply split: if_splits option.split_asm)
  qed
qed

lemma put_prev_task_cases:
  "RunQueue_put_prev_task g rq p = rq \<or> RunQueue_put_prev_task g rq p = RunQueue_enqueue_task g rq p"
  by (auto simp: RunQueue_put_prev_task_def split: option.splits)

lemma enqueue_task_ok:
  assumes "rq_ok g rq" "\<And>t. slot_get g rq p = Some t \<Longrightarrow> rt_has_room rq t"
  shows "rq_ok g (RunQueue_enqueue_task g rq p)"
proof (cases "slot_get g rq p")
  case None
  then show ?thesis using assms by (simp add: enqueue_task_skip)
next
  case (Some t)
  then show ?thesis using assms enqueue_task_spec(1) [OF assms(1) Some] by (cases "t_on_rq t") (auto simp: enqueue_task_skip)
qed

text \<open>The scan of \<open>steal_task\<close> finds a stealable task of the greatest virtual runtime.\<close>

lemma steal_scan_spec:
  assumes "foldl (steal_scan rq d) (None, 0) ss = (best, vr)"
  shows "case best of
      None \<Rightarrow> vr = 0 \<and> (\<forall>t. Some t \<in> set ss \<longrightarrow> \<not> stealable rq d t)
    | Some p \<Rightarrow> (\<exists>t. Some t \<in> set ss \<and> stealable rq d t \<and> t_pid t = p \<and> t_vruntime t = vr)
        \<and> (\<forall>u. Some u \<in> set ss \<longrightarrow> stealable rq d u \<longrightarrow> t_vruntime u \<le> vr)"
  using assms
proof (induction ss arbitrary: best vr rule: rev_induct)
  case (snoc s ss)
  obtain b v where bv: "foldl (steal_scan rq d) (None, 0) ss = (b, v)" by fastforce
  note IH = snoc.IH [OF bv]
  have res: "steal_scan rq d (b, v) s = (best, vr)" using snoc.prems bv by simp
  show ?case
  proof (cases s)
    case None
    then show ?thesis using res IH by (cases best) (auto simp: steal_scan_def)
  next
    case (Some t)
    show ?thesis
    proof (cases "stealable rq d t \<and> (v < t_vruntime t \<or> b = None)")
      case True
      then have "best = Some (t_pid t)" "vr = t_vruntime t" using res Some by (simp_all add: steal_scan_def)
      then show ?thesis using True Some IH by (cases b) (auto intro: order_trans [OF _ less_imp_le])
    next
      case False
      then have "best = b \<and> vr = v" using res Some unfolding steal_scan_def by (auto split: if_splits)
      then show ?thesis using False Some IH by (cases b) auto
    qed
  qed
qed simp

lemma steal_task_spec:
  assumes ok: "rq_ok g rq" and res: "RunQueue_steal_task g rq d = (Some task, g', rq')"
  shows "\<exists>t. slot_get g rq (t_pid t) = Some t \<and> task = t\<lparr>t_on_rq := False\<rparr> \<and> stealable rq d t
      \<and> (\<forall>p u. slot_get g rq p = Some u \<longrightarrow> stealable rq d u \<longrightarrow> t_vruntime u \<le> t_vruntime t)
      \<and> rq_ok g' rq' \<and> slot_get g' rq' = (slot_get g rq)(t_pid t := None)
      \<and> 1 < rq_nr_running rq \<and> g' = g(unat (t_pid t) := SLOT_NONE)"
proof -
  have s: "slots_ok g rq" "length (slots rq) = 256" using ok by (simp_all add: rq_ok_def slots_ok_def)
  obtain best vr where fold: "foldl (steal_scan rq d) (None, 0) (slots rq) = (best, vr)" by fastforce
  then obtain p where p: "best = Some p" "RunQueue_remove_task g rq p = (Some task, g', rq')" "1 < rq_nr_running rq"
    using res by (auto simp: RunQueue_steal_task_def not_le split: if_splits option.splits)
  from steal_scan_spec [OF fold] p(1) obtain t where t: "Some t \<in> set (slots rq)" "stealable rq d t" "t_pid t = p"
    and max: "\<And>u. Some u \<in> set (slots rq) \<Longrightarrow> stealable rq d u \<Longrightarrow> t_vruntime u \<le> t_vruntime t" by auto
  from t(1) obtain i where "i < 256" "slots rq ! i = Some t" by (metis in_set_conv_nth s(2))
  then have get: "slot_get g rq p = Some t" using slot_get_iff [OF s(1)] t(3) by blast
  have "Some u \<in> set (slots rq)" if "slot_get g rq p' = Some u" for p' u
    using that s(2) by (auto simp: slot_get_Some in_set_conv_nth)
  moreover have "t_policy t = Normal" using t(2) by (simp add: stealable_def)
  then obtain g'' rq'' where "RunQueue_remove_task g rq p = (Some (t\<lparr>t_on_rq := False\<rparr>), g'', rq'')"
    "rq_ok g'' rq''" "slot_get g'' rq'' = (slot_get g rq)(p := None)" "g'' = g(unat p := SLOT_NONE)"
    using remove_task_spec [OF ok get] by auto
  ultimately show ?thesis using p t max get by (intro exI [of _ t]) auto
qed

lemma steal_task_Some:
  assumes ok: "rq_ok g rq" and nr: "1 < rq_nr_running rq" and t: "slot_get g rq p = Some t" "stealable rq d t"
  shows "\<exists>task g' rq'. RunQueue_steal_task g rq d = (Some task, g', rq')"
proof -
  have s: "slots_ok g rq" "length (slots rq) = 256" using ok by (simp_all add: rq_ok_def slots_ok_def)
  obtain best vr where fold: "foldl (steal_scan rq d) (None, 0) (slots rq) = (best, vr)" by fastforce
  have "Some t \<in> set (slots rq)" using t(1) s(2) by (auto simp: slot_get_Some in_set_conv_nth)
  with steal_scan_spec [OF fold] t(2) obtain v where v: "best = Some (t_pid v)" "Some v \<in> set (slots rq)" "stealable rq d v"
    by (cases best) auto
  then obtain i where "i < 256" "slots rq ! i = Some v" by (metis in_set_conv_nth s(2))
  then have get: "slot_get g rq (t_pid v) = Some v" using slot_get_iff [OF s(1)] by blast
  have "t_policy v = Normal" using v(3) by (simp add: stealable_def)
  then have "\<exists>g' rq'. RunQueue_remove_task g rq (t_pid v) = (Some (v\<lparr>t_on_rq := False\<rparr>), g', rq')"
    using remove_task_spec [OF ok get] by auto
  then show ?thesis using fold v(1) nr by (auto simp: RunQueue_steal_task_def)
qed

lemma steal_task_None: "RunQueue_steal_task g rq d = (None, g', rq') \<Longrightarrow> g' = g \<and> rq' = rq"
  by (auto simp: RunQueue_steal_task_def RunQueue_remove_task_def Let_def
      split: if_splits prod.splits option.splits)

section \<open>The run queue as a state machine\<close>

text \<open>
  The steps of a run queue under the operations of the scheduler.  Its clients add a task only once
  and never one that claims to be queued, never remove the idle task, and keep fewer than eight
  real-time tasks at one priority; a client that changes a task in place (\<open>get_task_mut\<close>) leaves
  its identity, policy, priority and queue flag alone.  The last rule is a step of another CPU,
  which may change the entries of the shared table for tasks that are not on this queue.
\<close>

inductive rq_step :: "SlotTable \<times> RunQueue \<Rightarrow> SlotTable \<times> RunQueue \<Rightarrow> bool" where
  add: "unat (t_pid task) < MAX_PIDS \<Longrightarrow> slot_get g rq (t_pid task) = None \<Longrightarrow> \<not> t_on_rq task
    \<Longrightarrow> rt_has_room rq task \<Longrightarrow> RunQueue_add_task now g rq task = s' \<Longrightarrow> rq_step (g, rq) s'"
| remove: "(\<And>t. slot_get g rq p = Some t \<Longrightarrow> t_policy t \<noteq> Idle)
    \<Longrightarrow> RunQueue_remove_task g rq p = (r, s') \<Longrightarrow> rq_step (g, rq) s'"
| enqueue: "(\<And>t. slot_get g rq p = Some t \<Longrightarrow> rt_has_room rq t)
    \<Longrightarrow> rq_step (g, rq) (g, RunQueue_enqueue_task g rq p)"
| dequeue: "rq_step (g, rq) (g, RunQueue_dequeue_task g rq p)"
| pop: "RunQueue_pop_next_task g rq = (p, rq') \<Longrightarrow> rq_step (g, rq) (g, rq')"
| put_prev: "(\<And>t. slot_get g rq p = Some t \<Longrightarrow> rt_has_room rq t)
    \<Longrightarrow> rq_step (g, rq) (g, RunQueue_put_prev_task g rq p)"
| steal: "RunQueue_steal_task g rq d = (r, s') \<Longrightarrow> rq_step (g, rq) s'"
| tick: "RunQueue_scheduler_tick lock_free g wait (metas, rq) = (r, metas', rq') \<Longrightarrow> rq_step (g, rq) (g, rq')"
| set_curr: "rq_step (g, rq) (g, RunQueue_set_curr rq c)"
| set_need_resched: "rq_step (g, rq) (g, RunQueue_set_need_resched rq b)"
| update_clock: "rq_step (g, rq) (g, RunQueue_update_clock rq now)"
| set_min_vruntime: "rq_step (g, rq) (g, RunQueue_set_min_vruntime rq vr)"
| modify: "(\<And>t. t_pid (f t) = t_pid t) \<Longrightarrow> (\<And>t. t_on_rq (f t) = t_on_rq t)
    \<Longrightarrow> (\<And>t. t_policy (f t) = t_policy t) \<Longrightarrow> (\<And>t. t_rt_priority (f t) = t_rt_priority t)
    \<Longrightarrow> rq_step (g, rq) (g, slot_get_mut g rq p f)"
| other_cpu: "(\<And>p. slot_get g rq p \<noteq> None \<Longrightarrow> g' (unat p) = g (unat p)) \<Longrightarrow> rq_step (g, rq) (g', rq)"

lemma remove_task_None:
  "slot_get g rq p = None \<Longrightarrow> RunQueue_remove_task g rq p = (None, g, rq)"
  by (auto simp: RunQueue_remove_task_def slot_get_def Let_def split: option.splits if_splits)

lemma dequeue_task_None: "slot_get g rq p = None \<Longrightarrow> RunQueue_dequeue_task g rq p = rq"
  by (simp add: RunQueue_dequeue_task_def)

lemma other_cpu_ok:
  assumes ok: "rq_ok g rq" and g': "\<And>p. slot_get g rq p \<noteq> None \<Longrightarrow> g' (unat p) = g (unat p)"
  shows "rq_ok g' rq" "slot_get g' rq = slot_get g rq"
proof -
  have s: "slots_ok g rq" using ok by (simp add: rq_ok_def)
  have here: "g' (unat (t_pid t)) = i" if "i < 256" "slots rq ! i = Some t" for i t
  proof -
    have "slot_get g rq (t_pid t) = Some t" using that slot_get_iff [OF s] by blast
    then show ?thesis using g' [of "t_pid t"] that s by (simp add: slots_ok_def)
  qed
  then have s': "slots_ok g' rq" using s by (simp add: slots_ok_def)
  show eq: "slot_get g' rq = slot_get g rq"
  proof (rule ext, rule option_eqI)
    show "slot_get g' rq p = Some t \<longleftrightarrow> slot_get g rq p = Some t" for p t
      by (simp add: slot_get_iff [OF s] slot_get_iff [OF s'])
  qed
  show "rq_ok g' rq" using ok s' eq by (simp add: rq_ok_def)
qed

lemma rq_step_ok:
  assumes "rq_step s s'" "rq_ok (fst s) (snd s)"
  shows "rq_ok (fst s') (snd s')"
  using assms
proof (induction rule: rq_step.induct)
  case (add task g rq now s')
  show ?case
  proof (cases "free_stack rq = []")
    case True
    then have "s' = (g, rq)" using add(5) by (simp add: RunQueue_add_task_def alloc_slot_def Let_def split: if_splits)
    then show ?thesis using add(6) by simp
  next
    case False
    then show ?thesis
      using add_task_spec(1) [of g rq task now "fst s'" "snd s'"] add by (simp add: MAX_PIDS_def)
  qed
next
  case (remove g rq p r s')
  show ?case
  proof (cases "slot_get g rq p")
    case None
    then show ?thesis using remove by (simp add: remove_task_None)
  next
    case (Some t)
    then obtain g' rq' where "RunQueue_remove_task g rq p = (Some (t\<lparr>t_on_rq := False\<rparr>), g', rq')" "rq_ok g' rq'"
      using remove_task_spec [of g rq p t] remove policy_not_idle by fastforce
    then show ?thesis using remove by simp
  qed
next
  case (enqueue g rq p)
  then show ?case by (simp add: enqueue_task_ok)
next
  case (dequeue g rq p)
  then show ?case by (cases "slot_get g rq p") (simp_all add: dequeue_task_None dequeue_task_spec)
next
  case (pop g rq p rq')
  then show ?case using pop_next_task_spec [of g rq] by (cases "rq_order rq") auto
next
  case (put_prev g rq p)
  then show ?case using put_prev_task_cases [of g rq p] enqueue_task_ok [of g rq p] by auto
next
  case (steal g rq d r s')
  then show ?case
    using steal_task_None [of g rq d "fst s'" "snd s'"] steal_task_spec [of g rq d _ "fst s'" "snd s'"]
    by (cases r) auto
next
  case (tick lock_free g wait metas rq r metas' rq')
  then show ?case using scheduler_tick_ok by simp
next
  case (modify f g rq p)
  then show ?case by (simp add: modify_task_ok)
next
  case (other_cpu g rq g')
  then show ?case using other_cpu_ok(1) by simp
qed (simp_all add: RunQueue_set_curr_def RunQueue_set_need_resched_def RunQueue_update_clock_def
    RunQueue_set_min_vruntime_def CfsRunQueue_set_min_vruntime_def rq_ok_cfs)

lemma slot_get_new: "slot_get g (RunQueue_new cpu idle_pid) = (\<lambda>_. None)"
  by (auto simp: slot_get_def RunQueue_new_def rq_consts fun_eq_iff Let_def)

lemma rq_new_ok: "rq_ok g (RunQueue_new cpu idle_pid)"
proof -
  have "cfs_pids CfsRunQueue_new = {#}" by (simp add: cfs_pids_def cfs_entries_def CfsRunQueue_new_def)
  moreover have "rt_pids RtRunQueue_new = {#}" using rt_row_new by (simp add: rt_pids_sum)
  ultimately have "queues_ok (\<lambda>_. None) (RunQueue_new cpu idle_pid)"
    using cfs_inv_new rt_inv_new rt_row_new
    by (simp add: queues_ok_def RunQueue_new_def fair_queued_def rt_queued_def)
  moreover have "slots_ok g (RunQueue_new cpu idle_pid)"
    by (auto simp: slots_ok_def RunQueue_new_def rq_consts)
  ultimately show ?thesis by (simp add: rq_ok_def slot_get_new)
qed

lemma rq_reachable_ok:
  assumes "rq_step\<^sup>*\<^sup>* s s'" "rq_ok (fst s) (snd s)"
  shows "rq_ok (fst s') (snd s')"
  using assms by (induction rule: rtranclp_induct) (auto intro: rq_step_ok)

primrec rq_dispatch :: "nat \<Rightarrow> SlotTable \<Rightarrow> RunQueue \<Rightarrow> Pid list" where
  "rq_dispatch 0 g rq = []"
| "rq_dispatch (Suc n) g rq = (case RunQueue_pop_next_task g rq of (p, rq') \<Rightarrow> p # rq_dispatch n g rq')"

lemma rq_dispatch_order: "rq_ok g rq \<Longrightarrow> n = length (rq_order rq) \<Longrightarrow> rq_dispatch n g rq = rq_order rq"
proof (induction n arbitrary: rq)
  case (Suc n)
  then obtain p ps where "rq_order rq = p # ps" by (cases "rq_order rq") auto
  with Suc pop_next_task_spec [OF Suc.prems(1)] show ?case by auto
qed simp

section \<open>Where the count and the queues part\<close>

text \<open>
  A ninth real-time task at one priority is dropped by the queue of its class, but the run queue
  marks it as queued and counts it; from then on \<open>enqueue_task\<close> skips it, so it never runs.
\<close>

lemma rt_overflow_loses_task:
  assumes ok: "rq_ok g rq" and t: "slot_get g rq p = Some t" "\<not> t_on_rq t" "is_realtime (t_policy t)"
    and full: "length (rt_row (rt_rq rq) (priority_to_index (t_rt_priority t))) = 8"
  defines "rq' \<equiv> RunQueue_enqueue_task g rq p"
  shows "rt_rq rq' = rt_rq rq" "rq_nr_running rq' = rq_nr_running rq + 1"
    "slot_get g rq' p = Some (t\<lparr>t_on_rq := True\<rparr>)" "RunQueue_enqueue_task g rq' p = rq'"
proof -
  let ?i = "priority_to_index (t_rt_priority t)"
  have inv: "rt_inv (rt_rq rq)" and len: "length (slots rq) = 256"
    using ok by (simp_all add: rq_ok_def queues_ok_def slots_ok_def)
  have "unat (queue_lens (rt_rq rq) ! ?i) = 8" using length_rt_row [OF inv index_less] full by simp
  then have "RtRunQueue_enqueue (rt_rq rq) p (t_rt_priority t) = rt_rq rq"
    by (simp add: RtRunQueue_enqueue_def Let_def MAX_RT_PER_PRIO_def)
  then have rq': "rq' = slot_get_mut g (rq\<lparr>rq_nr_running := rq_nr_running rq + 1\<rparr>) p (\<lambda>t. t\<lparr>t_on_rq := True\<rparr>)"
    using t by (simp add: rq'_def RunQueue_enqueue_task_def)
  then show "rt_rq rq' = rt_rq rq" "rq_nr_running rq' = rq_nr_running rq + 1" by simp_all
  show get: "slot_get g rq' p = Some (t\<lparr>t_on_rq := True\<rparr>)"
    unfolding rq' using t(1) len by (simp add: slot_get_mut_get)
  show "RunQueue_enqueue_task g rq' p = rq'" by (rule enqueue_task_skip(2) [OF get]) simp
qed

text \<open>Enqueueing an idle task marks it without counting it, but its removal lowers the count.\<close>

lemma idle_removal_undercounts:
  assumes "slot_get g rq p = Some t" "t_policy t = Idle" "t_on_rq t"
  shows "rq_nr_running (snd (snd (RunQueue_remove_task g rq p))) = saturating_sub (rq_nr_running rq) 1"
    "rt_rq (snd (snd (RunQueue_remove_task g rq p))) = rt_rq rq"
    "cfs_rq (snd (snd (RunQueue_remove_task g rq p))) = cfs_rq rq"
  using assms by (auto simp: slot_get_Some RunQueue_remove_task_def Let_def rq_consts free_slot_def)

section \<open>Properties\<close>

lemma queued_iff_order:
  assumes "rq_ok g rq"
  shows "p \<in> set (rq_order rq) \<longleftrightarrow> (\<exists>t. slot_get g rq p = Some t \<and> t_on_rq t \<and> t_policy t \<noteq> Idle)"
    and "distinct (rq_order rq)"
proof -
  have c: "count (mset (rq_order rq)) p = of_bool (\<exists>t. slot_get g rq p = Some t \<and> t_on_rq t \<and> t_policy t \<noteq> Idle)" for p
    by (rule count_rq_order [OF assms])
  show mem: "p \<in> set (rq_order rq) \<longleftrightarrow> (\<exists>t. slot_get g rq p = Some t \<and> t_on_rq t \<and> t_policy t \<noteq> Idle)" for p
    using c [of p] count_greater_zero_iff [of "mset (rq_order rq)" p] by (simp del: count_mset split: if_splits)
  show "distinct (rq_order rq)" unfolding distinct_count_atmost_1 c mem of_bool_def by blast
qed

lemma length_rq_order: "rq_ok g rq \<Longrightarrow> length (rq_order rq) = unat (rq_nr_running rq)"
  using unat_nr_running [of "slot_get g rq" rq] rq_order_mset [of rq]
  by (metis rq_ok_def size_mset size_union add.commute)

text \<open>A run queue with one fair task, the input of the instances below.\<close>

definition sample_task :: Task where
  "sample_task = Task_new 0 7 1 0x1000 4096 0x2000 0x400000 0x7fff0000"

definition sample_step :: "SlotTable \<times> RunQueue" where
  "sample_step = RunQueue_add_task 5 PID_TO_SLOT_init (RunQueue_new 0 0) sample_task"

lemma sample_task_fields [simp]:
  "t_pid sample_task = 7" "t_on_rq sample_task = False" "t_policy sample_task = Normal"
  "t_vruntime sample_task = 0" "t_start_time sample_task = 0" "t_state sample_task = TASK_RUNNING"
  "t_cpu_affinity sample_task = CpuSet_all"
  by (simp_all add: sample_task_def Task_new_def)

lemma sample_add: "rq_step (PID_TO_SLOT_init, RunQueue_new 0 0) sample_step"
  unfolding sample_step_def
  by (rule rq_step.add [of sample_task _ _ 5]) (simp_all add: rq_consts slot_get_new rt_has_room_def)

lemma sample_reachable: "rq_step\<^sup>*\<^sup>* (PID_TO_SLOT_init, RunQueue_new 0 0) (fst sample_step, snd sample_step)"
  using sample_add by simp

lemma sample_ok: "rq_ok (fst sample_step) (snd sample_step)"
  using rq_reachable_ok [OF sample_reachable] rq_new_ok by simp

lemma sample_tasks:
  "slot_get (fst sample_step) (snd sample_step) = [7 \<mapsto> sample_task\<lparr>t_start_time := 5, t_on_rq := True\<rparr>]"
proof -
  let ?rq = "RunQueue_new 0 0" and ?t = "sample_task\<lparr>t_start_time := 5\<rparr>"
  have "free_stack ?rq \<noteq> []" by (simp add: RunQueue_new_def rq_consts)
  then have "slot_get (fst sample_step) (snd sample_step) = [7 \<mapsto> enqueued ?rq ?t]"
    using add_task_spec(2) [OF rq_new_ok, of sample_task PID_TO_SLOT_init 0 0 5 "fst sample_step" "snd sample_step"]
    by (simp add: sample_step_def slot_get_new rt_has_room_def)
  moreover have "enqueued ?rq ?t = ?t\<lparr>t_vruntime := 0, t_on_rq := True\<rparr>"
    by (simp add: enqueued_def RunQueue_new_def CfsRunQueue_new_def saturating_sub_def SCHED_LATENCY_NS_def)
  moreover have "?t\<lparr>t_vruntime := 0, t_on_rq := True\<rparr> = ?t\<lparr>t_on_rq := True\<rparr>"
    by (simp add: sample_task_def Task_new_def)
  ultimately show ?thesis by simp
qed

lemma sample_frame: "free_stack (snd sample_step) = rev [1..<256]" "rq_curr (snd sample_step) = None"
proof -
  have "[0..<256] = 0 # [1..<256]" by (simp add: upt_conv_Cons)
  then show "free_stack (snd sample_step) = rev [1..<256]" "rq_curr (snd sample_step) = None"
    by (simp_all add: sample_step_def RunQueue_add_task_def alloc_slot_def RunQueue_new_def rq_consts Let_def del: upt_rec_numeral)
qed





end
