(* ===== verification/Migration.thy ===== *)
theory Migration
  imports Runqueue_Steps
begin

text \<open>
  What the run queues of two CPUs do together: a task stolen from one and added to the other, the
  choice among the classes, and the time slice of the round-robin policy.
\<close>

section \<open>The class order\<close>

lemma pop_rt_highest:
  assumes ok: "rq_ok g rq" and u: "slot_get g rq q = Some u" "t_on_rq u" "is_realtime (t_policy u)"
  shows "\<exists>p t rq'. RunQueue_pop_next_task g rq = (p, rq') \<and> slot_get g rq p = Some t \<and> is_realtime (t_policy t)
    \<and> priority_to_index (t_rt_priority u) \<le> priority_to_index (t_rt_priority t)"
proof -
  let ?r = "rt_rq rq" and ?T = "slot_get g rq" and ?j = "priority_to_index (t_rt_priority u)"
  define i where "i = highest_index (bitmap ?r)"
  have q: "queues_ok ?T rq" and inv: "rt_inv ?r" using ok by (simp_all add: rq_ok_def queues_ok_def)
  have "rt_queued ?T ?j q" using u by (simp add: rt_queued_def)
  then have "0 < count (mset (rt_row ?r ?j)) q" using q index_less by (simp add: queues_ok_def)
  then have j: "rt_row ?r ?j \<noteq> []" by auto
  then have nz: "bitmap ?r \<noteq> 0" using bitmap_zero_iff [OF inv] index_less by blast
  have i: "rt_idx ?r i" unfolding i_def by (rule highest_index_idx [OF inv nz])
  then have "?j \<le> i" using j index_less by (metis not_le rt_idx_def)
  obtain rq' where pop: "RtRunQueue_pop_next ?r = (Some (hd (rt_row ?r i)), rq')"
    using pop_row(2) [OF inv i] by blast
  have "rt_queued ?T i (hd (rt_row ?r i))" using i by (intro rt_row_queued [OF q]) (simp_all add: rt_idx_def)
  then obtain t where "?T (hd (rt_row ?r i)) = Some t" "is_realtime (t_policy t)" "priority_to_index (t_rt_priority t) = i"
    by (auto simp: rt_queued_def split: option.splits)
  moreover have "\<exists>rq''. RunQueue_pop_next_task g rq = (hd (rt_row ?r i), rq'')"
    using pop by (simp add: RunQueue_pop_next_task_def Let_def)
  ultimately show ?thesis using \<open>?j \<le> i\<close> by blast
qed

text \<open>
  C33. Real-time first: whenever a real-time task is queued, the next task dispatched is a real-time
  task of at least its priority; the fair class is served only when no real-time task is queued, and
  the idle task only when nothing is.
\<close>

theorem real_time_first:
  assumes "rq_ok g rq" "slot_get g rq q = Some u" "t_on_rq u" "t_policy u \<noteq> Idle"
    "RunQueue_pop_next_task g rq = (p, rq')"
  shows "\<exists>t. slot_get g rq p = Some t \<and> t_on_rq t \<and> t_policy t \<noteq> Idle
    \<and> (is_realtime (t_policy u) \<longrightarrow> is_realtime (t_policy t)
        \<and> priority_to_index (t_rt_priority u) \<le> priority_to_index (t_rt_priority t))"
proof -
  have "q \<in> set (rq_order rq)" using assms(2-4) queued_iff_order [OF assms(1)] by blast
  then obtain ps where ps: "rq_order rq = p # ps"
    using pop_next_task_spec [OF assms(1)] assms(5) by (cases "rq_order rq") auto
  then have "\<exists>t. slot_get g rq p = Some t \<and> t_on_rq t \<and> t_policy t \<noteq> Idle"
    using queued_iff_order(1) [OF assms(1), of p] by simp
  then show ?thesis using pop_rt_highest [OF assms(1-3)] assms(5) by auto
qed

theorem real_time_first_witness:
  "fst (RunQueue_pop_next_task (fst sample_step) (snd sample_step)) = 7"
proof -
  obtain p rq' where pop: "RunQueue_pop_next_task (fst sample_step) (snd sample_step) = (p, rq')" by fastforce
  have "\<exists>t. slot_get (fst sample_step) (snd sample_step) p = Some t"
    using real_time_first [OF sample_ok _ _ _ pop, of 7] by (auto simp: sample_tasks split: if_splits)
  then show ?thesis using pop by (auto simp: sample_tasks split: if_splits)
qed

section \<open>Migration\<close>

text \<open>
  C32. Stealing is safe: a stolen task was queued under the normal policy, was not the running one,
  was alive and allowed on the destination CPU, and had the greatest virtual runtime of all such
  tasks.  Adding it to the queue of the destination leaves both queues consistent, with the task
  queued on the destination and gone from the source, and no other task moved.
\<close>

theorem migration_moves_one_task:
  assumes src: "rq_ok g src" and dst: "rq_ok g dst" "free_stack dst \<noteq> []"
    and only: "\<And>p. slot_get g src p \<noteq> None \<Longrightarrow> slot_get g dst p = None"
    and steal: "RunQueue_steal_task g src cpu = (Some task, g1, src')"
    and add: "RunQueue_add_task now g1 dst task = (g2, dst')"
  shows "\<exists>t. slot_get g src (t_pid task) = Some t \<and> stealable src cpu t
      \<and> (\<forall>p u. slot_get g src p = Some u \<longrightarrow> stealable src cpu u \<longrightarrow> t_vruntime u \<le> t_vruntime t)
      \<and> rq_ok g2 src' \<and> rq_ok g2 dst'
      \<and> slot_get g2 src' = (slot_get g src)(t_pid task := None)
      \<and> t_pid task \<in> set (rq_order dst') \<and> t_pid task \<notin> set (rq_order src')
      \<and> (\<forall>p. p \<noteq> t_pid task \<longrightarrow> slot_get g2 dst' p = slot_get g dst p)"
proof -
  obtain t where t: "slot_get g src (t_pid t) = Some t" "task = t\<lparr>t_on_rq := False\<rparr>" "stealable src cpu t"
    "\<forall>p u. slot_get g src p = Some u \<longrightarrow> stealable src cpu u \<longrightarrow> t_vruntime u \<le> t_vruntime t"
    and src': "rq_ok g1 src'" "slot_get g1 src' = (slot_get g src)(t_pid t := None)"
    and g1: "g1 = g(unat (t_pid t) := SLOT_NONE)"
    using steal_task_spec [OF src steal] by blast
  have pid: "t_pid task = t_pid t" using t(2) by simp
  have pol: "t_policy task = Normal" "\<not> t_on_rq task" using t(2,3) by (simp_all add: stealable_def)
  have absent: "slot_get g dst (t_pid t) = None" using only t(1) by simp
  have "g1 (unat p) = g (unat p)" if "slot_get g dst p \<noteq> None" for p
    using that absent g1 by (metis fun_upd_other word_unat_eq_iff)
  note dst1 = other_cpu_ok [OF dst(1) this]
  have room: "rt_has_room dst task" using pol by (simp add: rt_has_room_def)
  have "unat (t_pid task) < 4096" using t(1) by (simp add: pid slot_get_Some)
  note add' = add_task_spec [OF dst1(1) this _ dst(2) pol(2) room add]
  have dst': "rq_ok g2 dst'" "\<exists>t'. slot_get g2 dst' = (slot_get g dst)(t_pid task \<mapsto> t') \<and> t_on_rq t' \<and> t_policy t' = Normal"
    "g2 = g1(unat (t_pid task) := last (free_stack dst))"
    using add' absent pol by (auto simp: dst1(2) pid enqueued_def)
  have "g2 (unat p) = g1 (unat p)" if "slot_get g1 src' p \<noteq> None" for p
    using that src'(2) dst'(3) pid by (metis fun_upd_other fun_upd_same word_unat_eq_iff)
  note src2 = other_cpu_ok [OF src'(1) this]
  have "t_pid task \<in> set (rq_order dst')" using dst'(2) queued_iff_order(1) [OF dst'(1)] by fastforce
  moreover have "t_pid task \<notin> set (rq_order src')"
    using queued_iff_order(1) [OF src2(1)] src2(2) src'(2) pid by simp
  ultimately show ?thesis using t src2 src'(2) dst'(1,2) pid by (intro exI [of _ t]) auto
qed

definition sample_step2 :: "SlotTable \<times> RunQueue" where
  "sample_step2 = RunQueue_add_task 5 (fst sample_step) (snd sample_step) (sample_task\<lparr>t_pid := 8\<rparr>)"

lemma sample2:
  shows "rq_ok (fst sample_step2) (snd sample_step2)" and "1 < rq_nr_running (snd sample_step2)"
    and "\<exists>t. slot_get (fst sample_step2) (snd sample_step2) 7 = Some t \<and> stealable (snd sample_step2) 1 t"
proof -
  let ?g = "fst sample_step" and ?rq = "snd sample_step" and ?t = "sample_task\<lparr>t_pid := 8\<rparr>"
  have free: "free_stack ?rq \<noteq> []" by (simp add: sample_frame(1))
  have curr: "rq_curr (snd sample_step2) = None"
    using free by (simp add: sample_step2_def RunQueue_add_task_def alloc_slot_def Let_def sample_frame(2))
  note add = add_task_spec [OF sample_ok, of ?t 5 "fst sample_step2" "snd sample_step2"]
  have get: "slot_get (fst sample_step2) (snd sample_step2)
    = (slot_get ?g ?rq)(8 \<mapsto> enqueued ?rq (?t\<lparr>t_start_time := 5\<rparr>))" and ok: "rq_ok (fst sample_step2) (snd sample_step2)"
    using add free by (simp_all add: sample_step2_def sample_tasks rt_has_room_def)
  show "rq_ok (fst sample_step2) (snd sample_step2)" by (rule ok)
  have "7 \<in> set (rq_order (snd sample_step2))" "8 \<in> set (rq_order (snd sample_step2))"
    using queued_iff_order(1) [OF ok] by (simp_all add: get sample_tasks enqueued_def)
  then have "card {7, 8 :: Pid} \<le> length (rq_order (snd sample_step2))"
    by (intro order_trans [OF card_mono card_length]) auto
  then show "1 < rq_nr_running (snd sample_step2)"
    using length_rq_order [OF ok] by (simp add: word_less_nat_alt)
  show "\<exists>t. slot_get (fst sample_step2) (snd sample_step2) 7 = Some t \<and> stealable (snd sample_step2) 1 t"
    by (simp add: get sample_tasks stealable_def curr is_dead_def TASK_RUNNING_def TASK_DEAD_def TASK_ZOMBIE_def
        Task_can_run_on_def is_set_iff CpuSet_all_def cpu_word_def)
qed

theorem migration_moves_one_task_witness:
  "\<exists>task g1 src' g2 dst'. RunQueue_steal_task (fst sample_step2) (snd sample_step2) 1 = (Some task, g1, src')
     \<and> RunQueue_add_task 9 g1 (RunQueue_new 1 0) task = (g2, dst') \<and> rq_ok g2 src' \<and> rq_ok g2 dst'
     \<and> t_pid task \<in> set (rq_order dst')"
proof -
  obtain task g1 src' where steal: "RunQueue_steal_task (fst sample_step2) (snd sample_step2) 1 = (Some task, g1, src')"
    using steal_task_Some [OF sample2(1,2)] sample2(3) by blast
  obtain g2 dst' where add: "RunQueue_add_task 9 g1 (RunQueue_new 1 0) task = (g2, dst')" by fastforce
  have "free_stack (RunQueue_new 1 0) \<noteq> []" by (simp add: RunQueue_new_def rq_consts)
  from migration_moves_one_task [OF sample2(1) rq_new_ok this _ steal add] steal add
  show ?thesis by (auto simp: slot_get_new)
qed

section \<open>Round robin\<close>

primrec rq_ticks :: "(MetaRef \<Rightarrow> bool) \<Rightarrow> SlotTable \<Rightarrow> bool \<Rightarrow> nat \<Rightarrow> CpuTimes \<times> RunQueue \<Rightarrow> bool list \<times> CpuTimes \<times> RunQueue" where
  "rq_ticks lock_free g wait 0 s = ([], s)"
| "rq_ticks lock_free g wait (Suc n) s =
     (case RunQueue_scheduler_tick lock_free g wait s of
        (r, s') \<Rightarrow> (case rq_ticks lock_free g wait n s' of (rs, s'') \<Rightarrow> (r # rs, s'')))"

lemma rr_tick:
  assumes "rq_curr rq = Some p" "slot_get g rq p = Some t" "t_policy t = RoundRobin" "unat (t_time_slice t) = Suc n"
  shows "RunQueue_scheduler_tick lock_free g wait (metas, rq) =
    (if n = 0 then (True, metas, (slot_get_mut g rq p (\<lambda>t. t\<lparr>t_time_slice := 10\<rparr>))\<lparr>rq_need_resched := True\<rparr>)
     else (False, metas, slot_get_mut g rq p (\<lambda>t. t\<lparr>t_time_slice := t_time_slice t - 1\<rparr>)))"
    and "unat (t_time_slice t - 1) = n"
proof -
  have pos: "0 < t_time_slice t" using assms(4) by (simp add: word_less_nat_alt)
  then show n: "unat (t_time_slice t - 1) = n" using assms(4) unat_minus_one [of "t_time_slice t"] by auto
  have "t_time_slice t - 1 = 0 \<longleftrightarrow> n = 0" using n by (metis unat_eq_0)
  then show "RunQueue_scheduler_tick lock_free g wait (metas, rq) =
    (if n = 0 then (True, metas, (slot_get_mut g rq p (\<lambda>t. t\<lparr>t_time_slice := 10\<rparr>))\<lparr>rq_need_resched := True\<rparr>)
     else (False, metas, slot_get_mut g rq p (\<lambda>t. t\<lparr>t_time_slice := t_time_slice t - 1\<rparr>)))"
    using assms(1-3) pos by (simp add: RunQueue_scheduler_tick_def default_time_slice_def)
qed

text \<open>
  C36. A round-robin task keeps the CPU for exactly its remaining time slice: the tick handler asks
  for no preemption until the last tick of the slice, asks for it then, and refills the slice with
  the default of ten ticks.
\<close>

theorem round_robin_slice:
  assumes "length (slots rq) = 256" "rq_curr rq = Some p" "slot_get g rq p = Some t" "t_policy t = RoundRobin"
    "unat (t_time_slice t) = Suc n"
  shows "case rq_ticks lock_free g wait (Suc n) (metas, rq) of (rs, metas', rq') \<Rightarrow>
    rs = replicate n False @ [True] \<and> rq_need_resched rq' \<and> metas' = metas
    \<and> slot_get g rq' = (slot_get g rq)(p \<mapsto> t\<lparr>t_time_slice := 10\<rparr>)"
  using assms
proof (induction n arbitrary: rq t)
  case 0
  then show ?case by (simp add: rr_tick slot_get_mut_get fun_eq_iff)
next
  case (Suc n)
  let ?rq = "slot_get_mut g rq p (\<lambda>t. t\<lparr>t_time_slice := t_time_slice t - 1\<rparr>)"
  have get: "slot_get g ?rq = (slot_get g rq)(p \<mapsto> t\<lparr>t_time_slice := t_time_slice t - 1\<rparr>)"
    using Suc.prems by (simp add: slot_get_mut_get)
  have "unat (t_time_slice t - 1) = Suc n" by (rule rr_tick(2) [OF Suc.prems(2-5)])
  then show ?case
    using Suc.IH [of ?rq "t\<lparr>t_time_slice := t_time_slice t - 1\<rparr>"] Suc.prems rr_tick(1) [OF Suc.prems(2-5)]
    by (auto simp: get split: prod.splits)
qed

theorem round_robin_slice_witness:
  "\<exists>g rq t. slot_get g rq 7 = Some t \<and> unat (t_time_slice t) = Suc 2
     \<and> fst (rq_ticks (\<lambda>_. True) g False (Suc 2) (\<lambda>_. 0, rq)) = replicate 2 False @ [True]"
proof -
  define g :: SlotTable where "g = (\<lambda>_. 0)"
  define t where "t = sample_task\<lparr>t_policy := RoundRobin, t_time_slice := 3\<rparr>"
  define rq where "rq = (RunQueue_new 0 0)\<lparr>rq_curr := Some 7, slots := Some t # replicate 255 None\<rparr>"
  have t: "t_policy t = RoundRobin" "unat (t_time_slice t) = Suc 2" by (simp_all add: t_def)
  have rq: "length (slots rq) = 256" "rq_curr rq = Some 7" "slot_get g rq 7 = Some t"
    by (simp_all add: rq_def slot_get_def rq_consts g_def t_def)
  have "fst (rq_ticks (\<lambda>_. True) g False (Suc 2) (\<lambda>_. 0, rq)) = replicate 2 False @ [True]"
    using round_robin_slice [OF rq t, where lock_free = "\<lambda>_. True" and wait = False and metas = "\<lambda>_. 0"]
    by (auto simp del: rq_ticks.simps split: prod.splits)
  with rq(3) t(2) show ?thesis by blast
qed

end
