(* ===== verification/Ring.thy ===== *)
theory Ring
  imports Prelude
begin

text \<open>
  Ring buffers of bytes.  The pipe buffer and the stream buffer of local sockets are written with the
  same two loops, which copy bytes out of and into a circular array; this theory has the loops, what
  they do to the list of buffered bytes, and the interface of a bounded byte queue with the property
  its users rely on: bytes come out in the order in which they went in.
\<close>

section \<open>The copy loops\<close>

fun ring_get :: "'a list \<Rightarrow> nat \<Rightarrow> nat \<Rightarrow> nat \<Rightarrow> 'a list \<times> nat" where
  "ring_get data cap pos 0 = ([], pos)"
| "ring_get data cap pos (Suc n) =
     (case ring_get data cap ((pos + 1) mod cap) n of (bs, pos') \<Rightarrow> (data ! pos # bs, pos'))"

fun ring_put :: "'a list \<Rightarrow> nat \<Rightarrow> nat \<Rightarrow> 'a list \<Rightarrow> 'a list \<times> nat" where
  "ring_put data cap pos [] = (data, pos)"
| "ring_put data cap pos (b # bs) = ring_put (data[pos := b]) cap ((pos + 1) mod cap) bs"

text \<open>The \<open>n\<close> bytes from a position on.\<close>

definition ring_contents :: "'a list \<Rightarrow> nat \<Rightarrow> nat \<Rightarrow> nat \<Rightarrow> 'a list" where
  "ring_contents data cap pos n = map (\<lambda>i. data ! ((pos + i) mod cap)) [0..<n]"

lemma length_ring_contents [simp]: "length (ring_contents data cap pos n) = n"
  by (simp add: ring_contents_def)

lemma ring_contents_0 [simp]: "ring_contents data cap pos 0 = []"
  by (simp add: ring_contents_def)

lemma ring_contents_Suc:
  assumes "pos < cap"
  shows "ring_contents data cap pos (Suc n) = data ! pos # ring_contents data cap ((pos + 1) mod cap) n"
proof -
  have "[0..<Suc n] = 0 # map Suc [0..<n]" by (simp add: upt_conv_Cons map_Suc_upt del: upt_Suc)
  moreover have "(pos + Suc i) mod cap = ((pos + 1) mod cap + i) mod cap" for i
    by (simp add: mod_add_left_eq)
  ultimately show ?thesis using assms by (simp add: ring_contents_def del: upt_Suc)
qed

lemma ring_contents_drop:
  "k \<le> n \<Longrightarrow> drop k (ring_contents data cap pos n) = ring_contents data cap ((pos + k) mod cap) (n - k)"
  by (rule nth_equalityI) (simp_all add: ring_contents_def mod_add_left_eq add.assoc less_diff_conv)

lemma ring_contents_take:
  "k \<le> n \<Longrightarrow> take k (ring_contents data cap pos n) = ring_contents data cap pos k"
  by (rule nth_equalityI) (simp_all add: ring_contents_def)

lemma ring_get_eq: "pos < cap \<Longrightarrow> ring_get data cap pos n = (ring_contents data cap pos n, (pos + n) mod cap)"
proof (induction n arbitrary: pos)
  case (Suc n)
  have "(pos + 1) mod cap < cap" using Suc.prems by simp
  from Suc.IH [OF this] Suc.prems show ?case by (simp add: ring_contents_Suc mod_add_left_eq)
qed simp

lemma mod_add_inj:
  fixes i j c p :: nat
  assumes "i < c" "j < c" "(p + i) mod c = (p + j) mod c"
  shows "i = j"
proof -
  have "i mod c = j mod c"
  proof (cases "i \<le> j")
    case True
    then have "c dvd (p + j) - (p + i)" using assms(3) mod_eq_dvd_iff_nat [of "p + i" "p + j" c] by simp
    then show ?thesis using assms True by (auto dest: dvd_imp_le)
  next
    case False
    then have "c dvd (p + i) - (p + j)" using assms(3) mod_eq_dvd_iff_nat [of "p + j" "p + i" c] by simp
    then show ?thesis using assms False by (auto dest: dvd_imp_le)
  qed
  then show ?thesis using assms(1,2) by simp
qed

lemma ring_contents_append:
  assumes "length data = cap" "n < cap"
  shows "ring_contents (data[(pos + n) mod cap := b]) cap pos (Suc n) = ring_contents data cap pos n @ [b]"
proof (rule nth_equalityI)
  fix i assume "i < length (ring_contents (data[(pos + n) mod cap := b]) cap pos (Suc n))"
  then have i: "i < Suc n" by simp
  have "(pos + n) mod cap \<noteq> (pos + i) mod cap" if "i < n"
    using mod_add_inj [of n cap i pos] assms(2) that by auto
  with i assms show "ring_contents (data[(pos + n) mod cap := b]) cap pos (Suc n) ! i
      = (ring_contents data cap pos n @ [b]) ! i"
    by (cases "i = n") (auto simp: ring_contents_def nth_append simp del: upt_Suc)
qed simp

lemma ring_put_all:
  assumes "length data = cap" "n + length bs \<le> cap" "0 < cap"
  shows "length (fst (ring_put data cap ((pos + n) mod cap) bs)) = cap
    \<and> snd (ring_put data cap ((pos + n) mod cap) bs) = (pos + n + length bs) mod cap
    \<and> ring_contents (fst (ring_put data cap ((pos + n) mod cap) bs)) cap pos (n + length bs)
      = ring_contents data cap pos n @ bs"
  using assms
proof (induction bs arbitrary: data n)
  case (Cons b bs)
  let ?d = "data[(pos + n) mod cap := b]"
  have next_pos: "((pos + n) mod cap + 1) mod cap = (pos + Suc n) mod cap" by (simp add: mod_Suc_eq)
  have d: "length ?d = cap" "Suc n + length bs \<le> cap" using Cons.prems by simp_all
  have app: "ring_contents ?d cap pos (Suc n) = ring_contents data cap pos n @ [b]"
    using Cons.prems by (intro ring_contents_append) auto
  have put: "ring_put data cap ((pos + n) mod cap) (b # bs) = ring_put ?d cap ((pos + Suc n) mod cap) bs"
    by (simp only: ring_put.simps next_pos)
  show ?case unfolding put using Cons.IH [OF d Cons.prems(3)] app by simp
qed simp

lemmas ring_put_eq = ring_put_all [THEN conjunct1] ring_put_all [THEN conjunct2, THEN conjunct1]
  ring_put_all [THEN conjunct2, THEN conjunct2]

section \<open>The interface of a bounded byte queue\<close>

datatype 'a fifo_op = Read nat | Write "'a list"

locale byte_fifo =
  fixes inv :: "'s \<Rightarrow> bool"
    and contents :: "'s \<Rightarrow> 'a list"
    and capacity :: "'s \<Rightarrow> nat"
    and rd :: "'s \<Rightarrow> 'a list \<Rightarrow> nat \<times> 'a list \<times> 's"
    and wr :: "'s \<Rightarrow> 'a list \<Rightarrow> nat \<times> 's"
  assumes bounded: "inv s \<Longrightarrow> length (contents s) \<le> capacity s"
    and rd_spec: "inv s \<Longrightarrow> rd s buf = (n, buf', s') \<Longrightarrow> n = min (length buf) (length (contents s))
      \<and> buf' = take n (contents s) @ drop n buf \<and> inv s' \<and> contents s' = drop n (contents s)
      \<and> capacity s' = capacity s"
    and wr_spec: "inv s \<Longrightarrow> wr s bs = (n, s') \<Longrightarrow> n = min (length bs) (capacity s - length (contents s))
      \<and> inv s' \<and> contents s' = contents s @ take n bs \<and> capacity s' = capacity s"
begin

text \<open>A sequence of reads and writes, with the bytes accepted and the bytes delivered.\<close>

primrec transfer :: "'a fifo_op list \<Rightarrow> 'a \<Rightarrow> 's \<Rightarrow> 'a list \<times> 'a list \<times> 's" where
  "transfer [] fill s = ([], [], s)"
| "transfer (op # ops) fill s =
     (case op of
        Read k \<Rightarrow>
          (case rd s (replicate k fill) of (n, buf, s') \<Rightarrow>
           case transfer ops fill s' of (win, wout, s'') \<Rightarrow> (win, take n buf @ wout, s''))
      | Write bs \<Rightarrow>
          (case wr s bs of (n, s') \<Rightarrow>
           case transfer ops fill s' of (win, wout, s'') \<Rightarrow> (take n bs @ win, wout, s'')))"

lemma transfer_fifo:
  "inv s \<Longrightarrow> transfer ops fill s = (win, wout, s') \<Longrightarrow> contents s @ win = wout @ contents s' \<and> inv s'"
proof (induction ops arbitrary: s win wout s')
  case (Cons op ops)
  show ?case
  proof (cases op)
    case (Read k)
    obtain n buf s1 where r: "rd s (replicate k fill) = (n, buf, s1)" using prod_cases3 by blast
    obtain w1 w2 s2 where t: "transfer ops fill s1 = (w1, w2, s2)" using prod_cases3 by blast
    note spec = rd_spec [OF Cons.prems(1) r]
    have "contents s1 @ w1 = w2 @ contents s2 \<and> inv s2" using Cons.IH [OF _ t] spec by blast
    moreover have "take n buf = take n (contents s)" using spec by auto
    moreover have "win = w1" "wout = take n buf @ w2" "s' = s2" using Cons.prems(2) Read r t by auto
    ultimately show ?thesis using spec by (metis append.assoc append_take_drop_id)
  next
    case (Write bs)
    obtain n s1 where w: "wr s bs = (n, s1)" by fastforce
    obtain w1 w2 s2 where t: "transfer ops fill s1 = (w1, w2, s2)" using prod_cases3 by blast
    note spec = wr_spec [OF Cons.prems(1) w]
    have "contents s1 @ w1 = w2 @ contents s2 \<and> inv s2" using Cons.IH [OF _ t] spec by blast
    moreover have "win = take n bs @ w1" "wout = w2" "s' = s2" using Cons.prems(2) Write w t by auto
    ultimately show ?thesis using spec by simp
  qed
qed simp

end

end
