(* ===== verification/Waitqueue.thy ===== *)
theory Waitqueue
  imports Prelude
begin

text \<open>
  Wait queues, \<open>kernel/core/waitqueue/src/lib.rs\<close>: sixteen atomic slots that hold the process ids of
  the waiters.  Each operation of the source is a short sequence of atomic accesses; here it is one
  step, and the processes that a wake-up hands to the scheduler are part of its result.
\<close>

definition WQ_PID_NONE :: u32 where "WQ_PID_NONE = - 1"
definition MAX_WAITERS :: nat where "MAX_WAITERS = 16"

record WaitQueue =
  wq_slots :: "u32 list"
  wq_len :: u32

definition WaitQueue_new :: WaitQueue where
  "WaitQueue_new = \<lparr>wq_slots = replicate MAX_WAITERS WQ_PID_NONE, wq_len = 0\<rparr>"

text \<open>The scan for a slot with a given value, shared by the operations.\<close>

fun first_slot :: "(u32 \<Rightarrow> bool) \<Rightarrow> u32 list \<Rightarrow> nat \<Rightarrow> nat option" where
  "first_slot P [] i = None"
| "first_slot P (x # xs) i = (if P x then Some i else first_slot P xs (Suc i))"

definition WaitQueue_register :: "WaitQueue \<Rightarrow> u32 \<Rightarrow> nat option \<times> WaitQueue" where
  "WaitQueue_register q p =
     (case first_slot (\<lambda>x. x = WQ_PID_NONE) (wq_slots q) 0 of
        Some i \<Rightarrow> (Some i, q\<lparr>wq_slots := (wq_slots q)[i := p], wq_len := wq_len q + 1\<rparr>)
      | None \<Rightarrow> (None, q))"

definition WaitQueue_unregister :: "WaitQueue \<Rightarrow> nat \<Rightarrow> WaitQueue" where
  "WaitQueue_unregister q slot =
     (if slot < MAX_WAITERS then
        (let old = wq_slots q ! slot; q' = q\<lparr>wq_slots := (wq_slots q)[slot := WQ_PID_NONE]\<rparr> in
         if old \<noteq> WQ_PID_NONE then q'\<lparr>wq_len := wq_len q' - 1\<rparr> else q')
      else q)"

definition WaitQueue_unregister_pid :: "WaitQueue \<Rightarrow> u32 \<Rightarrow> WaitQueue" where
  "WaitQueue_unregister_pid q p =
     (case first_slot (\<lambda>x. x = p) (wq_slots q) 0 of
        Some i \<Rightarrow> q\<lparr>wq_slots := (wq_slots q)[i := WQ_PID_NONE], wq_len := wq_len q - 1\<rparr>
      | None \<Rightarrow> q)"

text \<open>The loop of \<open>wake_all\<close>: each slot is emptied, and its process woken if there was one.\<close>

definition wake_slot :: "u32 list \<times> WaitQueue \<Rightarrow> nat \<Rightarrow> u32 list \<times> WaitQueue" where
  "wake_slot s i =
     (case s of (woken, q) \<Rightarrow>
      (let p = wq_slots q ! i; q' = q\<lparr>wq_slots := (wq_slots q)[i := WQ_PID_NONE]\<rparr> in
       if p \<noteq> WQ_PID_NONE then (woken @ [p], q'\<lparr>wq_len := wq_len q' - 1\<rparr>) else (woken, q')))"

definition WaitQueue_wake_all :: "WaitQueue \<Rightarrow> u32 list \<times> WaitQueue" where
  "WaitQueue_wake_all q = foldl wake_slot ([], q) [0..<MAX_WAITERS]"

definition WaitQueue_wake_one :: "WaitQueue \<Rightarrow> u32 option \<times> WaitQueue" where
  "WaitQueue_wake_one q =
     (case first_slot (\<lambda>x. x \<noteq> WQ_PID_NONE) (wq_slots q) 0 of
        Some i \<Rightarrow> (Some (wq_slots q ! i),
                    q\<lparr>wq_slots := (wq_slots q)[i := WQ_PID_NONE], wq_len := wq_len q - 1\<rparr>)
      | None \<Rightarrow> (None, q))"

definition WaitQueue_has_waiters :: "WaitQueue \<Rightarrow> bool" where
  "WaitQueue_has_waiters q \<longleftrightarrow> 0 < wq_len q"

section \<open>Poll tables\<close>

text \<open>
  A poll table remembers the queues and slots of one \<open>poll\<close> call.  The queues lie in a store, since
  two entries may name the same queue; a null pointer is \<open>None\<close>.
\<close>

definition MAX_POLL_ENTRIES :: nat where "MAX_POLL_ENTRIES = 32"

type_synonym WqRef = nat
type_synonym WqStore = "WqRef \<Rightarrow> WaitQueue"

record PollEntry =
  pe_wq :: "WqRef option"
  pe_slot :: nat

record PollTable =
  entries :: "PollEntry list"
  pt_count :: nat
  pt_pid :: u32

definition PollTable_new :: "u32 \<Rightarrow> PollTable" where
  "PollTable_new p = \<lparr>entries = replicate MAX_POLL_ENTRIES \<lparr>pe_wq = None, pe_slot = 0\<rparr>, pt_count = 0, pt_pid = p\<rparr>"

definition PollTable_register :: "PollTable \<times> WqStore \<Rightarrow> WqRef \<Rightarrow> PollTable \<times> WqStore" where
  "PollTable_register s wq =
     (case s of (t, qs) \<Rightarrow>
      if MAX_POLL_ENTRIES \<le> pt_count t then (t, qs)
      else case WaitQueue_register (qs wq) (pt_pid t) of
          (Some slot, q) \<Rightarrow>
            (t\<lparr>entries := (entries t)[pt_count t := \<lparr>pe_wq = Some wq, pe_slot = slot\<rparr>], pt_count := pt_count t + 1\<rparr>,
             qs(wq := q))
        | (None, q) \<Rightarrow> (t, qs(wq := q)))"

definition PollTable_unregister_all :: "PollTable \<times> WqStore \<Rightarrow> PollTable \<times> WqStore" where
  "PollTable_unregister_all s =
     (case s of (t, qs) \<Rightarrow>
      (t\<lparr>pt_count := 0\<rparr>,
       foldl (\<lambda>qs e. case pe_wq e of Some wq \<Rightarrow> qs(wq := WaitQueue_unregister (qs wq) (pe_slot e)) | None \<Rightarrow> qs)
         qs (take (pt_count t) (entries t))))"

section \<open>Waiters\<close>

text \<open>The processes that wait, in the order of their slots.\<close>

definition wq_waiters :: "WaitQueue \<Rightarrow> u32 list" where
  "wq_waiters q = filter (\<lambda>x. x \<noteq> WQ_PID_NONE) (wq_slots q)"

definition wq_inv :: "WaitQueue \<Rightarrow> bool" where
  "wq_inv q \<longleftrightarrow> length (wq_slots q) = 16 \<and> wq_len q = of_nat (length (wq_waiters q))"

lemma wq_inv_new: "wq_inv WaitQueue_new" "wq_waiters WaitQueue_new = []"
  by (simp_all add: wq_inv_def wq_waiters_def WaitQueue_new_def MAX_WAITERS_def)

lemma first_slot_Some:
  "first_slot P xs k = Some i \<Longrightarrow> k \<le> i \<and> i < k + length xs \<and> P (xs ! (i - k)) \<and> (\<forall>j<i - k. \<not> P (xs ! j))"
proof (induction xs arbitrary: k)
  case (Cons x xs)
  show ?case
  proof (cases "P x")
    case False
    then have IH: "Suc k \<le> i \<and> i < Suc k + length xs \<and> P (xs ! (i - Suc k)) \<and> (\<forall>j<i - Suc k. \<not> P (xs ! j))"
      using Cons.IH [of "Suc k"] Cons.prems False by auto
    then have "i - k = Suc (i - Suc k)" by (simp add: Suc_diff_Suc Suc_le_eq)
    with IH False show ?thesis by (simp add: All_less_Suc2)
  qed (use Cons in auto)
qed simp

lemma first_slot_None: "first_slot P xs k = None \<longleftrightarrow> (\<forall>x\<in>set xs. \<not> P x)"
  by (induction xs arbitrary: k) auto

lemmas first_slot_Some0 = first_slot_Some [where k = 0, simplified]

lemma filter_update:
  assumes "i < length xs"
  shows "filter P (xs[i := y]) = filter P (take i xs) @ (if P y then [y] else []) @ filter P (drop (Suc i) xs)"
    and "filter P xs = filter P (take i xs) @ (if P (xs ! i) then [xs ! i] else []) @ filter P (drop (Suc i) xs)"
  using assms by (simp_all add: upd_conv_take_nth_drop) (metis filter.simps filter_append id_take_nth_drop append_Cons append_Nil)

section \<open>The operations on waiters\<close>

lemma wake_all_loop:
  assumes "n \<le> length (wq_slots q)"
  shows "foldl wake_slot ([], q) [0..<n]
    = (filter (\<lambda>x. x \<noteq> WQ_PID_NONE) (take n (wq_slots q)),
       q\<lparr>wq_slots := replicate n WQ_PID_NONE @ drop n (wq_slots q),
         wq_len := wq_len q - of_nat (length (filter (\<lambda>x. x \<noteq> WQ_PID_NONE) (take n (wq_slots q))))\<rparr>)"
  using assms
proof (induction n)
  case (Suc n)
  let ?xs = "wq_slots q"
  have n: "n < length ?xs" using Suc.prems by simp
  then have d: "drop n ?xs = ?xs ! n # drop (Suc n) ?xs" by (simp add: Cons_nth_drop_Suc)
  have IH: "foldl wake_slot ([], q) [0..<n]
    = (filter (\<lambda>x. x \<noteq> WQ_PID_NONE) (take n ?xs),
       q\<lparr>wq_slots := replicate n WQ_PID_NONE @ drop n ?xs,
         wq_len := wq_len q - of_nat (length (filter (\<lambda>x. x \<noteq> WQ_PID_NONE) (take n ?xs)))\<rparr>)"
    using Suc by simp
  have "foldl wake_slot ([], q) [0..<Suc n] = wake_slot (foldl wake_slot ([], q) [0..<n]) n" by simp
  also have "\<dots> = (filter (\<lambda>x. x \<noteq> WQ_PID_NONE) (take (Suc n) ?xs),
       q\<lparr>wq_slots := replicate (Suc n) WQ_PID_NONE @ drop (Suc n) ?xs,
         wq_len := wq_len q - of_nat (length (filter (\<lambda>x. x \<noteq> WQ_PID_NONE) (take (Suc n) ?xs)))\<rparr>)"
    unfolding IH wake_slot_def using n
    by (simp add: d nth_append list_update_append take_Suc_conv_app_nth replicate_app_Cons_same)
  finally show ?case .
qed simp

lemma wake_all_eq: "wq_inv q \<Longrightarrow> WaitQueue_wake_all q = (wq_waiters q, WaitQueue_new)"
  by (simp add: WaitQueue_wake_all_def wake_all_loop wq_inv_def wq_waiters_def WaitQueue_new_def MAX_WAITERS_def)

lemma register_spec:
  assumes inv: "wq_inv q" and p: "p \<noteq> WQ_PID_NONE"
  shows "case WaitQueue_register q p of
      (None, q') \<Rightarrow> q' = q \<and> length (wq_waiters q) = 16
    | (Some i, q') \<Rightarrow> i < 16 \<and> wq_slots q ! i = WQ_PID_NONE \<and> wq_slots q' = (wq_slots q)[i := p]
        \<and> wq_inv q' \<and> mset (wq_waiters q') = add_mset p (mset (wq_waiters q))"
proof (cases "first_slot (\<lambda>x. x = WQ_PID_NONE) (wq_slots q) 0")
  case None
  then have "filter (\<lambda>x. x \<noteq> WQ_PID_NONE) (wq_slots q) = wq_slots q" by (simp add: first_slot_None)
  with None inv show ?thesis by (simp add: WaitQueue_register_def wq_waiters_def wq_inv_def)
next
  case (Some i)
  have i: "i < length (wq_slots q)" "wq_slots q ! i = WQ_PID_NONE" using first_slot_Some0 [OF Some] by auto
  let ?q = "q\<lparr>wq_slots := (wq_slots q)[i := p], wq_len := wq_len q + 1\<rparr>"
  have "mset (wq_waiters ?q) = add_mset p (mset (wq_waiters q))"
    using filter_update [OF i(1), of "\<lambda>x. x \<noteq> WQ_PID_NONE"] i(2) p by (simp add: wq_waiters_def)
  moreover from this have "length (wq_waiters ?q) = Suc (length (wq_waiters q))"
    by (metis size_mset size_add_mset)
  ultimately show ?thesis using Some i inv by (simp add: WaitQueue_register_def wq_inv_def)
qed

lemma unregister_spec:
  assumes inv: "wq_inv q" and i: "i < 16"
  shows "wq_inv (WaitQueue_unregister q i)"
    and "wq_slots (WaitQueue_unregister q i) = (wq_slots q)[i := WQ_PID_NONE]"
    and "mset (wq_waiters q) = mset (wq_waiters (WaitQueue_unregister q i))
      + (if wq_slots q ! i = WQ_PID_NONE then {#} else {#wq_slots q ! i#})"
proof -
  let ?q = "WaitQueue_unregister q i"
  have len: "i < length (wq_slots q)" using inv i by (simp add: wq_inv_def)
  show s: "wq_slots ?q = (wq_slots q)[i := WQ_PID_NONE]"
    using i by (simp add: WaitQueue_unregister_def MAX_WAITERS_def Let_def)
  show m: "mset (wq_waiters q) = mset (wq_waiters ?q) + (if wq_slots q ! i = WQ_PID_NONE then {#} else {#wq_slots q ! i#})"
    using filter_update [OF len, of "\<lambda>x. x \<noteq> WQ_PID_NONE"] by (simp add: wq_waiters_def s)
  have len': "length (wq_waiters q) = length (wq_waiters ?q) + (if wq_slots q ! i = WQ_PID_NONE then 0 else 1)"
    using arg_cong [OF m, of size] by (simp split: if_splits)
  have "wq_len ?q = (if wq_slots q ! i = WQ_PID_NONE then wq_len q else wq_len q - 1)"
    using i by (simp add: WaitQueue_unregister_def MAX_WAITERS_def Let_def)
  then show "wq_inv ?q" using inv s len' by (simp add: wq_inv_def)
qed

text \<open>
  A slot number outlives the registration it stands for.  When a woken waiter unregisters its slot
  after another process has taken the slot, the other registration is deleted: that process is no
  longer woken.
\<close>

lemma unregister_evicts_other:
  assumes "p \<noteq> WQ_PID_NONE" "p' \<noteq> WQ_PID_NONE"
  shows "(let (i, q1) = WaitQueue_register WaitQueue_new p;
              (woken, q2) = WaitQueue_wake_all q1;
              (j, q3) = WaitQueue_register q2 p'
          in woken = [p] \<and> j = i \<and> wq_waiters q3 = [p'] \<and> wq_waiters (WaitQueue_unregister q3 (the i)) = [])"
proof -
  have reg: "WaitQueue_register WaitQueue_new x = (Some 0, \<lparr>wq_slots = x # replicate 15 WQ_PID_NONE, wq_len = 1\<rparr>)" for x
    using replicate_Suc [of 15 WQ_PID_NONE] by (simp add: WaitQueue_register_def WaitQueue_new_def MAX_WAITERS_def)
  let ?q1 = "\<lparr>wq_slots = p # replicate 15 WQ_PID_NONE, wq_len = 1\<rparr>"
  have "wq_inv ?q1" "wq_waiters ?q1 = [p]" using assms(1) by (simp_all add: wq_inv_def wq_waiters_def)
  then show ?thesis
    using assms(2) by (simp add: reg wake_all_eq) (simp add: wq_waiters_def WaitQueue_unregister_def MAX_WAITERS_def Let_def)
qed

end
