(* ===== verification/Vfs_Error.thy ===== *)
theory Vfs_Error
  imports Prelude
begin

text \<open>
  The errors of the virtual file system, \<open>kernel/vfs/vfs/src/error.rs\<close>, and their errno values.  A
  result of an operation is a sum whose left summand is the error.
\<close>

datatype VfsError =
    NotFound | PermissionDenied | AlreadyExists | NotDirectory | IsDirectory | InvalidArgument
    | NoSpace | ReadOnly | TooManyOpenFiles | BadFd | NotEmpty | CrossDevice | NameTooLong |
    IoError | NotSupported | Busy | NoDevice | BrokenPipe | WouldBlock | Interrupted |
    NotConnected | InvalidOperation | InvalidFilesystem | CorruptedFilesystem

primrec to_errno :: "VfsError \<Rightarrow> int" where
  "to_errno NotFound = - 2"
| "to_errno PermissionDenied = - 13"
| "to_errno AlreadyExists = - 17"
| "to_errno NotDirectory = - 20"
| "to_errno IsDirectory = - 21"
| "to_errno InvalidArgument = - 22"
| "to_errno NoSpace = - 28"
| "to_errno ReadOnly = - 30"
| "to_errno TooManyOpenFiles = - 24"
| "to_errno BadFd = - 9"
| "to_errno NotEmpty = - 39"
| "to_errno CrossDevice = - 18"
| "to_errno NameTooLong = - 36"
| "to_errno IoError = - 5"
| "to_errno NotSupported = - 95"
| "to_errno Busy = - 16"
| "to_errno NoDevice = - 19"
| "to_errno BrokenPipe = - 32"
| "to_errno WouldBlock = - 11"
| "to_errno Interrupted = - 4"
| "to_errno NotConnected = - 107"
| "to_errno InvalidOperation = - 22"
| "to_errno InvalidFilesystem = - 22"
| "to_errno CorruptedFilesystem = - 5"

type_synonym 'a VfsResult = "VfsError + 'a"

text \<open>No error can be taken for a successful count or descriptor.\<close>

lemma to_errno_negative: "to_errno e < 0"
  by (cases e) simp_all

end
