(* ===== verification/Pipe.thy ===== *)
theory Pipe
  imports Ring Waitqueue Vfs_Error
begin

text \<open>
  Anonymous pipes, \<open>kernel/vfs/vfs/src/pipe.rs\<close>.  The two ends share a ring buffer of 64 KiB under a
  lock and two wait queues outside of it.  An end's \<open>read\<close> or \<open>write\<close> is a loop of short atomic
  sections: an attempt under the lock, the registration in a wait queue, a second look at the buffer
  under the lock, and the call that marks the task as sleeping.  Each section is a definition here.
\<close>

section \<open>The buffer\<close>

definition PIPE_BUF_SIZE :: nat where "PIPE_BUF_SIZE = 65536"

record PipeBuffer =
  pb_data :: "u8 list"
  pb_read_pos :: nat
  pb_write_pos :: nat
  pb_count :: nat
  pb_readers :: u64
  pb_writers :: u64

definition PipeBuffer_new :: PipeBuffer where
  "PipeBuffer_new = \<lparr>pb_data = replicate PIPE_BUF_SIZE 0, pb_read_pos = 0, pb_write_pos = 0, pb_count = 0,
     pb_readers = 1, pb_writers = 1\<rparr>"

definition PipeBuffer_read :: "PipeBuffer \<Rightarrow> u8 list \<Rightarrow> nat \<times> u8 list \<times> PipeBuffer" where
  "PipeBuffer_read b buf =
     (if pb_count b = 0 then (0, buf, b)
      else
        (let to_read = min (length buf) (pb_count b);
             (bs, pos) = ring_get (pb_data b) PIPE_BUF_SIZE (pb_read_pos b) to_read
         in (to_read, bs @ drop to_read buf, b\<lparr>pb_read_pos := pos, pb_count := pb_count b - to_read\<rparr>)))"

definition PipeBuffer_write :: "PipeBuffer \<Rightarrow> u8 list \<Rightarrow> nat \<times> PipeBuffer" where
  "PipeBuffer_write b buf =
     (let available = PIPE_BUF_SIZE - pb_count b in
      if available = 0 then (0, b)
      else
        (let to_write = min (length buf) available;
             (data, pos) = ring_put (pb_data b) PIPE_BUF_SIZE (pb_write_pos b) (take to_write buf)
         in (to_write, b\<lparr>pb_data := data, pb_write_pos := pos, pb_count := pb_count b + to_write\<rparr>)))"

definition has_writers :: "PipeBuffer \<Rightarrow> bool" where "has_writers b \<longleftrightarrow> 0 < pb_writers b"
definition has_readers :: "PipeBuffer \<Rightarrow> bool" where "has_readers b \<longleftrightarrow> 0 < pb_readers b"

section \<open>The ends\<close>

record PipeShared =
  buffer :: PipeBuffer
  read_wq :: WaitQueue
  write_wq :: WaitQueue

definition create_pipe :: PipeShared where
  "create_pipe = \<lparr>buffer = PipeBuffer_new, read_wq = WaitQueue_new, write_wq = WaitQueue_new\<rparr>"

text \<open>Dropping an end wakes the waiters of the other one; the woken processes are a result.\<close>

definition PipeRead_drop :: "PipeShared \<Rightarrow> u32 list \<times> PipeShared" where
  "PipeRead_drop sh =
     (let sh = sh\<lparr>buffer := (buffer sh)\<lparr>pb_readers := pb_readers (buffer sh) - 1\<rparr>\<rparr>;
          (woken, wq) = WaitQueue_wake_all (write_wq sh)
      in (woken, sh\<lparr>write_wq := wq\<rparr>))"

definition PipeWrite_drop :: "PipeShared \<Rightarrow> u32 list \<times> PipeShared" where
  "PipeWrite_drop sh =
     (let sh = sh\<lparr>buffer := (buffer sh)\<lparr>pb_writers := pb_writers (buffer sh) - 1\<rparr>\<rparr>;
          (woken, wq) = WaitQueue_wake_all (read_wq sh)
      in (woken, sh\<lparr>read_wq := wq\<rparr>))"

text \<open>
  The first half of an iteration of \<open>PipeRead::read\<close>: the result to return, if any, the buffer of
  the caller, and the woken writers.
\<close>

definition PipeRead_attempt ::
  "PipeShared \<Rightarrow> u8 list \<Rightarrow> nat VfsResult option \<times> u8 list \<times> u32 list \<times> PipeShared" where
  "PipeRead_attempt sh buf =
     (if pb_count (buffer sh) = 0 \<and> \<not> has_writers (buffer sh) then (Some (Inr 0), buf, [], sh)
      else
        (let was_full = (pb_count (buffer sh) = PIPE_BUF_SIZE);
             (n, buf, b) = PipeBuffer_read (buffer sh) buf;
             writers = has_writers b;
             sh = sh\<lparr>buffer := b\<rparr>;
             (woken, wq) = (if 0 < n \<and> was_full then WaitQueue_wake_all (write_wq sh) else ([], write_wq sh));
             sh = sh\<lparr>write_wq := wq\<rparr>
         in if 0 < n then (Some (Inr n), buf, woken, sh)
            else if writers then (None, buf, woken, sh)
            else (Some (Inr 0), buf, woken, sh)))"

text \<open>The second look at the buffer, after the registration: whether to try again at once.\<close>

definition PipeRead_recheck :: "PipeShared \<Rightarrow> bool" where
  "PipeRead_recheck sh \<longleftrightarrow> 0 < pb_count (buffer sh) \<or> \<not> has_writers (buffer sh)"

definition PipeWrite_attempt :: "PipeShared \<Rightarrow> u8 list \<Rightarrow> nat VfsResult option \<times> u32 list \<times> PipeShared" where
  "PipeWrite_attempt sh buf =
     (if \<not> has_readers (buffer sh) then (Some (Inl BrokenPipe), [], sh)
      else
        (let (n, b) = PipeBuffer_write (buffer sh) buf;
             readers = has_readers b;
             sh = sh\<lparr>buffer := b\<rparr>
         in if 0 < n then
              (let (woken, wq) = WaitQueue_wake_all (read_wq sh) in (Some (Inr n), woken, sh\<lparr>read_wq := wq\<rparr>))
            else if readers then (None, [], sh)
            else (Some (Inl BrokenPipe), [], sh)))"

definition PipeWrite_recheck :: "PipeShared \<Rightarrow> bool" where
  "PipeWrite_recheck sh \<longleftrightarrow> pb_count (buffer sh) < PIPE_BUF_SIZE \<or> \<not> has_readers (buffer sh)"

definition PipeRead_poll_read_ready :: "PipeShared \<Rightarrow> bool" where
  "PipeRead_poll_read_ready sh \<longleftrightarrow> 0 < pb_count (buffer sh) \<or> \<not> has_writers (buffer sh)"

definition PipeWrite_poll_write_ready :: "PipeShared \<Rightarrow> bool" where
  "PipeWrite_poll_write_ready sh \<longleftrightarrow> pb_count (buffer sh) < PIPE_BUF_SIZE \<and> has_readers (buffer sh)"

section \<open>The buffered bytes\<close>

definition pipe_bytes :: "PipeBuffer \<Rightarrow> u8 list" where
  "pipe_bytes b = ring_contents (pb_data b) PIPE_BUF_SIZE (pb_read_pos b) (pb_count b)"

definition pipe_inv :: "PipeBuffer \<Rightarrow> bool" where
  "pipe_inv b \<longleftrightarrow> length (pb_data b) = PIPE_BUF_SIZE \<and> pb_read_pos b < PIPE_BUF_SIZE
     \<and> pb_count b \<le> PIPE_BUF_SIZE \<and> pb_write_pos b = (pb_read_pos b + pb_count b) mod PIPE_BUF_SIZE"

lemma PIPE_BUF_SIZE_pos: "0 < PIPE_BUF_SIZE"
  by (simp add: PIPE_BUF_SIZE_def)

lemma length_pipe_bytes [simp]: "length (pipe_bytes b) = pb_count b"
  by (simp add: pipe_bytes_def)

lemma pipe_inv_new: "pipe_inv PipeBuffer_new" "pipe_bytes PipeBuffer_new = []"
  using PIPE_BUF_SIZE_pos by (simp_all add: pipe_inv_def PipeBuffer_new_def pipe_bytes_def)

lemma pipe_read_spec:
  assumes inv: "pipe_inv b" and res: "PipeBuffer_read b buf = (n, buf', b')"
  shows "n = min (length buf) (pb_count b) \<and> buf' = take n (pipe_bytes b) @ drop n buf \<and> pipe_inv b'
    \<and> pipe_bytes b' = drop n (pipe_bytes b)"
    and "pb_writers b' = pb_writers b" "pb_readers b' = pb_readers b"
proof -
  let ?k = "min (length buf) (pb_count b)"
  have pos: "pb_read_pos b < PIPE_BUF_SIZE" using inv by (simp add: pipe_inv_def)
  have b': "n = ?k" "buf' = ring_contents (pb_data b) PIPE_BUF_SIZE (pb_read_pos b) ?k @ drop ?k buf"
    "b' = b\<lparr>pb_read_pos := (pb_read_pos b + ?k) mod PIPE_BUF_SIZE, pb_count := pb_count b - ?k\<rparr>"
    using res pos by (auto simp: PipeBuffer_read_def Let_def ring_get_eq split: if_splits)
  have "((pb_read_pos b + ?k) mod PIPE_BUF_SIZE + (pb_count b - ?k)) mod PIPE_BUF_SIZE
      = (pb_read_pos b + ?k + (pb_count b - ?k)) mod PIPE_BUF_SIZE" by (rule mod_add_left_eq)
  also have "pb_read_pos b + ?k + (pb_count b - ?k) = pb_read_pos b + pb_count b" by simp
  finally have "pipe_inv b'"
    unfolding b'(3) using inv PIPE_BUF_SIZE_pos unfolding pipe_inv_def by auto
  moreover have "pipe_bytes b' = drop n (pipe_bytes b)"
    by (simp add: b' pipe_bytes_def ring_contents_drop)
  moreover have "buf' = take n (pipe_bytes b) @ drop n buf" by (simp add: b' pipe_bytes_def ring_contents_take)
  ultimately show "n = ?k \<and> buf' = take n (pipe_bytes b) @ drop n buf \<and> pipe_inv b'
    \<and> pipe_bytes b' = drop n (pipe_bytes b)" using b'(1) by simp
  show "pb_writers b' = pb_writers b" "pb_readers b' = pb_readers b" by (simp_all add: b'(3))
qed

lemma pipe_write_spec:
  assumes inv: "pipe_inv b" and res: "PipeBuffer_write b buf = (n, b')"
  shows "n = min (length buf) (PIPE_BUF_SIZE - pb_count b) \<and> pipe_inv b'
    \<and> pipe_bytes b' = pipe_bytes b @ take n buf"
    and "pb_writers b' = pb_writers b" "pb_readers b' = pb_readers b"
proof -
  let ?k = "min (length buf) (PIPE_BUF_SIZE - pb_count b)" and ?bs = "take (min (length buf) (PIPE_BUF_SIZE - pb_count b)) buf"
  have i: "length (pb_data b) = PIPE_BUF_SIZE" "pb_read_pos b < PIPE_BUF_SIZE" "pb_count b \<le> PIPE_BUF_SIZE"
    "pb_write_pos b = (pb_read_pos b + pb_count b) mod PIPE_BUF_SIZE" using inv by (simp_all add: pipe_inv_def)
  have fit: "pb_count b + length ?bs \<le> PIPE_BUF_SIZE" using i(3) by simp
  note put = ring_put_eq [OF i(1) fit PIPE_BUF_SIZE_pos, of "pb_read_pos b"]
  define r where "r = ring_put (pb_data b) PIPE_BUF_SIZE (pb_write_pos b) ?bs"
  have b': "n = ?k" "b' = b\<lparr>pb_data := fst r, pb_write_pos := snd r, pb_count := pb_count b + ?k\<rparr>"
  proof -
    have "?k = 0 \<Longrightarrow> r = (pb_data b, pb_write_pos b)" by (simp add: r_def)
    then show "n = ?k" "b' = b\<lparr>pb_data := fst r, pb_write_pos := snd r, pb_count := pb_count b + ?k\<rparr>"
      using res by (auto simp: PipeBuffer_write_def Let_def r_def split: if_splits prod.splits)
  qed
  have len: "length ?bs = ?k" by simp
  have "pipe_inv b'" using i put(1,2) by (simp add: b'(2) pipe_inv_def r_def len) (simp add: add.assoc)
  moreover have "pipe_bytes b' = pipe_bytes b @ take n buf"
    using put(3) by (simp add: b' pipe_bytes_def r_def i(4) len)
  ultimately show "n = ?k \<and> pipe_inv b' \<and> pipe_bytes b' = pipe_bytes b @ take n buf" using b'(1) by simp
  show "pb_writers b' = pb_writers b" "pb_readers b' = pb_readers b" by (simp_all add: b'(2))
qed

interpretation pipe: byte_fifo pipe_inv pipe_bytes "\<lambda>_. PIPE_BUF_SIZE" PipeBuffer_read PipeBuffer_write
proof unfold_locales
  show "length (pipe_bytes b) \<le> PIPE_BUF_SIZE" if "pipe_inv b" for b using that by (simp add: pipe_inv_def)
  show "n = min (length buf) (length (pipe_bytes b)) \<and> buf' = take n (pipe_bytes b) @ drop n buf \<and> pipe_inv b'
      \<and> pipe_bytes b' = drop n (pipe_bytes b) \<and> PIPE_BUF_SIZE = PIPE_BUF_SIZE"
    if "pipe_inv b" "PipeBuffer_read b buf = (n, buf', b')" for b buf n buf' b'
    using pipe_read_spec(1) [OF that] by simp
  show "n = min (length bs) (PIPE_BUF_SIZE - length (pipe_bytes b)) \<and> pipe_inv b'
      \<and> pipe_bytes b' = pipe_bytes b @ take n bs \<and> PIPE_BUF_SIZE = PIPE_BUF_SIZE"
    if "pipe_inv b" "PipeBuffer_write b bs = (n, b')" for b bs n b'
    using pipe_write_spec(1) [OF that] by simp
qed

section \<open>The attempts\<close>

definition shared_inv :: "PipeShared \<Rightarrow> bool" where
  "shared_inv sh \<longleftrightarrow> pipe_inv (buffer sh) \<and> wq_inv (read_wq sh) \<and> wq_inv (write_wq sh)"

lemma shared_inv_create: "shared_inv create_pipe"
  by (simp add: shared_inv_def create_pipe_def pipe_inv_new wq_inv_new)

lemma read_attempt_spec:
  assumes inv: "shared_inv sh" and buf: "buf \<noteq> []" and res: "PipeRead_attempt sh buf = (r, buf', woken, sh')"
  defines "q \<equiv> pipe_bytes (buffer sh)"
  defines "n \<equiv> min (length buf) (length q)"
  shows "r = (if q = [] then (if has_writers (buffer sh) then None else Some (Inr 0)) else Some (Inr n))
    \<and> buf' = take n q @ drop n buf \<and> pipe_bytes (buffer sh') = drop n q
    \<and> woken = (if length q = PIPE_BUF_SIZE then wq_waiters (write_wq sh) else [])
    \<and> read_wq sh' = read_wq sh \<and> shared_inv sh'
    \<and> has_writers (buffer sh') = has_writers (buffer sh) \<and> has_readers (buffer sh') = has_readers (buffer sh)"
proof (cases "pb_count (buffer sh) = 0 \<and> \<not> has_writers (buffer sh)")
  case True
  then have "q = []" using length_pipe_bytes [of "buffer sh"] by (simp add: q_def flip: length_0_conv)
  with True res inv PIPE_BUF_SIZE_pos show ?thesis by (auto simp: PipeRead_attempt_def n_def q_def)
next
  case False
  obtain m b2 b where rd: "PipeBuffer_read (buffer sh) buf = (m, b2, b)" using prod_cases3 by blast
  have i: "pipe_inv (buffer sh)" using inv by (simp add: shared_inv_def)
  note spec = pipe_read_spec [OF i rd]
  have m: "m = n" "b2 = take n q @ drop n buf" "pipe_bytes b = drop n q" "pipe_inv b"
    using spec(1) by (auto simp: n_def q_def)
  have w: "has_writers b = has_writers (buffer sh)" "has_readers b = has_readers (buffer sh)"
    using spec(2,3) by (simp_all add: has_writers_def has_readers_def)
  have pos: "0 < n \<longleftrightarrow> q \<noteq> []" using buf by (simp add: n_def)
  have full: "pb_count (buffer sh) = PIPE_BUF_SIZE \<longleftrightarrow> length q = PIPE_BUF_SIZE" by (simp add: q_def)
  have wake: "WaitQueue_wake_all (write_wq sh) = (wq_waiters (write_wq sh), WaitQueue_new)"
    using inv by (intro wake_all_eq) (simp add: shared_inv_def)
  have att: "PipeRead_attempt sh buf =
    (let (woken, wq) = (if 0 < n \<and> length q = PIPE_BUF_SIZE then (wq_waiters (write_wq sh), WaitQueue_new) else ([], write_wq sh));
         sh = sh\<lparr>buffer := b, write_wq := wq\<rparr>
     in if 0 < n then (Some (Inr n), b2, woken, sh)
        else if has_writers (buffer sh) then (None, b2, woken, sh) else (Some (Inr 0), b2, woken, sh))"
    unfolding PipeRead_attempt_def if_not_P [OF False] rd wake by (simp add: m(1) full w(1) Let_def wake)
  show ?thesis
  proof (cases "q = []")
    case True
    then have "length q \<noteq> PIPE_BUF_SIZE" "\<not> 0 < n" using PIPE_BUF_SIZE_pos pos by auto
    then show ?thesis using res inv m w True by (auto simp: att shared_inv_def)
  next
    case ne: False
    then show ?thesis using res inv m w pos by (auto simp: att shared_inv_def wq_inv_new split: if_splits)
  qed
qed

lemma write_attempt_spec:
  assumes inv: "shared_inv sh" and buf: "buf \<noteq> []" and res: "PipeWrite_attempt sh buf = (r, woken, sh')"
  defines "q \<equiv> pipe_bytes (buffer sh)"
  defines "n \<equiv> min (length buf) (PIPE_BUF_SIZE - length q)"
  shows "r = (if \<not> has_readers (buffer sh) then Some (Inl BrokenPipe)
              else if length q = PIPE_BUF_SIZE then None else Some (Inr n))
    \<and> (if has_readers (buffer sh) then pipe_bytes (buffer sh') = q @ take n buf else sh' = sh)
    \<and> woken = (if has_readers (buffer sh) \<and> length q < PIPE_BUF_SIZE then wq_waiters (read_wq sh) else [])
    \<and> write_wq sh' = write_wq sh \<and> shared_inv sh'
    \<and> read_wq sh' = (if has_readers (buffer sh) \<and> length q < PIPE_BUF_SIZE then WaitQueue_new else read_wq sh)"
proof (cases "has_readers (buffer sh)")
  case False
  then show ?thesis using res inv by (auto simp: PipeWrite_attempt_def)
next
  case True
  obtain m b where wr: "PipeBuffer_write (buffer sh) buf = (m, b)" by fastforce
  have i: "pipe_inv (buffer sh)" using inv by (simp add: shared_inv_def)
  note spec = pipe_write_spec [OF i wr]
  have m: "m = n" "pipe_bytes b = q @ take n buf" "pipe_inv b" using spec(1) by (auto simp: n_def q_def)
  have le: "length q \<le> PIPE_BUF_SIZE" using i by (simp add: q_def pipe_inv_def)
  have w: "has_readers b" using spec(3) True by (simp add: has_readers_def)
  have pos: "0 < n \<longleftrightarrow> length q < PIPE_BUF_SIZE" using buf by (simp add: n_def)
  have wake: "WaitQueue_wake_all (read_wq sh) = (wq_waiters (read_wq sh), WaitQueue_new)"
    using inv by (intro wake_all_eq) (simp add: shared_inv_def)
  show ?thesis
  proof (cases "length q < PIPE_BUF_SIZE")
    case lt: True
    then show ?thesis
      using res True inv m w pos wake by (auto simp: PipeWrite_attempt_def wr Let_def shared_inv_def wq_inv_new)
  next
    case False
    then have "length q = PIPE_BUF_SIZE" "\<not> 0 < n" "take n buf = []" using le pos by auto
    then show ?thesis using res True inv m w by (auto simp: PipeWrite_attempt_def wr Let_def shared_inv_def)
  qed
qed

section \<open>A reader asleep for good\<close>

text \<open>
  One reading task among writers.  Its steps are the sections of \<open>PipeRead::read\<close>;
  \<open>sched_block_interruptible\<close> marks the task as not runnable and returns, and the task leaves the
  CPU at a later timer interrupt.  A wake-up makes it runnable again.
\<close>

datatype reader_pc = Top | Empty | Registered nat | Checked nat | Parked nat | Finished "nat VfsResult"

record pipe_sys =
  sys_sh :: PipeShared
  sys_pc :: reader_pc
  sys_runnable :: bool
  sys_on_cpu :: bool

inductive pipe_step :: "u32 \<Rightarrow> u8 list \<Rightarrow> pipe_sys \<Rightarrow> pipe_sys \<Rightarrow> bool" for p buf where
  attempt_done: "sys_on_cpu s \<Longrightarrow> sys_pc s = Top \<Longrightarrow> PipeRead_attempt (sys_sh s) buf = (Some r, buf', woken, sh)
    \<Longrightarrow> pipe_step p buf s (s\<lparr>sys_sh := sh, sys_pc := Finished r\<rparr>)"
| attempt_empty: "sys_on_cpu s \<Longrightarrow> sys_pc s = Top \<Longrightarrow> PipeRead_attempt (sys_sh s) buf = (None, buf', woken, sh)
    \<Longrightarrow> pipe_step p buf s (s\<lparr>sys_sh := sh, sys_pc := Empty\<rparr>)"
| register: "sys_on_cpu s \<Longrightarrow> sys_pc s = Empty \<Longrightarrow> WaitQueue_register (read_wq (sys_sh s)) p = (Some i, wq)
    \<Longrightarrow> pipe_step p buf s (s\<lparr>sys_sh := (sys_sh s)\<lparr>read_wq := wq\<rparr>, sys_pc := Registered i\<rparr>)"
| register_full: "sys_on_cpu s \<Longrightarrow> sys_pc s = Empty \<Longrightarrow> WaitQueue_register (read_wq (sys_sh s)) p = (None, wq)
    \<Longrightarrow> pipe_step p buf s (s\<lparr>sys_pc := Top\<rparr>)"
| recheck_retry: "sys_on_cpu s \<Longrightarrow> sys_pc s = Registered i \<Longrightarrow> PipeRead_recheck (sys_sh s)
    \<Longrightarrow> pipe_step p buf s (s\<lparr>sys_sh := (sys_sh s)\<lparr>read_wq := WaitQueue_unregister (read_wq (sys_sh s)) i\<rparr>, sys_pc := Top\<rparr>)"
| recheck_sleep: "sys_on_cpu s \<Longrightarrow> sys_pc s = Registered i \<Longrightarrow> \<not> PipeRead_recheck (sys_sh s)
    \<Longrightarrow> pipe_step p buf s (s\<lparr>sys_pc := Checked i\<rparr>)"
| block: "sys_on_cpu s \<Longrightarrow> sys_pc s = Checked i
    \<Longrightarrow> pipe_step p buf s (s\<lparr>sys_pc := Parked i, sys_runnable := False\<rparr>)"
| unpark: "sys_on_cpu s \<Longrightarrow> sys_pc s = Parked i
    \<Longrightarrow> pipe_step p buf s (s\<lparr>sys_sh := (sys_sh s)\<lparr>read_wq := WaitQueue_unregister (read_wq (sys_sh s)) i\<rparr>, sys_pc := Top\<rparr>)"
| preempt: "sys_on_cpu s \<Longrightarrow> pipe_step p buf s (s\<lparr>sys_on_cpu := False\<rparr>)"
| dispatch: "\<not> sys_on_cpu s \<Longrightarrow> sys_runnable s \<Longrightarrow> pipe_step p buf s (s\<lparr>sys_on_cpu := True\<rparr>)"
| writer: "PipeWrite_attempt (sys_sh s) bs = (r, woken, sh)
    \<Longrightarrow> pipe_step p buf s (s\<lparr>sys_sh := sh, sys_runnable := (sys_runnable s \<or> p \<in> set woken)\<rparr>)"

definition pipe_sys_init :: pipe_sys where
  "pipe_sys_init = \<lparr>sys_sh = create_pipe, sys_pc = Top, sys_runnable = True, sys_on_cpu = True\<rparr>"

text \<open>A task that is off the CPU, not runnable and not registered stays so, whatever is written.\<close>

definition lost :: "u32 \<Rightarrow> pipe_sys \<Rightarrow> bool" where
  "lost p s \<longleftrightarrow> \<not> sys_on_cpu s \<and> \<not> sys_runnable s \<and> p \<notin> set (wq_waiters (read_wq (sys_sh s)))
     \<and> shared_inv (sys_sh s)"

lemma lost_forever:
  assumes "(pipe_step p buf)\<^sup>*\<^sup>* s s'" "lost p s"
  shows "lost p s'"
  using assms
proof (induction rule: rtranclp_induct)
  case (step s1 s2)
  have l: "lost p s1" using step by blast
  from step(2) l show ?case
  proof cases
    case (writer bs r woken sh)
    have inv: "shared_inv (sys_sh s1)" using l by (simp add: lost_def)
    have "shared_inv sh \<and> set woken \<subseteq> set (wq_waiters (read_wq (sys_sh s1)))
      \<and> set (wq_waiters (read_wq sh)) \<subseteq> set (wq_waiters (read_wq (sys_sh s1)))"
    proof (cases "bs = []")
      case True
      have "PipeBuffer_write b [] = (0, b')  \<Longrightarrow> b' = b" for b b'
        by (auto simp: PipeBuffer_write_def Let_def split: if_splits)
      moreover have "fst (PipeBuffer_write b []) = 0" for b by (simp add: PipeBuffer_write_def Let_def)
      ultimately have "PipeBuffer_write b [] = (0, b)" for b by (metis prod.collapse)
      then have "sh = sys_sh s1" "woken = []"
        using writer(2) True by (auto simp: PipeWrite_attempt_def Let_def split: if_splits)
      with inv show ?thesis by simp
    next
      case False
      from write_attempt_spec [OF inv False writer(2)] show ?thesis
        by (auto simp: wq_inv_new split: if_splits)
    qed
    with l writer(1) show ?thesis by (auto simp: lost_def)
  qed (auto simp: lost_def)
qed

lemma register_new:
  "WaitQueue_register WaitQueue_new p = (Some 0, \<lparr>wq_slots = p # replicate 15 WQ_PID_NONE, wq_len = 1\<rparr>)"
  using replicate_Suc [of 15 WQ_PID_NONE] by (simp add: WaitQueue_register_def WaitQueue_new_def MAX_WAITERS_def)

lemma unregister_registered:
  "p \<noteq> WQ_PID_NONE \<Longrightarrow> WaitQueue_unregister (snd (WaitQueue_register WaitQueue_new p)) 0 = WaitQueue_new"
  using replicate_Suc [of 15 WQ_PID_NONE]
  by (simp add: register_new WaitQueue_unregister_def MAX_WAITERS_def Let_def)
     (simp add: WaitQueue_new_def MAX_WAITERS_def)

lemma attempt_create: "buf \<noteq> [] \<Longrightarrow> PipeRead_attempt create_pipe buf = (None, buf, [], create_pipe)"
  by (simp add: PipeRead_attempt_def create_pipe_def PipeBuffer_new_def PipeBuffer_read_def has_writers_def Let_def)

text \<open>
  The reader registers, finds the pipe still empty and marks itself as sleeping; the call returns, the
  reader unregisters, and the timer takes the CPU away.  The byte written next wakes nobody.
\<close>

lemma pipe_reader_lost_wakeup:
  assumes "p \<noteq> WQ_PID_NONE" "buf \<noteq> []"
  shows "\<exists>s. (pipe_step p buf)\<^sup>*\<^sup>* pipe_sys_init s \<and> pipe_bytes (buffer (sys_sh s)) = [1]
    \<and> (\<forall>s'. (pipe_step p buf)\<^sup>*\<^sup>* s s' \<longrightarrow> \<not> sys_on_cpu s')"
proof -
  let ?step = "pipe_step p buf" and ?q1 = "snd (WaitQueue_register WaitQueue_new p)"
  let ?st = "\<lambda>q pc run cpu. \<lparr>sys_sh = create_pipe\<lparr>read_wq := q\<rparr>, sys_pc = pc, sys_runnable = run, sys_on_cpu = cpu\<rparr>"
  have new: "create_pipe\<lparr>read_wq := WaitQueue_new\<rparr> = create_pipe" "read_wq create_pipe = WaitQueue_new"
    by (simp_all add: create_pipe_def)
  have s1: "?step pipe_sys_init (?st WaitQueue_new Empty True True)"
    using pipe_step.attempt_empty [of pipe_sys_init buf buf "[]" create_pipe p] attempt_create [OF assms(2)]
    by (simp add: pipe_sys_init_def new)
  have s2: "?step (?st WaitQueue_new Empty True True) (?st ?q1 (Registered 0) True True)"
    using pipe_step.register [of "?st WaitQueue_new Empty True True" p 0 ?q1 buf] by (simp add: register_new new)
  have "\<not> PipeRead_recheck (create_pipe\<lparr>read_wq := ?q1\<rparr>)"
    by (simp add: PipeRead_recheck_def create_pipe_def PipeBuffer_new_def has_writers_def)
  then have s3: "?step (?st ?q1 (Registered 0) True True) (?st ?q1 (Checked 0) True True)"
    using pipe_step.recheck_sleep [of "?st ?q1 (Registered 0) True True" 0 p buf] by simp
  have s4: "?step (?st ?q1 (Checked 0) True True) (?st ?q1 (Parked 0) False True)"
    using pipe_step.block [of "?st ?q1 (Checked 0) True True" 0 p buf] by simp
  have s5: "?step (?st ?q1 (Parked 0) False True) (?st WaitQueue_new Top False True)"
    using pipe_step.unpark [of "?st ?q1 (Parked 0) False True" 0 p buf] unregister_registered [OF assms(1)] by simp
  have s6: "?step (?st WaitQueue_new Top False True) (?st WaitQueue_new Top False False)"
    using pipe_step.preempt [of "?st WaitQueue_new Top False True" p buf] by simp
  let ?s6 = "?st WaitQueue_new Top False False"
  obtain r woken sh where w: "PipeWrite_attempt create_pipe [1] = (r, woken, sh)" using prod_cases3 by blast
  have spec: "woken = []" "pipe_bytes (buffer sh) = [1]"
    using write_attempt_spec [OF shared_inv_create _ w] PIPE_BUF_SIZE_pos
    by (auto simp: create_pipe_def pipe_inv_new wq_inv_new PipeBuffer_new_def has_readers_def min_def pipe_bytes_def)
  let ?s7 = "?s6\<lparr>sys_sh := sh\<rparr>"
  have s7: "?step ?s6 ?s7"
    using pipe_step.writer [of ?s6 "[1]" r woken sh p buf] w spec(1) by (simp add: new)
  have "lost p ?s6" using shared_inv_create by (simp add: lost_def new wq_inv_new)
  then have "lost p ?s7" using lost_forever [of p buf ?s6 ?s7] s7 by blast
  then have "\<forall>s'. ?step\<^sup>*\<^sup>* ?s7 s' \<longrightarrow> \<not> sys_on_cpu s'" using lost_forever lost_def by blast
  moreover have "?step\<^sup>*\<^sup>* pipe_sys_init ?s7"
    using s1 s2 s3 s4 s5 s6 s7 by (meson converse_rtranclp_into_rtranclp rtranclp.rtrancl_refl)
  ultimately show ?thesis using spec(2) by (intro exI [of _ ?s7]) simp
qed

section \<open>Properties\<close>

text \<open>
  C38. A pipe is a first-in-first-out channel: after any sequence of reads and writes on its buffer,
  the bytes that were accepted are the bytes that were delivered followed by the bytes still in the
  buffer, in this order, and the buffer holds at most 64 KiB.
\<close>

theorem pipe_is_fifo:
  "case pipe.transfer ops fill PipeBuffer_new of
     (accepted, delivered, b) \<Rightarrow> accepted = delivered @ pipe_bytes b \<and> length (pipe_bytes b) \<le> PIPE_BUF_SIZE"
proof -
  obtain a d b where t: "pipe.transfer ops fill PipeBuffer_new = (a, d, b)" using prod_cases3 by blast
  from pipe.transfer_fifo [OF pipe_inv_new(1) t] pipe_inv_new(2) pipe.bounded [of b]
  show ?thesis by (simp add: t)
qed

text \<open>
  C39. The ends of a pipe, for a non-empty buffer.  A read returns end-of-file exactly when the pipe
  is empty and has no writer, waits exactly when it is empty and has one, and otherwise returns as
  many buffered bytes as fit, waking every waiting writer if the pipe was full.  A write fails with
  a broken pipe exactly when there is no reader, waits exactly when the pipe is full, and otherwise
  appends what fits and wakes every waiting reader.
\<close>

theorem pipe_ends:
  assumes "shared_inv sh" "buf \<noteq> []"
    "PipeRead_attempt sh buf = (r, buf', woken, sh1)" "PipeWrite_attempt sh buf = (w, woken', sh2)"
  shows "r = (if pipe_bytes (buffer sh) \<noteq> [] then Some (Inr (min (length buf) (length (pipe_bytes (buffer sh)))))
              else if has_writers (buffer sh) then None else Some (Inr 0))
    \<and> (length (pipe_bytes (buffer sh)) = PIPE_BUF_SIZE \<longrightarrow> woken = wq_waiters (write_wq sh))
    \<and> w = (if \<not> has_readers (buffer sh) then Some (Inl BrokenPipe)
           else if length (pipe_bytes (buffer sh)) = PIPE_BUF_SIZE then None
           else Some (Inr (min (length buf) (PIPE_BUF_SIZE - length (pipe_bytes (buffer sh))))))
    \<and> (has_readers (buffer sh) \<and> length (pipe_bytes (buffer sh)) < PIPE_BUF_SIZE \<longrightarrow>
         woken' = wq_waiters (read_wq sh))
    \<and> shared_inv sh1 \<and> shared_inv sh2"
  using read_attempt_spec [OF assms(1,2,3)] write_attempt_spec [OF assms(1,2,4)] by simp

theorem pipe_ends_witness:
  "fst (PipeRead_attempt create_pipe [7]) = None \<and> fst (PipeWrite_attempt create_pipe [7]) = Some (Inr 1)"
proof -
  have b: "pipe_bytes (buffer create_pipe) = []" "has_writers (buffer create_pipe)" "has_readers (buffer create_pipe)"
    using pipe_inv_new(2) by (simp_all add: create_pipe_def) (simp_all add: PipeBuffer_new_def has_writers_def has_readers_def)
  obtain r b1 w1 s1 where r: "PipeRead_attempt create_pipe [7] = (r, b1, w1, s1)" using prod_cases4 by blast
  obtain w w2 s2 where w: "PipeWrite_attempt create_pipe [7] = (w, w2, s2)" using prod_cases3 by blast
  from pipe_ends [OF shared_inv_create _ r w] r w b show ?thesis by (simp add: PIPE_BUF_SIZE_def)
qed



end
