(* ===== verification/Page_Db.thy ===== *)
theory Page_Db
  imports Prelude
begin

text \<open>
  The page frame database (\<open>kernel/mm/mm-pagedb\<close>): one entry per physical frame with its state
  flags, reference count and owner.  The array behind the raw pointer is a list, the null pointer
  \<^const>\<open>None\<close>; \<open>init\<close> demands one entry per tracked frame, which \<open>db_ok\<close> states.  The ring of
  diagnostic events is not part of the state.
\<close>

type_synonym PhysAddr = u64

section \<open>Frames\<close>

definition PF_FREE :: u32 where "PF_FREE = 0"
definition PF_ALLOCATED :: u32 where "PF_ALLOCATED = push_bit 0 1"
definition PF_MAPPED :: u32 where "PF_MAPPED = push_bit 1 1"
definition PF_PAGETABLE :: u32 where "PF_PAGETABLE = push_bit 2 1"
definition PF_RESERVED :: u32 where "PF_RESERVED = push_bit 3 1"
definition PF_COW :: u32 where "PF_COW = push_bit 4 1"
definition PF_KERNEL :: u32 where "PF_KERNEL = push_bit 5 1"

lemmas pf_flag_defs = PF_FREE_def PF_ALLOCATED_def PF_MAPPED_def PF_PAGETABLE_def PF_RESERVED_def
  PF_COW_def PF_KERNEL_def

record PageFrame =
  pf_flags :: u32
  pf_refcount :: u32
  pf_owner :: u32
  pf_order_and_reserved :: u32

definition PageFrame_new :: PageFrame where
  "PageFrame_new = \<lparr>pf_flags = PF_FREE, pf_refcount = 0, pf_owner = 0, pf_order_and_reserved = 0\<rparr>"

definition set_flag :: "PageFrame \<Rightarrow> u32 \<Rightarrow> PageFrame" where
  "set_flag f b = f\<lparr>pf_flags := pf_flags f OR b\<rparr>"

definition clear_flag :: "PageFrame \<Rightarrow> u32 \<Rightarrow> PageFrame" where
  "clear_flag f b = f\<lparr>pf_flags := pf_flags f AND NOT b\<rparr>"

definition has_flag :: "PageFrame \<Rightarrow> u32 \<Rightarrow> bool" where
  "has_flag f b \<longleftrightarrow> pf_flags f AND b \<noteq> 0"

definition pf_is_free :: "PageFrame \<Rightarrow> bool" where
  "pf_is_free f \<longleftrightarrow> pf_flags f = PF_FREE \<and> pf_refcount f = 0"

section \<open>The database\<close>

record PageDatabase =
  db_frames :: "PageFrame list option"
  db_count :: nat
  db_initialized :: bool

datatype PageDbError =
    PdbDoubleFree PhysAddr u32 u32 u8
  | PdbFreeReserved PhysAddr u8
  | PdbFreeShared PhysAddr u8 u32 u32
  | PdbRefcountUnderflow PhysAddr u32
  | PdbInvalidPfn PhysAddr

definition PageDatabase_new :: PageDatabase where
  "PageDatabase_new = \<lparr>db_frames = None, db_count = 0, db_initialized = False\<rparr>"

definition PageDatabase_init :: "PageDatabase \<Rightarrow> PageFrame list \<Rightarrow> nat \<Rightarrow> PageDatabase" where
  "PageDatabase_init db array frame_count =
     db\<lparr>db_frames := Some array, db_count := frame_count, db_initialized := True\<rparr>"

definition phys_to_pfn :: "PageDatabase \<Rightarrow> PhysAddr \<Rightarrow> nat option" where
  "phys_to_pfn db phys = (let pfn = unat (drop_bit 12 phys) in if pfn < db_count db then Some pfn else None)"

text \<open>A reference to an entry is its index; reading and writing go through the array.\<close>

definition PageDatabase_get :: "PageDatabase \<Rightarrow> PhysAddr \<Rightarrow> PageFrame option" where
  "PageDatabase_get db phys =
     (case phys_to_pfn db phys of
        None \<Rightarrow> None
      | Some pfn \<Rightarrow> (case db_frames db of None \<Rightarrow> None | Some fs \<Rightarrow> Some (fs ! pfn)))"

definition update_frame :: "PageDatabase \<Rightarrow> PhysAddr \<Rightarrow> (PageFrame \<Rightarrow> PageFrame) \<Rightarrow> PageDatabase" where
  "update_frame db phys f =
     (case phys_to_pfn db phys of
        None \<Rightarrow> db
      | Some pfn \<Rightarrow>
          (case db_frames db of None \<Rightarrow> db | Some fs \<Rightarrow> db\<lparr>db_frames := Some (fs[pfn := f (fs ! pfn)])\<rparr>))"

definition mark_allocated :: "PageDatabase \<Rightarrow> PhysAddr \<Rightarrow> u32 \<Rightarrow> PageDatabase" where
  "mark_allocated db phys owner =
     update_frame db phys (\<lambda>f. f\<lparr>pf_flags := PF_ALLOCATED, pf_refcount := 1, pf_owner := owner\<rparr>)"

definition mark_free :: "PageDatabase \<Rightarrow> PhysAddr \<Rightarrow> PageDbError + PageDatabase" where
  "mark_free db phys =
     (case phys_to_pfn db phys of
        None \<Rightarrow> Inl (PdbInvalidPfn phys)
      | Some pfn \<Rightarrow> Inr (update_frame db phys
          (\<lambda>f. f\<lparr>pf_flags := PF_FREE, pf_refcount := 0, pf_owner := 0, pf_order_and_reserved := 0\<rparr>)))"

definition mark_pagetable :: "PageDatabase \<Rightarrow> PhysAddr \<Rightarrow> u32 \<Rightarrow> PageDatabase" where
  "mark_pagetable db phys owner =
     update_frame db phys (\<lambda>f. f\<lparr>pf_flags := PF_ALLOCATED OR PF_PAGETABLE, pf_refcount := 1, pf_owner := owner\<rparr>)"

definition mark_reserved :: "PageDatabase \<Rightarrow> PhysAddr \<Rightarrow> PageDatabase" where
  "mark_reserved db phys =
     update_frame db phys (\<lambda>f. f\<lparr>pf_flags := PF_RESERVED, pf_refcount := 1, pf_owner := - 1\<rparr>)"

definition mark_reserved_kernel :: "PageDatabase \<Rightarrow> PhysAddr \<Rightarrow> PageDatabase" where
  "mark_reserved_kernel db phys =
     update_frame db phys (\<lambda>f. f\<lparr>pf_flags := PF_RESERVED OR PF_KERNEL, pf_refcount := 1, pf_owner := - 1\<rparr>)"

definition mark_reserved_pagetable :: "PageDatabase \<Rightarrow> PhysAddr \<Rightarrow> PageDatabase" where
  "mark_reserved_pagetable db phys =
     update_frame db phys (\<lambda>f. f\<lparr>pf_flags := PF_RESERVED OR PF_PAGETABLE, pf_refcount := 1, pf_owner := - 1\<rparr>)"

definition ref_inc :: "PageDatabase \<Rightarrow> PhysAddr \<Rightarrow> u32 \<times> PageDatabase" where
  "ref_inc db phys =
     (case PageDatabase_get db phys of
        Some f \<Rightarrow> (pf_refcount f + 1, update_frame db phys (\<lambda>f. f\<lparr>pf_refcount := pf_refcount f + 1\<rparr>))
      | None \<Rightarrow> (0, db))"

definition ref_dec :: "PageDatabase \<Rightarrow> PhysAddr \<Rightarrow> u32 \<times> PageDatabase" where
  "ref_dec db phys =
     (case PageDatabase_get db phys of
        Some f \<Rightarrow>
          (if pf_flags f = PF_FREE \<and> pf_refcount f = 0 then (0, db)
           else
             (let old = pf_refcount f; db = update_frame db phys (\<lambda>f. f\<lparr>pf_refcount := pf_refcount f - 1\<rparr>) in
              if old = 0 then (0, update_frame db phys (\<lambda>f. f\<lparr>pf_refcount := 0\<rparr>)) else (old - 1, db)))
      | None \<Rightarrow> (0, db))"

text \<open>
  The check before a frame returns to the allocator; \<open>ctx\<close> is the caller context stored by
  \<open>set_free_context\<close>.  A null array is dereferenced only if frames are tracked without one.
\<close>

definition validate_free :: "PageDatabase \<Rightarrow> u8 \<Rightarrow> PhysAddr \<Rightarrow> PageDbError + unit" where
  "validate_free db ctx phys =
     (case phys_to_pfn db phys of
        None \<Rightarrow> Inl (PdbInvalidPfn phys)
      | Some pfn \<Rightarrow>
          (let frame = the (db_frames db) ! pfn; flags = pf_flags frame; rc = pf_refcount frame in
           if flags = PF_FREE \<and> rc = 0 then Inl (PdbDoubleFree phys flags (pf_owner frame) ctx)
           else if flags AND PF_RESERVED \<noteq> 0 then Inl (PdbFreeReserved phys ctx)
           else if 1 < rc then Inl (PdbFreeShared phys ctx flags rc)
           else Inr ()))"

section \<open>Statistics\<close>

record PageDbStats =
  ps_total :: nat
  ps_free :: nat
  ps_allocated :: nat
  ps_mapped :: nat
  ps_pagetable :: nat
  ps_reserved :: nat
  ps_cow_shared :: nat
  ps_kernel :: nat

definition stats_default :: PageDbStats where
  "stats_default = \<lparr>ps_total = 0, ps_free = 0, ps_allocated = 0, ps_mapped = 0, ps_pagetable = 0,
     ps_reserved = 0, ps_cow_shared = 0, ps_kernel = 0\<rparr>"

definition count_frame :: "PageDbStats \<Rightarrow> PageFrame \<Rightarrow> PageDbStats" where
  "count_frame s f =
     (let s = (if pf_flags f = PF_FREE \<and> pf_refcount f = 0 then s\<lparr>ps_free := ps_free s + 1\<rparr>
               else if pf_flags f AND PF_RESERVED \<noteq> 0 then s\<lparr>ps_reserved := ps_reserved s + 1\<rparr>
               else if pf_flags f AND PF_PAGETABLE \<noteq> 0 then s\<lparr>ps_pagetable := ps_pagetable s + 1\<rparr>
               else if pf_flags f AND PF_MAPPED \<noteq> 0 then s\<lparr>ps_mapped := ps_mapped s + 1\<rparr>
               else if pf_flags f AND PF_ALLOCATED \<noteq> 0 then s\<lparr>ps_allocated := ps_allocated s + 1\<rparr>
               else s);
          s = (if pf_flags f AND PF_COW \<noteq> 0 then s\<lparr>ps_cow_shared := ps_cow_shared s + 1\<rparr> else s)
      in if pf_flags f AND PF_KERNEL \<noteq> 0 then s\<lparr>ps_kernel := ps_kernel s + 1\<rparr> else s)"

definition PageDatabase_stats :: "PageDatabase \<Rightarrow> PageDbStats" where
  "PageDatabase_stats db =
     (let s = stats_default\<lparr>ps_total := db_count db\<rparr> in
      case db_frames db of None \<Rightarrow> s | Some fs \<Rightarrow> foldl count_frame s (take (db_count db) fs))"

section \<open>The states of the frames\<close>

text \<open>The view the allocator relies on: which tracked frames are free.\<close>

definition db_ok :: "PageDatabase \<Rightarrow> bool" where
  "db_ok db \<longleftrightarrow> (\<exists>fs. db_frames db = Some fs \<and> length fs = db_count db)"

definition frame_at :: "PageDatabase \<Rightarrow> nat \<Rightarrow> PageFrame option" where
  "frame_at db n = (case db_frames db of None \<Rightarrow> None | Some fs \<Rightarrow> if n < db_count db then Some (fs ! n) else None)"

definition db_free :: "PageDatabase \<Rightarrow> nat set" where
  "db_free db = {n. \<exists>f. frame_at db n = Some f \<and> pf_is_free f}"

abbreviation pfn :: "u64 \<Rightarrow> nat" where
  "pfn a \<equiv> unat (drop_bit 12 a)"

lemma get_frame_at: "PageDatabase_get db a = frame_at db (pfn a)"
  by (simp add: PageDatabase_get_def phys_to_pfn_def frame_at_def Let_def split: option.splits)

lemma update_frame_ok [simp]: "db_ok (update_frame db a f) \<longleftrightarrow> db_ok db"
  by (auto simp: update_frame_def db_ok_def split: option.splits)

lemma update_frame_count [simp]: "db_count (update_frame db a f) = db_count db"
  by (auto simp: update_frame_def split: option.splits)

lemma frame_at_update:
  "db_ok db \<Longrightarrow> frame_at (update_frame db a f) n = (if n = pfn a then map_option f (frame_at db n) else frame_at db n)"
  by (auto simp: update_frame_def db_ok_def frame_at_def phys_to_pfn_def Let_def)

lemma frame_at_tracked: "db_ok db \<Longrightarrow> frame_at db n \<noteq> None \<longleftrightarrow> n < db_count db"
  by (auto simp: db_ok_def frame_at_def split: if_splits)

lemma mark_allocated_free: "db_ok db \<Longrightarrow> db_free (mark_allocated db a w) = db_free db - {pfn a}"
  by (auto simp: mark_allocated_def db_free_def frame_at_update pf_is_free_def split: if_splits)

lemma mark_free_free:
  "db_ok db \<Longrightarrow> pfn a < db_count db \<Longrightarrow>
     \<exists>db'. mark_free db a = Inr db' \<and> db_ok db' \<and> db_count db' = db_count db \<and> db_free db' = insert (pfn a) (db_free db)"
  using frame_at_tracked [of db "pfn a"]
  by (auto simp: mark_free_def phys_to_pfn_def Let_def db_free_def frame_at_update pf_is_free_def PF_FREE_def)

lemma validate_free_ok:
  assumes "db_ok db"
  shows "validate_free db ctx a = Inr () \<longleftrightarrow>
    (\<exists>f. frame_at db (pfn a) = Some f \<and> \<not> pf_is_free f \<and> \<not> has_flag f PF_RESERVED \<and> pf_refcount f \<le> 1)"
  using assms by (auto simp: validate_free_def db_ok_def frame_at_def phys_to_pfn_def Let_def has_flag_def pf_is_free_def not_less)

end
