(* ===== verification/Buddy.thy ===== *)
theory Buddy
  imports Page_Db "HOL-Library.Monad_Syntax"
begin

text \<open>
  The buddy allocator of physical frames (\<open>kernel/mm/mm-core\<close>): memory zones with one free list per
  order, threaded through the free memory itself.  A free block starts with a \<open>FreeBlock\<close> header;
  every address the allocator dereferences is a multiple of the frame size, so headers never overlap
  and the direct map is a function from virtual addresses to headers.  Where the code detects
  corruption and writes to a poisoned address to raise a fault, the result is \<^const>\<open>None\<close>.
\<close>

section \<open>Zones\<close>

definition FRAME_SIZE :: u64 where "FRAME_SIZE = 4096"
definition FRAME_SHIFT :: nat where "FRAME_SHIFT = 12"
definition MAX_ORDER :: nat where "MAX_ORDER = 10"

datatype MmError = OutOfMemory | InvalidAddress | InvalidOrder | ZoneNotFound | NotAligned | DoubleFree

type_synonym 'a MmResult = "MmError + 'a"

datatype ZoneType = Dma | Normal | High

definition DMA_ZONE_END :: u64 where "DMA_ZONE_END = 16 * 1024 * 1024"
definition NORMAL_ZONE_END :: u64 where "NORMAL_ZONE_END = 4 * 1024 * 1024 * 1024"

definition for_address :: "PhysAddr \<Rightarrow> ZoneType" where
  "for_address addr = (if addr < DMA_ZONE_END then Dma else if addr < NORMAL_ZONE_END then Normal else High)"

primrec zone_index :: "ZoneType \<Rightarrow> nat" where
  "zone_index Dma = 0"
| "zone_index Normal = 1"
| "zone_index High = 2"

definition from_index :: "nat \<Rightarrow> ZoneType option" where
  "from_index idx = (if idx = 0 then Some Dma else if idx = 1 then Some Normal else if idx = 2 then Some High else None)"

primrec zone_start :: "ZoneType \<Rightarrow> u64" where
  "zone_start Dma = 0"
| "zone_start Normal = DMA_ZONE_END"
| "zone_start High = NORMAL_ZONE_END"

primrec zone_end :: "ZoneType \<Rightarrow> u64" where
  "zone_end Dma = DMA_ZONE_END"
| "zone_end Normal = NORMAL_ZONE_END"
| "zone_end High = - 1"

record FreeListHead =
  fl_head :: u64
  fl_count :: u64

definition FreeListHead_new :: FreeListHead where
  "FreeListHead_new = \<lparr>fl_head = 0, fl_count = 0\<rparr>"

record ZoneStats =
  zs_free_pages :: "u64 list"
  zs_total_pages :: u64

definition ZoneStats_new :: ZoneStats where
  "ZoneStats_new = \<lparr>zs_free_pages = replicate 11 0, zs_total_pages = 0\<rparr>"

definition ZoneStats_total_free_pages :: "ZoneStats \<Rightarrow> u64" where
  "ZoneStats_total_free_pages s = foldl (\<lambda>total (order, c). total + c * push_bit order 1) 0 (enumerate 0 (zs_free_pages s))"

record MemoryZone =
  mz_type :: ZoneType
  mz_base :: PhysAddr
  mz_size :: u64
  mz_lists :: "FreeListHead list"
  mz_stats :: ZoneStats

definition MemoryZone_new :: "ZoneType \<Rightarrow> MemoryZone" where
  "MemoryZone_new t = \<lparr>mz_type = t, mz_base = 0, mz_size = 0,
     mz_lists = replicate (MAX_ORDER + 1) FreeListHead_new, mz_stats = ZoneStats_new\<rparr>"

definition MemoryZone_init :: "MemoryZone \<Rightarrow> PhysAddr \<Rightarrow> u64 \<Rightarrow> MemoryZone" where
  "MemoryZone_init z base sz =
     z\<lparr>mz_base := base, mz_size := sz, mz_stats := (mz_stats z)\<lparr>zs_total_pages := sz div FRAME_SIZE\<rparr>\<rparr>"

definition free_pages_at_order :: "MemoryZone \<Rightarrow> nat \<Rightarrow> u64" where
  "free_pages_at_order z order = (if MAX_ORDER < order then 0 else fl_count (mz_lists z ! order))"

definition total_free_pages :: "MemoryZone \<Rightarrow> u64" where
  "total_free_pages z = foldl (\<lambda>total (order, l). total + fl_count l * push_bit order 1) 0 (enumerate 0 (mz_lists z))"

definition zone_free_bytes :: "MemoryZone \<Rightarrow> u64" where
  "zone_free_bytes z = total_free_pages z * FRAME_SIZE"

definition zone_contains :: "MemoryZone \<Rightarrow> PhysAddr \<Rightarrow> bool" where
  "zone_contains z a \<longleftrightarrow> mz_base z \<le> a \<and> a < mz_base z + mz_size z"

definition zone_is_empty :: "MemoryZone \<Rightarrow> bool" where
  "zone_is_empty z \<longleftrightarrow> mz_size z = 0"

text \<open>The bit flags of a request are only carried along; no code of the allocator reads them.\<close>

record AllocRequest =
  ar_order :: nat
  ar_zone :: "ZoneType option"
  ar_flags :: u32

definition AllocRequest_new :: "nat \<Rightarrow> AllocRequest" where
  "AllocRequest_new order = \<lparr>ar_order = order, ar_zone = None, ar_flags = 0\<rparr>"

definition AllocRequest_dma :: "nat \<Rightarrow> AllocRequest" where
  "AllocRequest_dma order = \<lparr>ar_order = order, ar_zone = Some Dma, ar_flags = 0\<rparr>"

definition AllocRequest_critical :: "nat \<Rightarrow> AllocRequest" where
  "AllocRequest_critical order = \<lparr>ar_order = order, ar_zone = None, ar_flags = push_bit 0 1\<rparr>"

text \<open>The loop that doubles a size until it reaches the number of pages, at most \<open>MAX_ORDER\<close> times.\<close>

function grow_order :: "nat \<Rightarrow> nat \<Rightarrow> nat \<Rightarrow> nat" where
  "grow_order pages sz order =
     (if sz < pages \<and> order < MAX_ORDER then grow_order pages (2 * sz) (order + 1) else order)"
  by auto
termination by (relation "measure (\<lambda>(_, _, order). MAX_ORDER - order)") auto

declare grow_order.simps [simp del]

definition pages_to_order :: "nat \<Rightarrow> nat" where
  "pages_to_order pages = (if pages = 0 then 0 else grow_order pages 1 0)"

definition AllocRequest_pages :: "nat \<Rightarrow> AllocRequest" where
  "AllocRequest_pages n = AllocRequest_new (pages_to_order n)"

section \<open>Statistics\<close>

record MemoryStats =
  ms_total_bytes :: u64
  ms_free_bytes :: u64
  ms_alloc_count :: u64
  ms_free_count :: u64
  ms_alloc_failures :: u64

definition MemoryStats_new :: MemoryStats where
  "MemoryStats_new = \<lparr>ms_total_bytes = 0, ms_free_bytes = 0, ms_alloc_count = 0, ms_free_count = 0, ms_alloc_failures = 0\<rparr>"

definition record_alloc :: "MemoryStats \<Rightarrow> u64 \<Rightarrow> MemoryStats" where
  "record_alloc s bytes = s\<lparr>ms_free_bytes := ms_free_bytes s - bytes, ms_alloc_count := ms_alloc_count s + 1\<rparr>"

definition record_free :: "MemoryStats \<Rightarrow> u64 \<Rightarrow> MemoryStats" where
  "record_free s bytes = s\<lparr>ms_free_bytes := ms_free_bytes s + bytes, ms_free_count := ms_free_count s + 1\<rparr>"

definition record_failure :: "MemoryStats \<Rightarrow> MemoryStats" where
  "record_failure s = s\<lparr>ms_alloc_failures := ms_alloc_failures s + 1\<rparr>"

section \<open>Free blocks\<close>

definition PHYS_MAP_BASE :: u64 where "PHYS_MAP_BASE = 0xFFFF800000000000"

definition phys_to_virt :: "PhysAddr \<Rightarrow> u64" where
  "phys_to_virt phys = PHYS_MAP_BASE + phys"

definition block_in_zone :: "MemoryZone \<Rightarrow> u64 \<Rightarrow> nat \<Rightarrow> bool" where
  "block_in_zone z addr order =
     (let size = push_bit FRAME_SHIFT (push_bit order 1) in
      case checked_add (mz_base z) (mz_size z) of
        None \<Rightarrow> False
      | Some z_end \<Rightarrow>
          (case checked_add addr size of
             None \<Rightarrow> False
           | Some block_end \<Rightarrow> mz_base z \<le> addr \<and> block_end \<le> z_end))"

record FreeBlock =
  fb_magic :: u64
  fb_next :: u64
  fb_prev :: u64
  fb_order :: u8
  fb_pad :: "u8 list"

definition FREE_BLOCK_MAGIC :: u64 where "FREE_BLOCK_MAGIC = 0x4652454542304C"
definition FREE_BLOCK_ORDER_INVALID :: u8 where "FREE_BLOCK_ORDER_INVALID = 0xFF"

type_synonym PhysMem = "u64 \<Rightarrow> FreeBlock"

definition canary_ok :: "FreeBlock \<Rightarrow> nat \<Rightarrow> bool" where
  "canary_ok b order \<longleftrightarrow> \<not> (fb_magic b \<noteq> FREE_BLOCK_MAGIC \<or> unat (fb_order b) \<noteq> order)"

definition already_linked :: "MemoryZone \<Rightarrow> FreeBlock \<Rightarrow> u64 \<Rightarrow> bool" where
  "already_linked z b frame_num \<longleftrightarrow>
     (let existing_order = unat (fb_order b) in
      existing_order \<le> MAX_ORDER
      \<and> (fl_head (mz_lists z ! existing_order) = frame_num \<or> fb_next b \<noteq> 0 \<or> fb_prev b \<noteq> 0))"

definition cleared :: "FreeBlock \<Rightarrow> FreeBlock" where
  "cleared b = b\<lparr>fb_magic := 0, fb_next := 0, fb_prev := 0, fb_order := FREE_BLOCK_ORDER_INVALID, fb_pad := replicate 7 0\<rparr>"

definition set_list :: "MemoryZone \<Rightarrow> nat \<Rightarrow> u64 \<Rightarrow> u64 \<Rightarrow> MemoryZone" where
  "set_list z order h c = z\<lparr>mz_lists := (mz_lists z)[order := \<lparr>fl_head = h, fl_count = c\<rparr>]\<rparr>"

definition add_free_block :: "MemoryZone \<Rightarrow> PhysMem \<Rightarrow> nat \<Rightarrow> u64 \<Rightarrow> (bool \<times> MemoryZone \<times> PhysMem) option" where
  "add_free_block z mem order addr =
     (if addr = 0 \<or> \<not> block_in_zone z addr order then Some (False, z, mem)
      else
        (let virt = phys_to_virt addr;
             old_head = fl_head (mz_lists z ! order);
             frame_num = drop_bit FRAME_SHIFT addr
         in if frame_num = 0 then Some (False, z, mem)
            else
              (let block = mem virt in
               if fb_magic block = FREE_BLOCK_MAGIC \<and> already_linked z block frame_num then Some (False, z, mem)
               else
                 (let mem = mem(virt := block\<lparr>fb_magic := FREE_BLOCK_MAGIC, fb_order := of_nat order,
                                   fb_pad := replicate 7 0, fb_next := old_head, fb_prev := 0\<rparr>);
                      z' = set_list z order frame_num (fl_count (mz_lists z ! order) + 1)
                  in if old_head \<noteq> 0 then
                       (let old_head_virt = phys_to_virt (push_bit FRAME_SHIFT old_head);
                            old_head_block = mem old_head_virt
                        in if \<not> canary_ok old_head_block order then None
                           else Some (True, z', mem(old_head_virt := old_head_block\<lparr>fb_prev := frame_num\<rparr>)))
                     else Some (True, z', mem)))))"

text \<open>
  Taking the head of a list.  A head outside the zone or with a damaged header is dropped, together
  with the list behind it unless its successor is sound; a damaged successor severs the list.
\<close>

definition pop_free_block :: "MemoryZone \<Rightarrow> PhysMem \<Rightarrow> nat \<Rightarrow> (u64 option \<times> MemoryZone \<times> PhysMem) option" where
  "pop_free_block z mem order =
     (let initial_count = fl_count (mz_lists z ! order); frame_num = fl_head (mz_lists z ! order) in
      if initial_count = 0 then Some (None, z, mem)
      else if frame_num = 0 then Some (None, set_list z order frame_num 0, mem)
      else
        (let addr = push_bit FRAME_SHIFT frame_num in
         if \<not> block_in_zone z addr order then Some (None, set_list z order 0 0, mem)
         else
           (let virt = phys_to_virt addr; block = mem virt in
            if \<not> canary_ok block order then
              (let candidate_next = fb_next block;
                   candidate_addr = push_bit FRAME_SHIFT candidate_next;
                   candidate_virt = phys_to_virt candidate_addr;
                   candidate_block = mem candidate_virt
               in if candidate_next \<noteq> 0 \<and> block_in_zone z candidate_addr order \<and> canary_ok candidate_block order
                  then Some (None, set_list z order candidate_next
                                     (if 0 < initial_count then initial_count - 1 else initial_count),
                             mem(candidate_virt := candidate_block\<lparr>fb_prev := 0\<rparr>))
                  else Some (None, set_list z order 0 0, mem))
            else
              (let next_frame = fb_next block;
                   mem = mem(virt := cleared block);
                   next_addr = push_bit FRAME_SHIFT next_frame;
                   next_virt = phys_to_virt next_addr;
                   next_block = mem next_virt;
                   (head, count, initial_count, mem) =
                     (if next_frame = 0 then (next_frame, initial_count, initial_count, mem)
                      else if \<not> block_in_zone z next_addr order \<or> \<not> canary_ok next_block order then (0, 1, 1, mem)
                      else (next_frame, initial_count, initial_count, mem(next_virt := next_block\<lparr>fb_prev := 0\<rparr>)))
               in if count \<noteq> initial_count then None
                  else if count = 0 then None
                  else Some (Some addr, set_list z order head (count - 1), mem)))))"

text \<open>Taking a given block out of the middle of a list.\<close>

definition remove_from_free_list ::
  "MemoryZone \<Rightarrow> PhysMem \<Rightarrow> nat \<Rightarrow> u64 \<Rightarrow> (bool \<times> MemoryZone \<times> PhysMem) option" where
  "remove_from_free_list z mem order addr =
     (if addr = 0 \<or> \<not> block_in_zone z addr order then Some (False, z, mem)
      else
        (let target_frame = drop_bit FRAME_SHIFT addr in
         if target_frame = 0 then Some (False, z, mem)
         else if fl_count (mz_lists z ! order) = 0 then Some (False, z, mem)
         else if fl_head (mz_lists z ! order) = target_frame then
           map_option (\<lambda>(r, z, mem). (r = Some addr, z, mem)) (pop_free_block z mem order)
         else
           (let target_virt = phys_to_virt addr; target_block = mem target_virt in
            if \<not> canary_ok target_block order then Some (False, z, mem)
            else if fb_prev target_block = 0 then Some (False, z, mem)
            else
              (let prev_virt = phys_to_virt (push_bit FRAME_SHIFT (fb_prev target_block)); prev_block = mem prev_virt in
               if \<not> canary_ok prev_block order then Some (False, z, mem)
               else if fb_next prev_block \<noteq> target_frame then Some (False, z, mem)
               else
                 (let mem = mem(prev_virt := prev_block\<lparr>fb_next := fb_next target_block\<rparr>);
                      next_virt = phys_to_virt (push_bit FRAME_SHIFT (fb_next (mem target_virt)));
                      next_block = mem next_virt;
                      z' = set_list z order (fl_head (mz_lists z ! order)) (fl_count (mz_lists z ! order) - 1)
                  in if fb_next (mem target_virt) \<noteq> 0 then
                       (if \<not> canary_ok next_block order then Some (False, z, mem)
                        else
                          (let mem = mem(next_virt := next_block\<lparr>fb_prev := fb_prev (mem target_virt)\<rparr>)
                           in Some (True, z', mem(target_virt := cleared (mem target_virt)))))
                     else Some (True, z', mem(target_virt := cleared (mem target_virt))))))))"

end
