(* ===== verification/Buddy_Ops.thy ===== *)
theory Buddy_Ops
  imports Buddy
begin

text \<open>
  The operations of the buddy allocator on top of the free lists of \<open>Buddy\<close>: splitting and
  coalescing within a zone, the choice of the zone, the page database and the statistics.  The globals
  the allocator reads and writes (the direct map, the page database, the watched frame, the event
  counters) extend its record.
\<close>

section \<open>Within a zone\<close>

definition add_free_pages :: "MemoryZone \<Rightarrow> nat \<Rightarrow> u64 \<Rightarrow> MemoryZone" where
  "add_free_pages z order d =
     z\<lparr>mz_stats := (mz_stats z)\<lparr>zs_free_pages := (zs_free_pages (mz_stats z))[order := zs_free_pages (mz_stats z) ! order + d]\<rparr>\<rparr>"

text \<open>The loops that ask the page database about every frame of a block.\<close>

definition frames_free :: "PageDatabase \<Rightarrow> u64 \<Rightarrow> nat \<Rightarrow> bool" where
  "frames_free db addr order =
     list_all (\<lambda>i. case PageDatabase_get db (addr + of_nat i * FRAME_SIZE) of Some pf \<Rightarrow> pf_is_free pf | None \<Rightarrow> False)
       [0..<2 ^ order]"

fun split_block :: "MemoryZone \<Rightarrow> PhysMem \<Rightarrow> u64 \<Rightarrow> nat list \<Rightarrow> (MemoryZone \<times> PhysMem) option" where
  "split_block z mem addr [] = Some (z, mem)"
| "split_block z mem addr (split_order # rest) =
     (let buddy_addr = addr + push_bit FRAME_SHIFT (push_bit split_order 1) in
      case add_free_block z mem split_order buddy_addr of
        None \<Rightarrow> None
      | Some (added, z, mem) \<Rightarrow> split_block (if added then add_free_pages z split_order 1 else z) mem addr rest)"

lemma length_set_list [simp]: "length (mz_lists (set_list z k h c)) = length (mz_lists z)"
  by (simp add: set_list_def)

lemma set_list_nth: "k < length (mz_lists z) \<Longrightarrow>
  mz_lists (set_list z k h c) ! j = (if j = k then \<lparr>fl_head = h, fl_count = c\<rparr> else mz_lists z ! j)"
  by (simp add: set_list_def)

lemma pop_free_block_length:
  "pop_free_block z mem k = Some (r, z', mem') \<Longrightarrow> length (mz_lists z') = length (mz_lists z)"
  by (auto simp: pop_free_block_def Let_def split: if_splits)

lemma pop_free_block_count:
  assumes "pop_free_block z mem k = Some (Some a, z', mem')" "k < length (mz_lists z)"
  shows "unat (fl_count (mz_lists z' ! k)) < unat (fl_count (mz_lists z ! k))"
proof -
  have less: "unat (c - 1) < unat c" if "c \<noteq> 0" for c :: u64
    using that by (simp add: unat_minus_one unat_gt_0)
  show ?thesis using assms
    by (auto simp: pop_free_block_def Let_def set_list_nth less unat_gt_0 split: if_splits)
qed

text \<open>
  The search over the orders: a block whose frames are not all free is dropped and the same order
  tried again.  The first guard is the bound of the array of free lists.
\<close>

function alloc_from_zone ::
  "PageDatabase option \<Rightarrow> nat \<Rightarrow> nat \<Rightarrow> MemoryZone \<Rightarrow> PhysMem \<Rightarrow> (u64 option \<times> MemoryZone \<times> PhysMem) option" where
  "alloc_from_zone db order current_order z mem =
     (if MAX_ORDER < current_order then Some (None, z, mem)
      else if length (mz_lists z) \<le> current_order then None
      else if fl_count (mz_lists z ! current_order) = 0 then alloc_from_zone db order (current_order + 1) z mem
      else
        (case pop_free_block z mem current_order of
           None \<Rightarrow> None
         | Some (None, z, mem) \<Rightarrow> alloc_from_zone db order (current_order + 1) z mem
         | Some (Some addr, z, mem) \<Rightarrow>
             (if (case db of Some db \<Rightarrow> \<not> frames_free db addr current_order | None \<Rightarrow> False)
              then alloc_from_zone db order current_order z mem
              else
                (case split_block z mem addr (rev [order..<current_order]) of
                   None \<Rightarrow> None
                 | Some (z, mem) \<Rightarrow> Some (Some addr, add_free_pages z current_order (- 1), mem)))))"
  by pat_completeness auto
termination
  by (relation "measures [\<lambda>(_, _, k, _, _). MAX_ORDER + 1 - k, \<lambda>(_, _, k, z, _). unat (fl_count (mz_lists z ! k))]")
    (auto dest: pop_free_block_count)

declare alloc_from_zone.simps [simp del]

function coalesce ::
  "PageDatabase option \<Rightarrow> MemoryZone \<Rightarrow> PhysMem \<Rightarrow> u64 \<Rightarrow> nat \<Rightarrow> (u64 \<times> nat \<times> MemoryZone \<times> PhysMem) option" where
  "coalesce db z mem current_addr current_order =
     (if current_order < MAX_ORDER then
        (let frame_num = drop_bit FRAME_SHIFT current_addr;
             buddy_frame = frame_num XOR push_bit current_order 1;
             buddy_addr = push_bit FRAME_SHIFT buddy_frame
         in if buddy_addr < mz_base z \<or> mz_base z + mz_size z \<le> buddy_addr then Some (current_addr, current_order, z, mem)
            else if (case db of Some db \<Rightarrow> \<not> frames_free db buddy_addr current_order | None \<Rightarrow> False)
            then Some (current_addr, current_order, z, mem)
            else
              (case remove_from_free_list z mem current_order buddy_addr of
                 None \<Rightarrow> None
               | Some (removed, z, mem) \<Rightarrow>
                   (if \<not> removed then Some (current_addr, current_order, z, mem)
                    else coalesce db (add_free_pages z current_order (- 1)) mem (min current_addr buddy_addr) (current_order + 1))))
      else Some (current_addr, current_order, z, mem))"
  by pat_completeness auto
termination by (relation "measure (\<lambda>(_, _, _, _, k). MAX_ORDER - k)") auto

declare coalesce.simps [simp del]

definition free_to_zone ::
  "PageDatabase option \<Rightarrow> MemoryZone \<Rightarrow> PhysMem \<Rightarrow> u64 \<Rightarrow> nat \<Rightarrow> (MemoryZone \<times> PhysMem) option" where
  "free_to_zone db z mem addr order =
     (if addr = 0 then Some (z, mem)
      else
        (let block = mem (phys_to_virt addr) in
         if fb_magic block = FREE_BLOCK_MAGIC \<and> already_linked z block (drop_bit FRAME_SHIFT addr) then Some (z, mem)
         else
           (case coalesce db z mem addr order of
              None \<Rightarrow> None
            | Some (current_addr, current_order, z, mem) \<Rightarrow>
                (case add_free_block z mem current_order current_addr of
                   None \<Rightarrow> None
                 | Some (added, z, mem) \<Rightarrow> Some (if added then add_free_pages z current_order 1 else z, mem)))))"

section \<open>The allocator\<close>

record BuddyAllocator =
  ba_zones :: "MemoryZone list"
  ba_stats :: MemoryStats
  ba_initialized :: bool

definition BuddyAllocator_new :: BuddyAllocator where
  "BuddyAllocator_new =
     \<lparr>ba_zones = [MemoryZone_new Dma, MemoryZone_new Normal, MemoryZone_new High],
      ba_stats = MemoryStats_new, ba_initialized = False\<rparr>"

datatype VmCounter = PgAllocNormal | PgAllocDma | PgAllocHigh | PgFreeNormal | PgFreeDma | PgFreeHigh

text \<open>
  The globals: the direct map, the page database, the context of the last free, the watched frame,
  the counters, and the calls of the watermark callback, if one is registered.
\<close>

record MemSystem = BuddyAllocator +
  sy_mem :: PhysMem
  sy_db :: "PageDatabase option"
  sy_ctx :: u8
  sy_watched :: u64
  sy_vmstat :: "VmCounter \<Rightarrow> u64"
  sy_wmark_cb :: bool
  sy_wmark_calls :: "(nat \<times> u64) list"

definition vmstat_add :: "MemSystem \<Rightarrow> VmCounter \<Rightarrow> u64 \<Rightarrow> MemSystem" where
  "vmstat_add s c n = s\<lparr>sy_vmstat := (sy_vmstat s)(c := sy_vmstat s c + n)\<rparr>"

definition mark_block_allocated :: "PageDatabase \<Rightarrow> u64 \<Rightarrow> nat \<Rightarrow> PageDatabase" where
  "mark_block_allocated db addr order = foldl (\<lambda>db i. mark_allocated db (addr + of_nat i * FRAME_SIZE) 0) db [0..<2 ^ order]"

definition mark_block_free :: "PageDatabase \<Rightarrow> u64 \<Rightarrow> nat \<Rightarrow> PageDatabase" where
  "mark_block_free db addr order =
     foldl (\<lambda>db i. case mark_free db (addr + of_nat i * FRAME_SIZE) of Inl _ \<Rightarrow> db | Inr db \<Rightarrow> db) db [0..<2 ^ order]"

definition zone_order :: "ZoneType option \<Rightarrow> nat list" where
  "zone_order z = (case z of Some Dma \<Rightarrow> [0, 1, 2] | Some Normal \<Rightarrow> [1, 2, 0] | Some High \<Rightarrow> [2, 1, 0] | None \<Rightarrow> [1, 2, 0])"

definition set_zone :: "MemSystem \<Rightarrow> nat \<Rightarrow> MemoryZone \<Rightarrow> PhysMem \<Rightarrow> MemSystem" where
  "set_zone s i z mem = s\<lparr>ba_zones := (ba_zones s)[i := z], sy_mem := mem\<rparr>"

text \<open>What follows a successful allocation in a zone: statistics, counters, watermark, page database.\<close>

definition note_alloc :: "MemSystem \<Rightarrow> nat \<Rightarrow> MemoryZone \<Rightarrow> u64 \<Rightarrow> nat \<Rightarrow> MemSystem" where
  "note_alloc s zone_idx z addr order =
     (let pages = push_bit order 1;
          s = s\<lparr>ba_stats := record_alloc (ba_stats s) (pages * FRAME_SIZE)\<rparr>;
          s = vmstat_add s (if zone_idx = 0 then PgAllocDma else if zone_idx = 1 then PgAllocNormal else PgAllocHigh) pages;
          s = (if sy_wmark_cb s then s\<lparr>sy_wmark_calls := sy_wmark_calls s @ [(zone_idx, total_free_pages z)]\<rparr> else s)
      in s\<lparr>sy_db := map_option (\<lambda>db. mark_block_allocated db addr order) (sy_db s)\<rparr>)"

fun alloc_zones :: "MemSystem \<Rightarrow> nat \<Rightarrow> nat list \<Rightarrow> (u64 option \<times> MemSystem) option" where
  "alloc_zones s order [] = Some (None, s)"
| "alloc_zones s order (i # is) =
     (let z = ba_zones s ! i in
      if zone_is_empty z then alloc_zones s order is
      else
        (case alloc_from_zone (sy_db s) order order z (sy_mem s) of
           None \<Rightarrow> None
         | Some (None, z, mem) \<Rightarrow> alloc_zones (set_zone s i z mem) order is
         | Some (Some addr, z, mem) \<Rightarrow> Some (Some addr, note_alloc (set_zone s i z mem) i z addr order)))"

definition BuddyAllocator_alloc :: "MemSystem \<Rightarrow> AllocRequest \<Rightarrow> (PhysAddr MmResult \<times> MemSystem) option" where
  "BuddyAllocator_alloc s request =
     (if MAX_ORDER < ar_order request then Some (Inl InvalidOrder, s)
      else
        (case alloc_zones s (ar_order request) (zone_order (ar_zone request)) of
           None \<Rightarrow> None
         | Some (Some addr, s) \<Rightarrow> Some (Inr addr, s)
         | Some (None, s) \<Rightarrow> Some (Inl OutOfMemory, s\<lparr>ba_stats := record_failure (ba_stats s)\<rparr>)))"

definition is_aligned :: "PhysAddr \<Rightarrow> u64 \<Rightarrow> bool" where
  "is_aligned a n \<longleftrightarrow> a AND (n - 1) = 0"

definition BuddyAllocator_free :: "MemSystem \<Rightarrow> PhysAddr \<Rightarrow> nat \<Rightarrow> (unit MmResult \<times> MemSystem) option" where
  "BuddyAllocator_free s addr order =
     (if MAX_ORDER < order then Some (Inl InvalidOrder, s)
      else if \<not> is_aligned addr FRAME_SIZE then Some (Inl NotAligned, s)
      else if sy_watched s \<noteq> 0 \<and> addr \<le> sy_watched s \<and> sy_watched s < addr + push_bit FRAME_SHIFT (push_bit order 1)
      then Some (Inr (), s)
      else if (case sy_db s of Some db \<Rightarrow> validate_free db (sy_ctx s) addr \<noteq> Inr () | None \<Rightarrow> False)
      then Some (Inl DoubleFree, s)
      else
        (let zone_type = for_address addr; z = ba_zones s ! zone_index zone_type in
         if zone_is_empty z then Some (Inl ZoneNotFound, s)
         else
           (let s = s\<lparr>sy_db := map_option (\<lambda>db. mark_block_free db addr order) (sy_db s)\<rparr> in
            case free_to_zone (sy_db s) z (sy_mem s) addr order of
              None \<Rightarrow> None
            | Some (z, mem) \<Rightarrow>
                (let s = set_zone s (zone_index zone_type) z mem;
                     pages = push_bit order 1;
                     s = s\<lparr>ba_stats := record_free (ba_stats s) (pages * FRAME_SIZE)\<rparr>
                 in Some (Inr (), vmstat_add s (case zone_type of Dma \<Rightarrow> PgFreeDma | Normal \<Rightarrow> PgFreeNormal | High \<Rightarrow> PgFreeHigh) pages)))))"

section \<open>Queries and the frame interface\<close>

definition free_at_order :: "MemSystem \<Rightarrow> nat \<Rightarrow> u64" where
  "free_at_order s order =
     (if MAX_ORDER < order then 0 else foldl (\<lambda>total z. total + fl_count (mz_lists z ! order)) 0 (ba_zones s))"

definition next_power_of_two :: "u64 \<Rightarrow> u64" where
  "next_power_of_two n = (if n \<le> 1 then 1 else drop_bit (leading_zeros (n - 1)) (- 1) + 1)"

definition ok_of :: "(PhysAddr MmResult \<times> MemSystem) option \<Rightarrow> (PhysAddr option \<times> MemSystem) option" where
  "ok_of r = map_option (\<lambda>(r, s). (case r of Inl _ \<Rightarrow> None | Inr a \<Rightarrow> Some a, s)) r"

definition alloc_frame :: "MemSystem \<Rightarrow> (PhysAddr option \<times> MemSystem) option" where
  "alloc_frame s = ok_of (BuddyAllocator_alloc s (AllocRequest_new 0))"

definition free_frame :: "MemSystem \<Rightarrow> PhysAddr \<Rightarrow> MemSystem option" where
  "free_frame s addr = map_option snd (BuddyAllocator_free s addr 0)"

definition alloc_frames :: "MemSystem \<Rightarrow> u64 \<Rightarrow> (PhysAddr option \<times> MemSystem) option" where
  "alloc_frames s n =
     (if n = 0 then Some (None, s)
      else ok_of (BuddyAllocator_alloc s (AllocRequest_new (trailing_zeros (next_power_of_two n)))))"

definition free_frames :: "MemSystem \<Rightarrow> PhysAddr \<Rightarrow> u64 \<Rightarrow> MemSystem option" where
  "free_frames s addr n =
     (if n = 0 then Some s
      else map_option snd (BuddyAllocator_free s addr (trailing_zeros (next_power_of_two n))))"

end
