(* ===== verification/Buddy_Lists.thy ===== *)
theory Buddy_Lists
  imports Buddy_Ops
begin

text \<open>
  The free lists as lists.  A free list is a doubly linked chain of headers (\<open>dll\<close>); a zone
  represents a function from orders to lists of frame numbers (\<open>zone_rep\<close>).  Under this
  representation \<open>add_free_block\<close>, \<open>pop_free_block\<close> and \<open>remove_from_free_list\<close> are insertion at
  the head, removal of the head and removal of a member, none of them ever takes a corruption
  branch, and they write nothing but the headers of free blocks.
\<close>

section \<open>Frames and addresses\<close>

definition hdr :: "PhysMem \<Rightarrow> u64 \<Rightarrow> FreeBlock" where
  "hdr mem f = mem (phys_to_virt (push_bit FRAME_SHIFT f))"

definition set_hdr :: "PhysMem \<Rightarrow> u64 \<Rightarrow> FreeBlock \<Rightarrow> PhysMem" where
  "set_hdr mem f b = mem(phys_to_virt (push_bit FRAME_SHIFT f) := b)"

definition frame_ok :: "u64 \<Rightarrow> bool" where
  "frame_ok f \<longleftrightarrow> unat f < 2 ^ 52"

lemma frame_ok_drop [simp]: "frame_ok (drop_bit FRAME_SHIFT a)"
proof -
  have "unat a div 4096 < 2 ^ 52" using unat_u64_less [of a] by (simp add: less_mult_imp_div_less)
  then show ?thesis by (simp add: frame_ok_def FRAME_SHIFT_def drop_bit_eq_div unat_div_distrib)
qed

lemma unat_frame_addr: "frame_ok f \<Longrightarrow> unat (push_bit FRAME_SHIFT f) = unat f * 4096"
  by (simp add: frame_ok_def FRAME_SHIFT_def push_bit_eq_mult unat_word_ariths)

lemma drop_push_frame [simp]: "frame_ok f \<Longrightarrow> drop_bit FRAME_SHIFT (push_bit FRAME_SHIFT f) = f"
proof -
  assume f: "frame_ok f"
  have "unat (drop_bit FRAME_SHIFT (push_bit FRAME_SHIFT f)) = unat (push_bit FRAME_SHIFT f) div 4096"
    by (simp add: FRAME_SHIFT_def drop_bit_eq_div unat_div_distrib)
  also have "\<dots> = unat f" using unat_frame_addr [OF f] by simp
  finally show ?thesis by (rule word_unat_eq_iff [THEN iffD2])
qed

lemma frame_addr_inj: "frame_ok f \<Longrightarrow> frame_ok g \<Longrightarrow> push_bit FRAME_SHIFT f = push_bit FRAME_SHIFT g \<longleftrightarrow> f = g"
  by (metis drop_push_frame)

lemma frame_addr_0: "frame_ok f \<Longrightarrow> push_bit FRAME_SHIFT f = 0 \<longleftrightarrow> f = 0"
  using frame_addr_inj [of f 0] by (simp add: frame_ok_def)

lemma hdr_set_hdr [simp]: "frame_ok f \<Longrightarrow> frame_ok g \<Longrightarrow> hdr (set_hdr mem f b) g = (if g = f then b else hdr mem g)"
  by (auto simp: hdr_def set_hdr_def phys_to_virt_def frame_addr_inj)

definition frames :: "u64 \<Rightarrow> nat \<Rightarrow> nat set" where
  "frames f k = {unat f..<unat f + 2 ^ k}"

lemma head_in_frames [simp]: "unat f \<in> frames f k"
  by (simp add: frames_def)

lemma frames_nonempty [simp]: "frames f k \<noteq> {}"
  using head_in_frames by blast

lemma frames_finite [simp]: "finite (frames f k)"
  by (simp add: frames_def)

lemma unat_pow2: "k < 64 \<Longrightarrow> unat (2 ^ k :: u64) = 2 ^ k"
  using unat_of_nat [of "2 ^ k", where 'a = 64] power_strict_increasing [of k 64 "2 :: nat"] by simp

lemma unat_block_size:
  assumes "k \<le> MAX_ORDER"
  shows "unat (push_bit FRAME_SHIFT (push_bit k 1) :: u64) = 2 ^ k * 4096"
proof -
  have "push_bit FRAME_SHIFT (push_bit k 1) = (2 ^ (12 + k) :: u64)"
    by (simp add: FRAME_SHIFT_def push_bit_eq_mult power_add)
  then show ?thesis using assms unat_pow2 [of "12 + k"] by (simp add: MAX_ORDER_def power_add)
qed

text \<open>The zone's extent in bytes; no zone reaches the end of the address space.\<close>

lemma block_in_zone_iff:
  assumes "frame_ok f" "k \<le> MAX_ORDER"
  shows "block_in_zone z (push_bit FRAME_SHIFT f) k \<longleftrightarrow>
    unat (mz_base z) + unat (mz_size z) < 2 ^ 64 \<and> unat (mz_base z) \<le> unat f * 4096
    \<and> (unat f + 2 ^ k) * 4096 \<le> unat (mz_base z) + unat (mz_size z)"
proof -
  define a s :: u64 where "a = push_bit FRAME_SHIFT f" and "s = push_bit FRAME_SHIFT (push_bit k 1)"
  have "block_in_zone z a k \<longleftrightarrow> unat (mz_base z) + unat (mz_size z) < 2 ^ 64 \<and> unat a + unat s < 2 ^ 64
      \<and> unat (mz_base z) \<le> unat a \<and> unat a + unat s \<le> unat (mz_base z) + unat (mz_size z)"
    by (auto simp: block_in_zone_def checked_add_def unat_add_no_overflow word_le_nat_alt s_def)
  moreover have "unat a = unat f * 4096" "unat s = 2 ^ k * 4096"
    using unat_frame_addr [OF assms(1)] unat_block_size [OF assms(2)] by (simp_all add: a_def s_def)
  ultimately show ?thesis unfolding a_def by (auto simp: add_mult_distrib)
qed

lemma block_in_zone_cong:
  "mz_base z' = mz_base z \<Longrightarrow> mz_size z' = mz_size z \<Longrightarrow> block_in_zone z' a k = block_in_zone z a k"
  unfolding block_in_zone_def by presburger

section \<open>Linked lists\<close>

primrec dll :: "PhysMem \<Rightarrow> nat \<Rightarrow> u64 \<Rightarrow> u64 \<Rightarrow> u64 list \<Rightarrow> bool" where
  "dll mem k p c [] \<longleftrightarrow> c = 0"
| "dll mem k p c (x # xs) \<longleftrightarrow> c = x \<and> x \<noteq> 0 \<and> frame_ok x \<and> canary_ok (hdr mem x) k
     \<and> fb_prev (hdr mem x) = p \<and> dll mem k x (fb_next (hdr mem x)) xs"

lemma dll_cong: "(\<And>x. x \<in> set xs \<Longrightarrow> hdr mem' x = hdr mem x) \<Longrightarrow> dll mem' k p c xs = dll mem k p c xs"
  by (induction xs arbitrary: p c) auto

lemma dll_members: "dll mem k p c xs \<Longrightarrow> x \<in> set xs \<Longrightarrow> x \<noteq> 0 \<and> frame_ok x \<and> canary_ok (hdr mem x) k"
  by (induction xs arbitrary: p c) auto

lemma dll_set_hdr: "dll mem k p c xs \<Longrightarrow> frame_ok f \<Longrightarrow> f \<notin> set xs \<Longrightarrow> dll (set_hdr mem f b) k p c xs"
  by (subst dll_cong [where mem = mem]) (auto dest: dll_members)

lemma dll_head: "dll mem k p c xs \<Longrightarrow> c = (case xs of [] \<Rightarrow> 0 | x # _ \<Rightarrow> x)"
  by (cases xs) auto

lemma canary_ok_update [simp]:
  "canary_ok (b\<lparr>fb_prev := q\<rparr>) k = canary_ok b k" "canary_ok (b\<lparr>fb_next := q\<rparr>) k = canary_ok b k"
  by (simp_all add: canary_ok_def)

lemma canary_ok_cleared [simp]: "\<not> canary_ok (cleared b) k"
  by (simp add: canary_ok_def cleared_def FREE_BLOCK_MAGIC_def)

lemma dll_set_prev:
  "dll mem k p c xs \<Longrightarrow> distinct xs \<Longrightarrow> xs \<noteq> [] \<Longrightarrow> dll (set_hdr mem c ((hdr mem c)\<lparr>fb_prev := q\<rparr>)) k q c xs"
  by (cases xs) (auto intro: dll_set_hdr)

text \<open>The members around a given one.\<close>

lemma dll_neighbours:
  assumes "dll mem k p c xs" "distinct xs" "t \<in> set xs"
  shows "fb_next (hdr mem t) \<in> insert 0 (set xs)" "fb_next (hdr mem t) \<noteq> t"
    and "t \<noteq> c \<Longrightarrow> fb_prev (hdr mem t) \<in> set xs \<and> fb_prev (hdr mem t) \<noteq> t
      \<and> fb_next (hdr mem (fb_prev (hdr mem t))) = t \<and> fb_prev (hdr mem t) \<noteq> fb_next (hdr mem t)"
  using assms
proof (induction xs arbitrary: p c)
  case (Cons x xs)
  {
    case 1 with Cons.IH(1) show ?case by (auto split: list.splits dest: dll_head)
  next
    case 2 with Cons.IH(2) show ?case by (cases xs) auto
  next
    case 3
    show ?case
    proof (cases "t = fb_next (hdr mem x)")
      case True
      then obtain bs where xs: "xs = t # bs" using 3 by (cases xs) auto
      with 3 show ?thesis by (cases bs) auto
    next
      case False
      with 3 Cons.IH(3) [of "fb_next (hdr mem x)" x] show ?thesis by auto
    qed
  }
qed auto

definition unlink :: "PhysMem \<Rightarrow> u64 \<Rightarrow> PhysMem" where
  "unlink mem t =
     (let p = fb_prev (hdr mem t); n = fb_next (hdr mem t);
          mem = set_hdr mem p ((hdr mem p)\<lparr>fb_next := n\<rparr>);
          mem = (if n \<noteq> 0 then set_hdr mem n ((hdr mem n)\<lparr>fb_prev := p\<rparr>) else mem)
      in set_hdr mem t (cleared (hdr mem t)))"

lemma hdr_unlink:
  assumes "frame_ok t" "frame_ok (fb_prev (hdr mem t))" "frame_ok (fb_next (hdr mem t))" "frame_ok g"
    and "fb_prev (hdr mem t) \<noteq> t" "fb_next (hdr mem t) \<noteq> t" "fb_prev (hdr mem t) \<noteq> fb_next (hdr mem t)"
  shows "hdr (unlink mem t) g =
    (if g = t then cleared (hdr mem t)
     else if g = fb_prev (hdr mem t) then (hdr mem g)\<lparr>fb_next := fb_next (hdr mem t)\<rparr>
     else if g = fb_next (hdr mem t) \<and> g \<noteq> 0 then (hdr mem g)\<lparr>fb_prev := fb_prev (hdr mem t)\<rparr>
     else hdr mem g)"
  using assms by (simp add: unlink_def Let_def)

lemma dll_unlink:
  assumes "dll mem k p c xs" "distinct xs" "t \<in> set xs" "t \<noteq> c"
  shows "dll (unlink mem t) k p c (remove1 t xs)"
  using assms
proof (induction xs arbitrary: p c)
  case (Cons x xs)
  then have x: "c = x" "x \<noteq> 0" "frame_ok x" "t \<in> set xs" "t \<noteq> x" "x \<notin> set xs" "distinct xs"
    and d: "dll mem k x (fb_next (hdr mem x)) xs"
    by auto
  have ok: "frame_ok y" if "y \<in> insert 0 (insert x (set xs))" for y
    using that x dll_members [OF d] by (auto simp: frame_ok_def)
  have tt: "t \<in> set (x # xs)" "t \<noteq> c" using x by simp_all
  note nb = dll_neighbours [OF Cons.prems(1,2) tt(1)]
  note nb3 = nb(3) [OF tt(2)]
  have h: "hdr (unlink mem t) g =
      (if g = t then cleared (hdr mem t)
       else if g = fb_prev (hdr mem t) then (hdr mem g)\<lparr>fb_next := fb_next (hdr mem t)\<rparr>
       else if g = fb_next (hdr mem t) \<and> g \<noteq> 0 then (hdr mem g)\<lparr>fb_prev := fb_prev (hdr mem t)\<rparr>
       else hdr mem g)" if "g \<in> set (x # xs)" for g
    using nb(1,2) nb3 tt(1) that by (intro hdr_unlink ok) auto
  show ?case
  proof (cases "t = fb_next (hdr mem x)")
    case True
    then obtain bs where xs: "xs = t # bs" using x d by (cases xs) auto
    with d have t: "fb_prev (hdr mem t) = x" "dll mem k t (fb_next (hdr mem t)) bs" by auto
    have "dll (unlink mem t) k x (fb_next (hdr mem t)) bs"
    proof (cases bs)
      case (Cons b cs)
      with t(2) have b: "fb_next (hdr mem t) = b" "b \<noteq> 0" "frame_ok b" by auto
      have e: "hdr (unlink mem t) g = hdr (set_hdr mem b ((hdr mem b)\<lparr>fb_prev := x\<rparr>)) g" if "g \<in> set bs" for g
      proof -
        have "g \<noteq> t" "g \<noteq> x" "g \<in> set (x # xs)" using that x xs by auto
        then show ?thesis using h [of g] b t(1) ok [of g] that xs by simp
      qed
      have "dll (set_hdr mem b ((hdr mem b)\<lparr>fb_prev := x\<rparr>)) k x b bs"
        using dll_set_prev [OF t(2), of x] x(7) xs Cons b by simp
      then show ?thesis using dll_cong [of bs, OF e] b by simp
    qed (use t in simp)
    then show ?thesis using h [of x] Cons.prems(1) xs x t(1) by simp
  next
    case False
    note nbd = dll_neighbours [OF d x(7,4)]
    have "hdr (unlink mem t) x = hdr mem x"
      using h [of x] x nbd(1) nbd(3) [OF False] by auto
    then show ?thesis using Cons.IH [OF d x(7,4) False] Cons.prems(1) x by simp
  qed
qed auto

end
