(* ===== verification/Buddy_Zone.thy ===== *)
theory Buddy_Zone
  imports Buddy_Lists
begin

text \<open>
  What a zone represents: for each order a list of frame numbers, the heads of the free blocks of
  this order (\<open>zone_rep\<close>).  The blocks are aligned, lie in the zone and are pairwise disjoint.  The
  three operations on the free lists are specified on this representation.
\<close>

section \<open>Sets of free blocks\<close>

type_synonym blocks = "nat \<Rightarrow> u64 list"

definition heads :: "blocks \<Rightarrow> u64 set" where
  "heads L = (\<Union>k\<le>MAX_ORDER. set (L k))"

definition free_set :: "blocks \<Rightarrow> nat set" where
  "free_set L = (\<Union>k\<le>MAX_ORDER. \<Union>f\<in>set (L k). frames f k)"

definition block_ok :: "MemoryZone \<Rightarrow> nat \<Rightarrow> u64 \<Rightarrow> bool" where
  "block_ok z k f \<longleftrightarrow> frame_ok f \<and> f \<noteq> 0 \<and> 2 ^ k dvd unat f \<and> block_in_zone z (push_bit FRAME_SHIFT f) k"

definition blocks_ok :: "MemoryZone \<Rightarrow> blocks \<Rightarrow> bool" where
  "blocks_ok z L \<longleftrightarrow>
     (\<forall>k\<le>MAX_ORDER. distinct (L k) \<and> (\<forall>f\<in>set (L k). block_ok z k f)) \<and>
     (\<forall>j\<le>MAX_ORDER. \<forall>k\<le>MAX_ORDER. \<forall>f\<in>set (L j). \<forall>g\<in>set (L k). (j, f) \<noteq> (k, g) \<longrightarrow> frames f j \<inter> frames g k = {})"

definition lists_rep :: "MemoryZone \<Rightarrow> PhysMem \<Rightarrow> blocks \<Rightarrow> bool" where
  "lists_rep z mem L \<longleftrightarrow>
     length (mz_lists z) = MAX_ORDER + 1 \<and>
     (\<forall>k\<le>MAX_ORDER. dll mem k 0 (fl_head (mz_lists z ! k)) (L k) \<and> unat (fl_count (mz_lists z ! k)) = length (L k))"

definition zone_rep :: "MemoryZone \<Rightarrow> PhysMem \<Rightarrow> blocks \<Rightarrow> bool" where
  "zone_rep z mem L \<longleftrightarrow> blocks_ok z L \<and> lists_rep z mem L"

lemma in_free_setI: "k \<le> MAX_ORDER \<Longrightarrow> f \<in> set (L k) \<Longrightarrow> n \<in> frames f k \<Longrightarrow> n \<in> free_set L"
  by (auto simp: free_set_def)

lemma in_free_setE:
  assumes "n \<in> free_set L"
  obtains k f where "k \<le> MAX_ORDER" "f \<in> set (L k)" "n \<in> frames f k"
  using assms by (auto simp: free_set_def)

lemma headsE: "f \<in> heads L \<Longrightarrow> (\<And>k. k \<le> MAX_ORDER \<Longrightarrow> f \<in> set (L k) \<Longrightarrow> P) \<Longrightarrow> P"
  by (auto simp: heads_def)

lemma heads_free: "f \<in> heads L \<Longrightarrow> unat f \<in> free_set L"
  by (auto elim!: headsE intro: in_free_setI)

lemma heads_ok: "blocks_ok z L \<Longrightarrow> f \<in> heads L \<Longrightarrow> frame_ok f \<and> f \<noteq> 0"
  by (auto simp: blocks_ok_def block_ok_def elim!: headsE)

lemma blocks_okD:
  assumes "blocks_ok z L" "k \<le> MAX_ORDER"
  shows "distinct (L k)" "f \<in> set (L k) \<Longrightarrow> block_ok z k f"
    and "j \<le> MAX_ORDER \<Longrightarrow> f \<in> set (L j) \<Longrightarrow> g \<in> set (L k) \<Longrightarrow> (j, f) \<noteq> (k, g) \<Longrightarrow> frames f j \<inter> frames g k = {}"
  using assms unfolding blocks_ok_def by auto

text \<open>A frame is the head of a block of one order at most.\<close>

lemma head_unique:
  assumes "blocks_ok z L" "j \<le> MAX_ORDER" "k \<le> MAX_ORDER" "f \<in> set (L j)" "f \<in> set (L k)"
  shows "j = k"
  using blocks_okD(3) [OF assms(1,3,2,4,5)] head_in_frames [of f j] head_in_frames [of f k] by blast

lemma free_set_insert:
  "k \<le> MAX_ORDER \<Longrightarrow> free_set (L(k := f # L k)) = frames f k \<union> free_set L"
  by (auto elim!: in_free_setE split: if_splits) (auto intro: in_free_setI in_free_setI [of k])

lemma heads_insert: "k \<le> MAX_ORDER \<Longrightarrow> heads (L(k := f # L k)) = insert f (heads L)"
  by (auto simp: heads_def split: if_splits)

lemma heads_remove:
  assumes "blocks_ok z L" "k \<le> MAX_ORDER" "f \<in> set (L k)"
  shows "heads (L(k := remove1 f (L k))) = heads L - {f}"
proof (rule set_eqI)
  fix g
  have r: "g \<in> set ((L(k := remove1 f (L k))) j) \<longleftrightarrow> g \<in> set (L j) \<and> (j, g) \<noteq> (k, f)" for j
    using blocks_okD(1) [OF assms(1,2)] by auto
  have "j = k" if "j \<le> MAX_ORDER" "f \<in> set (L j)" for j
    using head_unique [OF assms(1) that(1) assms(2) that(2) assms(3)] .
  then have "(\<exists>j\<le>MAX_ORDER. g \<in> set (L j) \<and> (j, g) \<noteq> (k, f)) \<longleftrightarrow> (\<exists>j\<le>MAX_ORDER. g \<in> set (L j)) \<and> g \<noteq> f"
    by blast
  then show "g \<in> heads (L(k := remove1 f (L k))) \<longleftrightarrow> g \<in> heads L - {f}"
    unfolding heads_def by (simp only: UN_iff r Diff_iff singleton_iff atMost_iff Bex_def)
qed

lemma free_set_remove:
  assumes "blocks_ok z L" "k \<le> MAX_ORDER" "f \<in> set (L k)"
  shows "free_set (L(k := remove1 f (L k))) = free_set L - frames f k"
proof (rule set_eqI)
  fix n
  note d = blocks_okD(1) [OF assms(1,2)]
  note disj = blocks_okD(3) [OF assms(1,2) _ _ assms(3)]
  show "n \<in> free_set (L(k := remove1 f (L k))) \<longleftrightarrow> n \<in> free_set L - frames f k"
  proof
    assume "n \<in> free_set (L(k := remove1 f (L k)))"
    then obtain j g where g: "j \<le> MAX_ORDER" "g \<in> set ((L(k := remove1 f (L k))) j)" "n \<in> frames g j"
      by (rule in_free_setE)
    then have "g \<in> set (L j)" "(j, g) \<noteq> (k, f)" using d by (auto split: if_splits)
    with g disj [of j g] show "n \<in> free_set L - frames f k" by (auto intro: in_free_setI)
  next
    assume "n \<in> free_set L - frames f k"
    then obtain j g where g: "j \<le> MAX_ORDER" "g \<in> set (L j)" "n \<in> frames g j" "n \<notin> frames f k"
      by (auto elim: in_free_setE)
    then have "g \<in> set ((L(k := remove1 f (L k))) j)" using d by auto
    with g show "n \<in> free_set (L(k := remove1 f (L k)))" by (auto intro: in_free_setI)
  qed
qed

lemma blocks_ok_insert:
  assumes "blocks_ok z L" "k \<le> MAX_ORDER" "block_ok z k f" "frames f k \<inter> free_set L = {}"
  shows "blocks_ok z (L(k := f # L k))"
proof -
  have new: "frames f k \<inter> frames g j = {}" if "j \<le> MAX_ORDER" "g \<in> set (L j)" for j g
    using that assms(4) by (auto intro: in_free_setI)
  have "f \<notin> set (L k)" using new [of k f] assms(2) head_in_frames [of f k] by auto
  then show ?thesis
    using assms(1-3) new unfolding blocks_ok_def by (simp add: Int_commute)
qed

lemma blocks_ok_remove:
  assumes "blocks_ok z L" "k \<le> MAX_ORDER"
  shows "blocks_ok z (L(k := remove1 f (L k)))"
proof -
  have "set ((L(k := remove1 f (L k))) j) \<subseteq> set (L j)" for j using set_remove1_subset [of f "L k"] by auto
  then show ?thesis using assms unfolding blocks_ok_def by (simp add: subset_eq)
qed

lemma length_blocks:
  assumes "blocks_ok z L" "k \<le> MAX_ORDER"
  shows "length (L k) \<le> 2 ^ 52"
proof -
  have "length (L k) = card (unat ` set (L k))"
    using distinct_card [OF blocks_okD(1) [OF assms]] by (simp add: card_image inj_on_def word_unat_eq_iff)
  also have "\<dots> \<le> card {..<2 ^ 52 :: nat}"
    using blocks_okD(2) [OF assms] by (intro card_mono) (auto simp: block_ok_def frame_ok_def)
  finally show ?thesis by simp
qed

section \<open>Stale headers\<close>

text \<open>
  A header that the code takes for that of a linked block.  Of memory outside the free lists only
  such headers can mislead the allocator.  An operation may write the headers of the frames \<open>S\<close>, and
  leaves no new misleading header behind.
\<close>

definition fake :: "FreeBlock \<Rightarrow> bool" where
  "fake b \<longleftrightarrow> fb_magic b = FREE_BLOCK_MAGIC \<and> unat (fb_order b) \<le> MAX_ORDER \<and> (fb_next b \<noteq> 0 \<or> fb_prev b \<noteq> 0)"

definition evolves :: "nat set \<Rightarrow> PhysMem \<Rightarrow> blocks \<Rightarrow> PhysMem \<Rightarrow> blocks \<Rightarrow> bool" where
  "evolves S mem L mem' L' \<longleftrightarrow>
     (\<forall>g. frame_ok g \<longrightarrow> (unat g \<notin> S \<longrightarrow> hdr mem' g = hdr mem g) \<and>
        (g \<notin> heads L' \<and> fake (hdr mem' g) \<longrightarrow> g \<notin> heads L \<and> fake (hdr mem g)))"

lemma evolves_refl [simp]: "evolves S mem L mem L"
  by (simp add: evolves_def)

lemma evolvesD:
  assumes "evolves S mem L mem' L'" "frame_ok g"
  shows "unat g \<notin> S \<Longrightarrow> hdr mem' g = hdr mem g" "g \<notin> heads L' \<Longrightarrow> fake (hdr mem' g) \<Longrightarrow> g \<notin> heads L \<and> fake (hdr mem g)"
  using assms by (simp_all add: evolves_def)

lemma evolves_trans:
  assumes "evolves S m L m' L'" "evolves T m' L' m'' L''" "S \<subseteq> U" "T \<subseteq> U"
  shows "evolves U m L m'' L''"
  unfolding evolves_def
proof (intro allI impI conjI)
  fix g assume g: "frame_ok g"
  note e1 = evolvesD [OF assms(1) g] and e2 = evolvesD [OF assms(2) g]
  { assume "unat g \<notin> U"
    then have "unat g \<notin> S" "unat g \<notin> T" using assms(3,4) by auto
    then show "hdr m'' g = hdr m g" by (simp add: e1(1) e2(1)) }
  { assume "g \<notin> heads L'' \<and> fake (hdr m'' g)"
    then show "g \<notin> heads L" "fake (hdr m g)" using e1(2) e2(2) by blast+ }
qed

lemma not_fake_cleared [simp]: "\<not> fake (cleared b)"
  by (simp add: fake_def cleared_def FREE_BLOCK_MAGIC_def)

lemma evolvesI:
  assumes "\<And>g. frame_ok g \<Longrightarrow> hdr mem' g \<noteq> hdr mem g \<Longrightarrow> unat g \<in> S \<and> (g \<in> heads L' \<or> \<not> fake (hdr mem' g))"
    and "\<And>g. g \<in> heads L \<Longrightarrow> g \<in> heads L' \<or> \<not> fake (hdr mem' g)"
  shows "evolves S mem L mem' L'"
  unfolding evolves_def
proof (intro allI impI conjI)
  fix g assume g: "frame_ok g"
  { assume "unat g \<notin> S" then show "hdr mem' g = hdr mem g" using assms(1) [OF g] by blast }
  { assume a: "g \<notin> heads L' \<and> fake (hdr mem' g)"
    then show "g \<notin> heads L" using assms(2) by blast
    have "hdr mem' g = hdr mem g" using a assms(1) [OF g] by blast
    with a show "fake (hdr mem g)" by simp }
qed

section \<open>The operations on the free lists\<close>

lemma set_list_simps [simp]:
  "mz_base (set_list z k h c) = mz_base z" "mz_size (set_list z k h c) = mz_size z"
  "mz_type (set_list z k h c) = mz_type z" "mz_stats (set_list z k h c) = mz_stats z"
  by (simp_all add: set_list_def)

lemma blocks_ok_cong:
  assumes "mz_base z' = mz_base z" "mz_size z' = mz_size z"
  shows "block_ok z' k f = block_ok z k f" "blocks_ok z' L = blocks_ok z L"
  using block_in_zone_cong [OF assms] by (simp_all add: blocks_ok_def block_ok_def)

lemma blocks_ok_set_list [simp]: "block_ok (set_list z k h c) = block_ok z" "blocks_ok (set_list z k h c) = blocks_ok z"
  by (intro ext blocks_ok_cong; simp)+

lemma lists_repD:
  assumes "lists_rep z mem L" "k \<le> MAX_ORDER"
  shows "k < length (mz_lists z)" "dll mem k 0 (fl_head (mz_lists z ! k)) (L k)"
    "unat (fl_count (mz_lists z ! k)) = length (L k)"
  using assms by (auto simp: lists_rep_def)

lemma lists_rep_update:
  assumes "lists_rep z mem L" "k \<le> MAX_ORDER" "dll mem' k 0 h xs" "unat c = length xs"
    and "\<And>j g. j \<le> MAX_ORDER \<Longrightarrow> j \<noteq> k \<Longrightarrow> g \<in> set (L j) \<Longrightarrow> hdr mem' g = hdr mem g"
  shows "lists_rep (set_list z k h c) mem' (L(k := xs))"
  unfolding lists_rep_def
proof (intro conjI allI impI)
  show "length (mz_lists (set_list z k h c)) = MAX_ORDER + 1" using assms(1) by (simp add: lists_rep_def)
  fix j assume j: "j \<le> MAX_ORDER"
  note k = lists_repD(1) [OF assms(1,2)]
  show "dll mem' j 0 (fl_head (mz_lists (set_list z k h c) ! j)) ((L(k := xs)) j)"
    using assms(3) lists_repD(2) [OF assms(1) j] dll_cong [of "L j" mem' mem, OF assms(5) [OF j]]
    by (auto simp: set_list_nth [OF k])
  show "unat (fl_count (mz_lists (set_list z k h c) ! j)) = length ((L(k := xs)) j)"
    using assms(4) lists_repD(3) [OF assms(1) j] by (simp add: set_list_nth [OF k])
qed

lemma zone_repD: "zone_rep z mem L \<Longrightarrow> blocks_ok z L" "zone_rep z mem L \<Longrightarrow> lists_rep z mem L"
  by (simp_all add: zone_rep_def)

lemma fl_count_0: "lists_rep z mem L \<Longrightarrow> k \<le> MAX_ORDER \<Longrightarrow> fl_count (mz_lists z ! k) = 0 \<longleftrightarrow> L k = []"
  using lists_repD(3) [of z mem L k] by (metis length_0_conv unat_eq_0)

subsection \<open>Insertion\<close>

definition new_block :: "FreeBlock \<Rightarrow> nat \<Rightarrow> u64 \<Rightarrow> FreeBlock" where
  "new_block b k h = b\<lparr>fb_magic := FREE_BLOCK_MAGIC, fb_order := of_nat k, fb_pad := replicate 7 0, fb_next := h, fb_prev := 0\<rparr>"

definition link_front :: "PhysMem \<Rightarrow> nat \<Rightarrow> u64 \<Rightarrow> u64 \<Rightarrow> PhysMem" where
  "link_front mem k f h =
     (let mem = set_hdr mem f (new_block (hdr mem f) k h)
      in if h \<noteq> 0 then set_hdr mem h ((hdr mem h)\<lparr>fb_prev := f\<rparr>) else mem)"

lemma add_free_block_frame:
  assumes "frame_ok f" "f \<noteq> 0" "block_in_zone z (push_bit FRAME_SHIFT f) k" "\<not> fake (hdr mem f)"
    and "unat (fb_order (hdr mem f)) \<le> MAX_ORDER \<Longrightarrow> fl_head (mz_lists z ! unat (fb_order (hdr mem f))) \<noteq> f"
    and "fl_head (mz_lists z ! k) = h" "h \<noteq> 0 \<Longrightarrow> canary_ok (hdr mem h) k" "h \<noteq> f" "frame_ok h"
  shows "add_free_block z mem k (push_bit FRAME_SHIFT f) =
    Some (True, set_list z k f (fl_count (mz_lists z ! k) + 1), link_front mem k f h)"
proof -
  have a: "push_bit FRAME_SHIFT f \<noteq> 0" "drop_bit FRAME_SHIFT (push_bit FRAME_SHIFT f) = f"
    using assms(1,2) by (simp_all add: frame_addr_0)
  have l: "\<not> (fb_magic (hdr mem f) = FREE_BLOCK_MAGIC \<and> already_linked z (hdr mem f) f)"
    using assms(4,5) by (auto simp: fake_def already_linked_def Let_def)
  have h: "hdr (set_hdr mem f b) h = hdr mem h" for b using assms(1,8,9) by simp
  show ?thesis
    using a l h assms(2,3,6,7)
    by (auto simp: add_free_block_def Let_def link_front_def new_block_def simp flip: hdr_def set_hdr_def)
qed

lemma canary_ok_new [simp]: "k \<le> MAX_ORDER \<Longrightarrow> canary_ok (new_block b k h) k"
  by (simp add: canary_ok_def new_block_def unat_of_nat MAX_ORDER_def)

lemma new_block_links [simp]: "fb_next (new_block b k h) = h" "fb_prev (new_block b k h) = 0"
  by (simp_all add: new_block_def)

lemma dll_link_front:
  assumes "dll mem k 0 h xs" "distinct xs" "f \<notin> set xs" "frame_ok f" "f \<noteq> 0" "k \<le> MAX_ORDER"
  shows "dll (link_front mem k f h) k 0 f (f # xs)"
proof (cases xs)
  case Nil
  then show ?thesis using assms by (simp add: link_front_def)
next
  case (Cons x ys)
  then have x: "h = x" "x \<noteq> 0" "frame_ok x" "x \<noteq> f" using assms by auto
  define mem1 where "mem1 = set_hdr mem f (new_block (hdr mem f) k h)"
  have "dll mem1 k 0 h xs" using assms by (simp add: mem1_def dll_set_hdr)
  moreover have "xs \<noteq> []" using Cons by simp
  ultimately have "dll (set_hdr mem1 h ((hdr mem1 h)\<lparr>fb_prev := f\<rparr>)) k f h xs"
    by (rule dll_set_prev [OF _ assms(2)])
  then have "dll (link_front mem k f h) k f h xs"
    using x(1,2) unfolding link_front_def mem1_def [symmetric] Let_def by simp
  moreover have "hdr (link_front mem k f h) f = new_block (hdr mem f) k h"
    using x assms(4) by (simp add: link_front_def Let_def)
  ultimately show ?thesis using assms by simp
qed

lemma hdr_link_front:
  "frame_ok f \<Longrightarrow> frame_ok h \<Longrightarrow> frame_ok g \<Longrightarrow> g \<noteq> f \<Longrightarrow> (h \<noteq> 0 \<Longrightarrow> g \<noteq> h) \<Longrightarrow> hdr (link_front mem k f h) g = hdr mem g"
  by (auto simp: link_front_def Let_def)

lemma fl_head_cases:
  assumes "zone_rep z mem L" "k \<le> MAX_ORDER"
  shows "fl_head (mz_lists z ! k) = 0 \<and> L k = [] \<or> fl_head (mz_lists z ! k) \<in> set (L k) \<and> fl_head (mz_lists z ! k) \<noteq> 0"
    "frame_ok (fl_head (mz_lists z ! k))"
proof -
  note d = lists_repD(2) [OF zone_repD(2) [OF assms(1)] assms(2)]
  show "fl_head (mz_lists z ! k) = 0 \<and> L k = [] \<or> fl_head (mz_lists z ! k) \<in> set (L k) \<and> fl_head (mz_lists z ! k) \<noteq> 0"
    using d by (cases "L k") auto
  then show "frame_ok (fl_head (mz_lists z ! k))"
    using dll_members [OF d] by (auto simp: frame_ok_def)
qed

lemma not_in_heads: "unat f \<notin> free_set L \<Longrightarrow> f \<notin> heads L"
  using heads_free by blast

lemma add_free_block_spec:
  assumes rep: "zone_rep z mem L" and k: "k \<le> MAX_ORDER" and f: "block_ok z k f"
    and disj: "frames f k \<inter> free_set L = {}" and nf: "\<not> fake (hdr mem f)"
  shows "\<exists>z' mem'. add_free_block z mem k (push_bit FRAME_SHIFT f) = Some (True, z', mem')
    \<and> z' = set_list z k f (fl_count (mz_lists z ! k) + 1) \<and> zone_rep z' mem' (L(k := f # L k))
    \<and> evolves (insert (unat f) (free_set L)) mem L mem' (L(k := f # L k))"
proof -
  define h where "h = fl_head (mz_lists z ! k)"
  note bl = zone_repD(1) [OF rep] and li = zone_repD(2) [OF rep]
  have ff: "frame_ok f" "f \<noteq> 0" "block_in_zone z (push_bit FRAME_SHIFT f) k" using f by (simp_all add: block_ok_def)
  have fresh: "f \<notin> heads L" using disj head_in_frames [of f k] by (intro not_in_heads) blast
  then have notin: "f \<notin> set (L j)" if "j \<le> MAX_ORDER" for j using that by (auto simp: heads_def)
  have h: "frame_ok h" "h = 0 \<or> h \<in> set (L k)" "h \<noteq> 0 \<Longrightarrow> canary_ok (hdr mem h) k" "h \<noteq> f"
    using fl_head_cases [OF rep k] notin [OF k] ff dll_members [OF lists_repD(2) [OF li k]] by (auto simp: h_def)
  have add: "add_free_block z mem k (push_bit FRAME_SHIFT f)
      = Some (True, set_list z k f (fl_count (mz_lists z ! k) + 1), link_front mem k f h)"
  proof (intro add_free_block_frame ff nf h)
    assume o: "unat (fb_order (hdr mem f)) \<le> MAX_ORDER"
    from fl_head_cases(1) [OF rep o] notin [OF o] ff(2)
    show "fl_head (mz_lists z ! unat (fb_order (hdr mem f))) \<noteq> f" by auto
  qed (simp_all add: h_def)
  have cnt: "unat (fl_count (mz_lists z ! k) + 1) = length (f # L k)"
    using lists_repD(3) [OF li k] length_blocks [OF bl k] by (simp add: unat_word_ariths)
  have same: "hdr (link_front mem k f h) g = hdr mem g" if "frame_ok g" "g \<noteq> f" "h \<noteq> 0 \<Longrightarrow> g \<noteq> h" for g
    using hdr_link_front ff(1) h(1) that by blast
  have li': "lists_rep (set_list z k f (fl_count (mz_lists z ! k) + 1)) (link_front mem k f h) (L(k := f # L k))"
  proof (rule lists_rep_update [OF li k _ cnt])
    show "dll (link_front mem k f h) k 0 f (f # L k)"
      using dll_link_front lists_repD(2) [OF li k] blocks_okD(1) [OF bl k] notin [OF k] ff(1,2) k by (simp add: h_def)
    fix j g assume j: "j \<le> MAX_ORDER" "j \<noteq> k" "g \<in> set (L j)"
    then have "g \<noteq> h \<or> h = 0" "frame_ok g" "g \<noteq> f"
      using h(2) head_unique [OF bl j(1) k j(3)] notin blocks_okD(2) [OF bl j(1,3)] by (auto simp: block_ok_def)
    then show "hdr (link_front mem k f h) g = hdr mem g" by (intro same) auto
  qed
  have "evolves (insert (unat f) (free_set L)) mem L (link_front mem k f h) (L(k := f # L k))"
  proof (rule evolvesI)
    fix g assume "frame_ok g" "hdr (link_front mem k f h) g \<noteq> hdr mem g"
    then have "g = f \<or> g = h \<and> h \<noteq> 0" using same by blast
    then have "g = f \<or> g \<in> heads L" using h(2) k by (auto simp: heads_def)
    then show "unat g \<in> insert (unat f) (free_set L) \<and> (g \<in> heads (L(k := f # L k)) \<or> \<not> fake (hdr (link_front mem k f h) g))"
      using heads_free [of g L] by (auto simp: heads_insert [OF k])
  qed (simp add: heads_insert [OF k])
  with add li' blocks_ok_insert [OF bl k f disj] show ?thesis by (auto simp: zone_rep_def)
qed

subsection \<open>Removal of the head\<close>

definition unlink_front :: "PhysMem \<Rightarrow> u64 \<Rightarrow> u64 \<Rightarrow> PhysMem" where
  "unlink_front mem x n =
     (let mem = set_hdr mem x (cleared (hdr mem x))
      in if n \<noteq> 0 then set_hdr mem n ((hdr mem n)\<lparr>fb_prev := 0\<rparr>) else mem)"

lemma hdr_unlink_front:
  "frame_ok x \<Longrightarrow> frame_ok n \<Longrightarrow> frame_ok g \<Longrightarrow> n \<noteq> x \<Longrightarrow>
   hdr (unlink_front mem x n) g =
     (if g = x then cleared (hdr mem x) else if g = n \<and> n \<noteq> 0 then (hdr mem n)\<lparr>fb_prev := 0\<rparr> else hdr mem g)"
  by (simp add: unlink_front_def Let_def)

lemma pop_free_block_frame:
  assumes "fl_head (mz_lists z ! k) = x" "fl_count (mz_lists z ! k) \<noteq> 0" "x \<noteq> 0" "frame_ok x"
    and "block_in_zone z (push_bit FRAME_SHIFT x) k" "canary_ok (hdr mem x) k" "fb_next (hdr mem x) = n"
    and "n \<noteq> 0 \<Longrightarrow> block_in_zone z (push_bit FRAME_SHIFT n) k \<and> canary_ok (hdr mem n) k" "n \<noteq> x" "frame_ok n"
  shows "pop_free_block z mem k =
    Some (Some (push_bit FRAME_SHIFT x), set_list z k n (fl_count (mz_lists z ! k) - 1), unlink_front mem x n)"
proof -
  have h: "hdr (set_hdr mem x b) n = hdr mem n" for b using assms(4,9,10) by simp
  show ?thesis
    using assms(1-3,5-8) h
    by (cases "n = 0") (auto simp: pop_free_block_def Let_def unlink_front_def simp flip: hdr_def set_hdr_def)
qed

lemma dll_unlink_front:
  assumes "dll mem k p x (x # xs)" "distinct (x # xs)"
  shows "dll (unlink_front mem x (fb_next (hdr mem x))) k 0 (fb_next (hdr mem x)) xs"
proof (cases xs)
  case Nil
  then show ?thesis using assms(1) by simp
next
  case (Cons n ys)
  define mem1 where "mem1 = set_hdr mem x (cleared (hdr mem x))"
  have n: "fb_next (hdr mem x) = n" "n \<noteq> 0" using assms(1) Cons by auto
  have "dll mem1 k x n xs" using assms n by (auto simp: mem1_def intro: dll_set_hdr)
  moreover have "xs \<noteq> []" using Cons by simp
  ultimately have "dll (set_hdr mem1 n ((hdr mem1 n)\<lparr>fb_prev := 0\<rparr>)) k 0 n xs"
    using assms(2) by (intro dll_set_prev) auto
  then show ?thesis using n unfolding unlink_front_def mem1_def [symmetric] Let_def by simp
qed

lemma pop_free_block_empty:
  "zone_rep z mem L \<Longrightarrow> k \<le> MAX_ORDER \<Longrightarrow> L k = [] \<Longrightarrow> pop_free_block z mem k = Some (None, z, mem)"
  using fl_count_0 [OF zone_repD(2), of z mem L k] by (simp add: pop_free_block_def)

lemma pop_free_block_spec:
  assumes rep: "zone_rep z mem L" and k: "k \<le> MAX_ORDER" and L: "L k = x # xs"
  shows "\<exists>z' mem'. pop_free_block z mem k = Some (Some (push_bit FRAME_SHIFT x), z', mem')
    \<and> z' = set_list z k (fb_next (hdr mem x)) (fl_count (mz_lists z ! k) - 1) \<and> zone_rep z' mem' (L(k := xs))
    \<and> evolves (free_set L) mem L mem' (L(k := xs))"
proof -
  define n c where "n = fb_next (hdr mem x)" and "c = fl_count (mz_lists z ! k)"
  note bl = zone_repD(1) [OF rep] and li = zone_repD(2) [OF rep]
  note d = lists_repD(2) [OF li k] and di = blocks_okD(1) [OF bl k]
  have mem_ok: "block_in_zone z (push_bit FRAME_SHIFT g) k \<and> canary_ok (hdr mem g) k \<and> frame_ok g" if "g \<in> set (L k)" for g
    using blocks_okD(2) [OF bl k that] dll_members [OF d that] by (simp add: block_ok_def)
  have x: "fl_head (mz_lists z ! k) = x" "x \<noteq> 0" "x \<in> set (L k)" using d L by auto
  have n: "n = 0 \<or> n \<in> set (L k)" "n \<noteq> x" "frame_ok n"
    using dll_neighbours(1,2) [OF d di x(3)] mem_ok by (auto simp: n_def frame_ok_def)
  have c: "c \<noteq> 0" using fl_count_0 [OF li k] L by (simp add: c_def)
  have pop: "pop_free_block z mem k = Some (Some (push_bit FRAME_SHIFT x), set_list z k n (c - 1), unlink_front mem x n)"
    unfolding c_def using x n c mem_ok by (intro pop_free_block_frame) (auto simp: n_def c_def)
  have cnt: "unat (c - 1) = length xs"
    using lists_repD(3) [OF li k] L c by (simp add: c_def unat_minus_one)
  have x_ok: "frame_ok x" using mem_ok [OF x(3)] by simp
  note h = hdr_unlink_front [OF x_ok n(3) _ n(2)]
  have li': "lists_rep (set_list z k n (c - 1)) (unlink_front mem x n) (L(k := xs))"
  proof (rule lists_rep_update [OF li k _ cnt])
    show "dll (unlink_front mem x n) k 0 n xs"
      using dll_unlink_front d di L x(1) by (simp add: n_def)
    fix j g assume j: "j \<le> MAX_ORDER" "j \<noteq> k" "g \<in> set (L j)"
    then have "g \<notin> set (L k)" "frame_ok g"
      using head_unique [OF bl j(1) k j(3)] blocks_okD(2) [OF bl j(1,3)] by (auto simp: block_ok_def)
    then show "hdr (unlink_front mem x n) g = hdr mem g" using h [of g] x(3) n(1) by auto
  qed
  have rem: "L(k := xs) = L(k := remove1 x (L k))" using L by simp
  have hs: "heads (L(k := xs)) = heads L - {x}" using heads_remove [OF bl k x(3)] rem by simp
  have "evolves (free_set L) mem L (unlink_front mem x n) (L(k := xs))"
  proof (rule evolvesI)
    fix g assume g: "frame_ok g" "hdr (unlink_front mem x n) g \<noteq> hdr mem g"
    then have "g = x \<or> g = n \<and> n \<noteq> 0 \<and> g \<noteq> x" using h [of g] by (auto split: if_splits)
    then have "g = x \<or> g \<in> heads L \<and> g \<noteq> x" using n(1) k by (auto simp: heads_def)
    moreover have "x \<in> heads L" using x(3) k by (auto simp: heads_def)
    ultimately show "unat g \<in> free_set L \<and> (g \<in> heads (L(k := xs)) \<or> \<not> fake (hdr (unlink_front mem x n) g))"
      using heads_free [of g L] h [of g] g(1) by (auto simp: hs)
  next
    show "g \<in> heads (L(k := xs)) \<or> \<not> fake (hdr (unlink_front mem x n) g)" if "g \<in> heads L" for g
      using that h [of g] heads_ok [OF bl that] by (auto simp: hs)
  qed
  with pop li' blocks_ok_remove [OF bl k, of x] show ?thesis by (auto simp: zone_rep_def rem n_def c_def)
qed

subsection \<open>Removal of a member\<close>

lemma remove_from_free_list_frame:
  assumes "t \<noteq> 0" "frame_ok t" "block_in_zone z (push_bit FRAME_SHIFT t) k" "fl_count (mz_lists z ! k) \<noteq> 0"
    and "fl_head (mz_lists z ! k) \<noteq> t" "canary_ok (hdr mem t) k" "fb_prev (hdr mem t) = p" "p \<noteq> 0" "frame_ok p" "p \<noteq> t"
    and "canary_ok (hdr mem p) k" "fb_next (hdr mem p) = t" "fb_next (hdr mem t) = n" "frame_ok n" "n \<noteq> p" "n \<noteq> t"
    and "n \<noteq> 0 \<Longrightarrow> canary_ok (hdr mem n) k"
  shows "remove_from_free_list z mem k (push_bit FRAME_SHIFT t) =
    Some (True, set_list z k (fl_head (mz_lists z ! k)) (fl_count (mz_lists z ! k) - 1), unlink mem t)"
proof -
  define mem1 where "mem1 = set_hdr mem p ((hdr mem p)\<lparr>fb_next := n\<rparr>)"
  have h: "hdr mem1 t = hdr mem t" "hdr mem1 n = hdr mem n" using assms by (simp_all add: mem1_def)
  have a: "push_bit FRAME_SHIFT t \<noteq> 0" using assms(1,2) by (simp add: frame_addr_0)
  show ?thesis
  proof (cases "n = 0")
    case True
    then show ?thesis using assms a h
      by (simp add: remove_from_free_list_def Let_def unlink_def flip: hdr_def set_hdr_def mem1_def)
  next
    case False
    then have "canary_ok (hdr mem n) k" by (rule assms(17))
    then show ?thesis using assms(1-16) a h False
      by (simp add: remove_from_free_list_def Let_def unlink_def flip: hdr_def set_hdr_def mem1_def)
  qed
qed

lemma remove_from_free_list_spec:
  assumes rep: "zone_rep z mem L" and k: "k \<le> MAX_ORDER" and t: "t \<in> set (L k)"
  shows "\<exists>z' mem'. remove_from_free_list z mem k (push_bit FRAME_SHIFT t) = Some (True, z', mem')
    \<and> (\<exists>h c. z' = set_list z k h c) \<and> zone_rep z' mem' (L(k := remove1 t (L k)))
    \<and> evolves (free_set L) mem L mem' (L(k := remove1 t (L k)))"
proof -
  note bl = zone_repD(1) [OF rep] and li = zone_repD(2) [OF rep]
  note d = lists_repD(2) [OF li k] and di = blocks_okD(1) [OF bl k]
  have tb: "t \<noteq> 0" "frame_ok t" "block_in_zone z (push_bit FRAME_SHIFT t) k"
    using blocks_okD(2) [OF bl k t] by (simp_all add: block_ok_def)
  have c: "fl_count (mz_lists z ! k) \<noteq> 0" using fl_count_0 [OF li k] t by auto
  show ?thesis
  proof (cases "fl_head (mz_lists z ! k) = t")
    case True
    then obtain xs where L: "L k = t # xs" using d t by (cases "L k") auto
    from pop_free_block_spec [OF rep k L] obtain z' mem' where
      p: "pop_free_block z mem k = Some (Some (push_bit FRAME_SHIFT t), z', mem')"
        "z' = set_list z k (fb_next (hdr mem t)) (fl_count (mz_lists z ! k) - 1)" "zone_rep z' mem' (L(k := xs))"
        "evolves (free_set L) mem L mem' (L(k := xs))" by blast
    have "remove_from_free_list z mem k (push_bit FRAME_SHIFT t) = Some (True, z', mem')"
      using tb c True p(1) by (simp add: remove_from_free_list_def Let_def frame_addr_0)
    then show ?thesis using p(2-4) L by auto
  next
    case False
    note mo = dll_members [OF d]
    define p n where "p = fb_prev (hdr mem t)" and "n = fb_next (hdr mem t)"
    have nb: "n = 0 \<or> n \<in> set (L k)" "n \<noteq> t" "p \<in> set (L k)" "p \<noteq> t" "fb_next (hdr mem p) = t" "n \<noteq> p"
      using dll_neighbours [OF d di t] False by (auto simp: p_def n_def)
    then have fo: "frame_ok n" "frame_ok p" "p \<noteq> 0" using mo by (auto simp: frame_ok_def)
    have r: "remove_from_free_list z mem k (push_bit FRAME_SHIFT t) =
        Some (True, set_list z k (fl_head (mz_lists z ! k)) (fl_count (mz_lists z ! k) - 1), unlink mem t)"
      using mo [OF t] mo [OF nb(3)] mo [of n] nb
      by (intro remove_from_free_list_frame [where p = p and n = n] tb c False fo) (auto simp: p_def n_def)
    have h: "hdr (unlink mem t) g = (if g = t then cleared (hdr mem t) else if g = p then (hdr mem g)\<lparr>fb_next := n\<rparr>
        else if g = n \<and> g \<noteq> 0 then (hdr mem g)\<lparr>fb_prev := p\<rparr> else hdr mem g)" if "frame_ok g" for g
      unfolding p_def n_def using that nb fo tb(2) by (intro hdr_unlink) (auto simp: p_def n_def)
    have "length (remove1 t (L k)) = length (L k) - 1" using t by (simp add: length_remove1)
    then have cnt: "unat (fl_count (mz_lists z ! k) - 1) = length (remove1 t (L k))"
      using lists_repD(3) [OF li k] c by (simp add: unat_minus_one)
    have li': "lists_rep (set_list z k (fl_head (mz_lists z ! k)) (fl_count (mz_lists z ! k) - 1)) (unlink mem t)
        (L(k := remove1 t (L k)))"
    proof (rule lists_rep_update [OF li k _ cnt])
      show "dll (unlink mem t) k 0 (fl_head (mz_lists z ! k)) (remove1 t (L k))"
        using dll_unlink [OF d di t] False by simp
      fix j g assume j: "j \<le> MAX_ORDER" "j \<noteq> k" "g \<in> set (L j)"
      then have "g \<notin> set (L k)" "frame_ok g"
        using head_unique [OF bl j(1) k j(3)] blocks_okD(2) [OF bl j(1,3)] by (auto simp: block_ok_def)
      then show "hdr (unlink mem t) g = hdr mem g" using h [of g] t nb by auto
    qed
    note hs = heads_remove [OF bl k t]
    have "evolves (free_set L) mem L (unlink mem t) (L(k := remove1 t (L k)))"
    proof (rule evolvesI)
      fix g assume g: "frame_ok g" "hdr (unlink mem t) g \<noteq> hdr mem g"
      then have "g = t \<or> g \<in> set (L k) \<and> g \<noteq> t" using h [of g] nb by (auto split: if_splits)
      then have "g \<in> heads L \<and> (g = t \<or> g \<noteq> t)" using t k by (auto simp: heads_def)
      then show "unat g \<in> free_set L \<and> (g \<in> heads (L(k := remove1 t (L k))) \<or> \<not> fake (hdr (unlink mem t) g))"
        using heads_free [of g L] h [OF g(1)] by (auto simp: hs)
    next
      show "g \<in> heads (L(k := remove1 t (L k))) \<or> \<not> fake (hdr (unlink mem t) g)" if "g \<in> heads L" for g
        using that h [of g] heads_ok [OF bl that] by (auto simp: hs)
    qed
    with r li' blocks_ok_remove [OF bl k, of t] show ?thesis by (auto simp: zone_rep_def)
  qed
qed

text \<open>A frame that is no free block of the order, and has no misleading header, is left alone.\<close>

lemma remove_from_free_list_absent:
  assumes rep: "zone_rep z mem L" and k: "k \<le> MAX_ORDER" and t: "t \<notin> set (L k)" "frame_ok t"
    and clean: "t \<in> heads L \<or> \<not> fake (hdr mem t)"
  shows "remove_from_free_list z mem k (push_bit FRAME_SHIFT t) = Some (False, z, mem)"
proof -
  note bl = zone_repD(1) [OF rep] and li = zone_repD(2) [OF rep]
  have hd: "t \<noteq> 0 \<Longrightarrow> fl_head (mz_lists z ! k) \<noteq> t" using fl_head_cases(1) [OF rep k] t(1) by auto
  have "\<not> canary_ok (hdr mem t) k \<or> fb_prev (hdr mem t) = 0"
    using clean
  proof
    assume "t \<in> heads L"
    then obtain j where j: "j \<le> MAX_ORDER" "t \<in> set (L j)" by (rule headsE)
    then have "canary_ok (hdr mem t) j" "j \<noteq> k" using dll_members [OF lists_repD(2) [OF li j(1)] j(2)] t(1) by auto
    then show ?thesis by (auto simp: canary_ok_def)
  qed (use k in \<open>auto simp: fake_def canary_ok_def\<close>)
  then show ?thesis using hd t(2)
    by (auto simp: remove_from_free_list_def Let_def frame_addr_0 simp flip: hdr_def)
qed

end
