(* ===== verification/Buddy_Blocks.thy ===== *)
theory Buddy_Blocks
  imports Buddy_Zone
begin

text \<open>
  Splitting and coalescing.  \<open>alloc_from_zone\<close> takes the first block of the smallest sufficient order
  and returns its lower end, the upper halves going back to the lists; \<open>free_to_zone\<close> joins a block
  with its buddies as long as these are free.  Neither ever leaves two free buddies, and lists without
  free buddies are determined by the set of free frames.
\<close>

section \<open>Buddies\<close>

definition buddy :: "u64 \<Rightarrow> nat \<Rightarrow> u64" where
  "buddy f k = f XOR push_bit k 1"

lemma block_bounds:
  assumes "block_ok z k f" "k \<le> MAX_ORDER"
  shows "unat f + 2 ^ k \<le> 2 ^ 52"
proof -
  have "frame_ok f" "block_in_zone z (push_bit FRAME_SHIFT f) k" using assms(1) by (simp_all add: block_ok_def)
  then have "(unat f + 2 ^ k) * 4096 < 2 ^ 64" using assms(2) by (auto simp: block_in_zone_iff)
  then show ?thesis by simp
qed

lemma upper_half:
  assumes "unat f + 2 ^ Suc k \<le> 2 ^ 52" "k < MAX_ORDER"
  shows "unat (f + push_bit k 1) = unat f + 2 ^ k" "frame_ok (f + push_bit k 1)"
    and "push_bit FRAME_SHIFT f + push_bit FRAME_SHIFT (push_bit k 1) = push_bit FRAME_SHIFT (f + push_bit k 1)"
    and "frames f (Suc k) = frames f k \<union> frames (f + push_bit k 1) k" "frames f k \<inter> frames (f + push_bit k 1) k = {}"
proof -
  have "unat (push_bit k 1 :: u64) = 2 ^ k" using assms(2) by (simp add: unat_pow2 MAX_ORDER_def)
  then show u: "unat (f + push_bit k 1) = unat f + 2 ^ k"
    using assms(1) by (subst unat_add_no_overflow) (simp_all del: push_bit_of_1)
  show "frame_ok (f + push_bit k 1)" unfolding frame_ok_def u using assms(1) zero_less_power [of "2 :: nat" k] unfolding power_Suc by linarith
  show "push_bit FRAME_SHIFT f + push_bit FRAME_SHIFT (push_bit k 1) = push_bit FRAME_SHIFT (f + push_bit k 1)"
    by (simp add: push_bit_add)
  show "frames f (Suc k) = frames f k \<union> frames (f + push_bit k 1) k" "frames f k \<inter> frames (f + push_bit k 1) k = {}"
    unfolding frames_def u by auto
qed

lemma buddy_flip: "buddy f k = flip_bit k f"
  by (simp add: buddy_def flip_bit_eq_xor)

lemma bit_unat: "bit (f :: u64) k \<longleftrightarrow> odd (unat f div 2 ^ k)"
  using bit_unsigned_iff [of f k, where 'a = nat] by (simp add: bit_iff_odd)

lemma aligned_below:
  assumes "2 ^ j dvd n" "n < 2 ^ m" "j \<le> m"
  shows "n + 2 ^ j \<le> (2 :: nat) ^ m"
proof -
  obtain q where q: "n = 2 ^ j * q" using assms(1) by (auto simp: dvd_def)
  have m: "(2 :: nat) ^ m = 2 ^ j * 2 ^ (m - j)" using assms(3) by (simp flip: power_add)
  then have "q < 2 ^ (m - j)" using assms(2) q by simp
  then have "2 ^ j * (q + 1) \<le> 2 ^ j * (2 :: nat) ^ (m - j)" by (intro mult_le_mono2) simp
  then show ?thesis using q m by simp
qed

lemma buddy_upper:
  assumes "frame_ok f" "2 ^ Suc k dvd unat f" "k < MAX_ORDER"
  shows "buddy f k = f + push_bit k 1" "unat f + 2 ^ Suc k \<le> 2 ^ 52"
proof -
  have "even (unat f div 2 ^ k)" using assms(2) by (auto simp: dvd_def)
  then have "\<not> bit f k" by (simp add: bit_unat)
  then show "buddy f k = f + push_bit k 1"
    using assms(3) by (simp add: buddy_flip flip_bit_eq_if set_bit_eq)
  show "unat f + 2 ^ Suc k \<le> 2 ^ 52"
    using aligned_below [OF assms(2), of 52] assms(1,3) by (simp add: frame_ok_def MAX_ORDER_def)
qed

lemma buddy_buddy [simp]: "buddy (buddy f k) k = f"
  by (simp add: buddy_def xor.assoc)

lemma buddy_cases:
  assumes f: "frame_ok f" "2 ^ k dvd unat f" and k: "k < MAX_ORDER"
  obtains (lower) "2 ^ Suc k dvd unat f" "unat (buddy f k) = unat f + 2 ^ k" "frame_ok (buddy f k)" "buddy f k = f + push_bit k 1"
  | (upper) "2 ^ Suc k dvd unat (buddy f k)" "unat f = unat (buddy f k) + 2 ^ k" "frame_ok (buddy f k)" "f = buddy f k + push_bit k 1"
proof (cases "bit f k")
  case False
  obtain q where q: "unat f = 2 ^ k * q" using f(2) by (auto simp: dvd_def)
  have "even q" using False q by (simp add: bit_unat)
  then have "2 ^ Suc k dvd unat f" using q by (auto simp: dvd_def)
  then show ?thesis using buddy_upper [OF f(1) _ k] upper_half(1,2) [OF _ k, of f] lower by simp
next
  case True
  obtain q where q: "unat f = 2 ^ k * q" using f(2) by (auto simp: dvd_def)
  have odd: "odd q" using True q by (simp add: bit_unat)
  have pk: "unat (2 ^ k :: u64) = 2 ^ k" using k by (simp add: unat_pow2 MAX_ORDER_def)
  have "2 ^ k \<le> f" using odd q pk by (cases q) (simp_all add: word_le_nat_alt)
  then have u: "unat (f - 2 ^ k) = 2 ^ k * (q - 1)" using pk q by (simp add: unat_sub right_diff_distrib')
  have b: "buddy f k = f - 2 ^ k"
    using True by (simp add: buddy_flip flip_bit_eq_if unset_bit_eq)
  have "unat f = unat (buddy f k) + 2 ^ k" using odd q u b by (cases q) simp_all
  moreover from odd obtain r where "q = 2 * r + 1" by (rule oddE)
  then have "2 ^ Suc k dvd unat (buddy f k)" using u b by simp
  moreover have "frame_ok (buddy f k)" using f(1) calculation(1) by (simp add: frame_ok_def)
  ultimately show ?thesis using upper b by simp
qed

lemma block_okD:
  assumes "block_ok z k f"
  shows "frame_ok f" "f \<noteq> 0" "2 ^ k dvd unat f" "block_in_zone z (push_bit FRAME_SHIFT f) k"
  using assms by (simp_all add: block_ok_def)

text \<open>The two halves of a block.\<close>

lemma halves_in_zone:
  fixes a p b e :: nat
  shows "(B \<and> b \<le> a * 4096 \<and> (a + 2 * p) * 4096 \<le> e) \<longleftrightarrow>
    (B \<and> b \<le> a * 4096 \<and> (a + p) * 4096 \<le> e) \<and> (B \<and> b \<le> (a + p) * 4096 \<and> (a + p + p) * 4096 \<le> e)"
  by auto

lemma block_ok_halves:
  assumes "frame_ok f" "2 ^ Suc k dvd unat f" "k < MAX_ORDER" "f \<noteq> 0"
  shows "block_ok z (Suc k) f \<longleftrightarrow> block_ok z k f \<and> block_ok z k (f + push_bit k 1)"
proof -
  note u = upper_half [OF buddy_upper(2) [OF assms(1-3)] assms(3)]
  have "2 ^ k dvd unat f" using assms(2) by (auto simp: dvd_def)
  moreover have "f + push_bit k 1 \<noteq> 0"
  proof
    assume "f + push_bit k 1 = 0"
    with u(1) have "unat f + 2 ^ k = 0" by simp
    then show False by simp
  qed
  moreover have "2 ^ k dvd unat (f + push_bit k 1)" unfolding u(1) using calculation(1) by simp
  moreover have "block_in_zone z (push_bit FRAME_SHIFT f) (Suc k) \<longleftrightarrow>
      block_in_zone z (push_bit FRAME_SHIFT f) k \<and> block_in_zone z (push_bit FRAME_SHIFT (f + push_bit k 1)) k"
    unfolding block_in_zone_iff [OF assms(1) less_imp_le [OF assms(3)]] block_in_zone_iff [OF assms(1) Suc_leI [OF assms(3)]]
      block_in_zone_iff [OF u(2) less_imp_le [OF assms(3)]] u(1) power_Suc by (rule halves_in_zone)
  ultimately show ?thesis using assms u(2) by (simp add: block_ok_def del: push_bit_of_1)
qed

lemma join_buddies:
  assumes f: "block_ok z k f" and b: "block_ok z k (buddy f k)" and k: "k < MAX_ORDER"
  shows "block_ok z (Suc k) (min f (buddy f k))" "frames (min f (buddy f k)) (Suc k) = frames f k \<union> frames (buddy f k) k"
    and "push_bit FRAME_SHIFT (min f (buddy f k)) = min (push_bit FRAME_SHIFT f) (push_bit FRAME_SHIFT (buddy f k))"
proof -
  let ?m = "min f (buddy f k)"
  have addr: "push_bit FRAME_SHIFT g \<le> push_bit FRAME_SHIFT h \<longleftrightarrow> g \<le> h" if "frame_ok g" "frame_ok h" for g h
    using that by (simp add: word_le_nat_alt unat_frame_addr)
  show "push_bit FRAME_SHIFT ?m = min (push_bit FRAME_SHIFT f) (push_bit FRAME_SHIFT (buddy f k))"
    using addr block_okD(1) [OF f] block_okD(1) [OF b] by (simp add: min_def)
  have half: "block_ok z (Suc k) g \<and> frames g (Suc k) = frames g k \<union> frames (g + push_bit k 1) k"
    if "2 ^ Suc k dvd unat g" "block_ok z k g" "block_ok z k (g + push_bit k 1)" for g
  proof -
    note g = block_okD(1,2) [OF that(2)]
    from block_ok_halves [OF g(1) that(1) k g(2)] upper_half(4) [OF buddy_upper(2) [OF g(1) that(1) k] k] that(2,3)
    show ?thesis by blast
  qed
  have "block_ok z (Suc k) ?m \<and> frames ?m (Suc k) = frames f k \<union> frames (buddy f k) k"
    using block_okD(1,3) [OF f] k
  proof (cases rule: buddy_cases)
    case lower
    then have "?m = f" by (simp add: min_def word_le_nat_alt)
    with half [OF lower(1) f] b lower(4) show ?thesis by simp
  next
    case upper
    then have "?m = buddy f k" by (simp add: min_def word_le_nat_alt)
    with half [OF upper(1) b] f upper(4) show ?thesis by (metis Un_commute)
  qed
  then show "block_ok z (Suc k) ?m" "frames ?m (Suc k) = frames f k \<union> frames (buddy f k) k" by auto
qed

text \<open>Two aligned blocks are nested or disjoint.\<close>

lemma frames_nested:
  assumes "2 ^ j dvd unat f" "2 ^ k dvd unat g" "j \<le> k" "frames f j \<inter> frames g k \<noteq> {}"
  shows "frames f j \<subseteq> frames g k"
proof -
  obtain p q where p: "unat f = 2 ^ j * p" and q: "unat g = 2 ^ k * q" using assms(1,2) by (auto simp: dvd_def)
  have k: "(2 :: nat) ^ k = 2 ^ j * 2 ^ (k - j)" using assms(3) by (simp flip: power_add)
  have "2 ^ k * q < 2 ^ j * (p + 1)" "2 ^ j * p < 2 ^ k * (q + 1)" using assms(4) p q by (auto simp: frames_def)
  then have "2 ^ j * (2 ^ (k - j) * q) < 2 ^ j * (p + 1)" "2 ^ j * p < 2 ^ j * (2 ^ (k - j) * (q + 1))"
    by (simp_all only: k mult.assoc)
  then have "2 ^ (k - j) * q < p + 1" "p < 2 ^ (k - j) * (q + 1)" by (simp_all only: mult_less_cancel1)
  then have "2 ^ (k - j) * q \<le> p" "p + 1 \<le> 2 ^ (k - j) * (q + 1)" by simp_all
  then have "2 ^ j * (2 ^ (k - j) * q) \<le> 2 ^ j * p" "2 ^ j * (p + 1) \<le> 2 ^ j * (2 ^ (k - j) * (q + 1))"
    by (intro mult_le_mono2; simp)+
  then show ?thesis using p q k by (auto simp: frames_def algebra_simps)
qed

section \<open>Splitting\<close>

definition same_extent :: "MemoryZone \<Rightarrow> MemoryZone \<Rightarrow> bool" where
  "same_extent z' z \<longleftrightarrow> mz_base z' = mz_base z \<and> mz_size z' = mz_size z \<and> mz_type z' = mz_type z"

lemma same_extent_simps [simp]:
  "same_extent z z" "same_extent (set_list z k h c) z' = same_extent z z'" "same_extent (add_free_pages z k d) z' = same_extent z z'"
  by (simp_all add: same_extent_def add_free_pages_def)

lemma same_extent_trans: "same_extent a b \<Longrightarrow> same_extent b c \<Longrightarrow> same_extent a c"
  by (simp add: same_extent_def)

lemma same_extent_ok:
  assumes "same_extent z' z"
  shows "block_ok z' = block_ok z" "blocks_ok z' = blocks_ok z"
proof -
  have e: "mz_base z' = mz_base z" "mz_size z' = mz_size z" using assms by (simp_all add: same_extent_def)
  show "block_ok z' = block_ok z" "blocks_ok z' = blocks_ok z" by (intro ext blocks_ok_cong e)+
qed

lemma zone_rep_add_free_pages [simp]: "zone_rep (add_free_pages z k d) mem L = zone_rep z mem L"
  by (simp add: zone_rep_def lists_rep_def same_extent_ok(2) [of "add_free_pages z k d" z])
    (simp add: add_free_pages_def)

definition split_lists :: "blocks \<Rightarrow> u64 \<Rightarrow> nat \<Rightarrow> nat \<Rightarrow> blocks" where
  "split_lists L x i c = (\<lambda>j. if i \<le> j \<and> j < c then (x + push_bit j 1) # L j else L j)"

lemma split_lists_same [simp]: "split_lists L x c c = L"
  by (rule ext) (simp add: split_lists_def)

lemma split_lists_Suc: "i \<le> c \<Longrightarrow> split_lists L x i (Suc c) = split_lists (L(c := (x + push_bit c 1) # L c)) x i c"
  by (auto simp: split_lists_def fun_eq_iff)

lemma split_step:
  assumes rep: "zone_rep z mem L" and x: "block_ok z (Suc c) x" and c: "c < MAX_ORDER"
    and disj: "frames x (Suc c) \<inter> free_set L = {}"
    and clean: "\<And>g. frame_ok g \<Longrightarrow> unat g \<in> frames x (Suc c) \<Longrightarrow> \<not> fake (hdr mem g)"
    and L1: "L1 = L(c := (x + push_bit c 1) # L c)"
  obtains z1 mem1 where
    "add_free_block z mem c (push_bit FRAME_SHIFT x + push_bit FRAME_SHIFT (push_bit c 1)) = Some (True, z1, mem1)"
    "zone_rep z1 mem1 L1" "same_extent z1 z" "block_ok z1 c x" "free_set L1 = free_set L \<union> (frames x (Suc c) - frames x c)"
    "frames x c \<inter> free_set L1 = {}" "evolves (free_set L \<union> frames x (Suc c)) mem L mem1 L1"
    "\<And>g. frame_ok g \<Longrightarrow> unat g \<in> frames x c \<Longrightarrow> \<not> fake (hdr mem1 g)"
proof -
  let ?b = "x + push_bit c 1"
  note xx = block_okD [OF x]
  note up = upper_half [OF buddy_upper(2) [OF xx(1,3) c] c]
  have c': "c \<le> MAX_ORDER" using c by simp
  have halves: "block_ok z c x" "block_ok z c ?b" using block_ok_halves [OF xx(1,3) c xx(2), of z] x by auto
  have b: "unat ?b \<in> frames x (Suc c)" "unat ?b \<notin> frames x c" using up(4,5) head_in_frames [of ?b c] by blast+
  have "frames ?b c \<inter> free_set L = {}" using disj up(4) by blast
  from add_free_block_spec [OF rep c' halves(2) this clean [OF up(2) b(1)], folded L1] obtain z1 mem1 where add:
    "add_free_block z mem c (push_bit FRAME_SHIFT ?b) = Some (True, z1, mem1)"
    "z1 = set_list z c ?b (fl_count (mz_lists z ! c) + 1)" "zone_rep z1 mem1 L1" "evolves (insert (unat ?b) (free_set L)) mem L mem1 L1"
    by blast
  have ext: "same_extent z1 z" unfolding add(2) by simp
  have fs: "free_set L1 = frames ?b c \<union> free_set L" unfolding L1 by (rule free_set_insert [OF c'])
  have "\<not> fake (hdr mem1 g)" if "frame_ok g" "unat g \<in> frames x c" for g
  proof -
    have "unat g \<in> frames x (Suc c)" using that(2) up(4) by simp
    then have "unat g \<notin> free_set L" using disj by blast
    moreover have "unat g \<noteq> unat ?b" using that(2) b(2) by metis
    ultimately have "unat g \<notin> insert (unat ?b) (free_set L)" by simp
    then have "hdr mem1 g = hdr mem g" by (rule evolvesD(1) [OF add(4) that(1)])
    with clean [OF that(1)] that(2) up(4) show ?thesis by simp
  qed
  moreover have "evolves (free_set L \<union> frames x (Suc c)) mem L mem1 L1"
    using b(1) by (intro evolves_trans [OF add(4) evolves_refl [of "{}"]]) auto
  moreover have "frames x c \<inter> free_set L1 = {}" using fs disj up(4,5) by blast
  moreover have "free_set L1 = free_set L \<union> (frames x (Suc c) - frames x c)" using fs up(4,5) by blast
  moreover have "block_ok z1 c x" using halves(1) same_extent_ok(1) [OF ext] by simp
  ultimately show ?thesis using that add(1,3) ext unfolding up(3) by blast
qed

lemma frames_mono: "i \<le> c \<Longrightarrow> frames x i \<subseteq> frames x c"
  using power_increasing [of i c "2 :: nat"] by (auto simp: frames_def)

lemma split_block_spec:
  assumes "zone_rep z mem L" "block_ok z c x" "c \<le> MAX_ORDER" "i \<le> c" "frames x c \<inter> free_set L = {}"
    and "\<And>g. frame_ok g \<Longrightarrow> unat g \<in> frames x c \<Longrightarrow> \<not> fake (hdr mem g)"
  shows "\<exists>z' mem'. split_block z mem (push_bit FRAME_SHIFT x) (rev [i..<c]) = Some (z', mem')
    \<and> zone_rep z' mem' (split_lists L x i c) \<and> same_extent z' z
    \<and> evolves (free_set L \<union> frames x c) mem L mem' (split_lists L x i c)
    \<and> free_set (split_lists L x i c) = free_set L \<union> (frames x c - frames x i)"
  using assms
proof (induction c arbitrary: z mem L)
  case (Suc c)
  show ?case
  proof (cases "i = Suc c")
    case False
    then have i: "i \<le> c" "c \<le> MAX_ORDER" "c < MAX_ORDER" using Suc.prems(3,4) by simp_all
    define L1 where "L1 = L(c := (x + push_bit c 1) # L c)"
    obtain z1 mem1 where st:
      "add_free_block z mem c (push_bit FRAME_SHIFT x + push_bit FRAME_SHIFT (push_bit c 1)) = Some (True, z1, mem1)"
      "zone_rep z1 mem1 L1" "same_extent z1 z" "block_ok z1 c x" "free_set L1 = free_set L \<union> (frames x (Suc c) - frames x c)"
      "frames x c \<inter> free_set L1 = {}" "evolves (free_set L \<union> frames x (Suc c)) mem L mem1 L1"
      "\<And>g. frame_ok g \<Longrightarrow> unat g \<in> frames x c \<Longrightarrow> \<not> fake (hdr mem1 g)"
      by (rule split_step [OF Suc.prems(1,2) i(3) Suc.prems(5,6) L1_def]) blast+
    have z1: "zone_rep (add_free_pages z1 c 1) mem1 L1" "block_ok (add_free_pages z1 c 1) c x"
      using st(2,4) same_extent_ok(1) [of "add_free_pages z1 c 1" z1] by simp_all
    from Suc.IH [OF z1 i(2,1) st(6,8)] obtain z' mem' where r:
      "split_block (add_free_pages z1 c 1) mem1 (push_bit FRAME_SHIFT x) (rev [i..<c]) = Some (z', mem')"
      "zone_rep z' mem' (split_lists L1 x i c)" "same_extent z' (add_free_pages z1 c 1)"
      "evolves (free_set L1 \<union> frames x c) mem1 L1 mem' (split_lists L1 x i c)"
      "free_set (split_lists L1 x i c) = free_set L1 \<union> (frames x c - frames x i)" by blast
    have sl: "split_lists L x i (Suc c) = split_lists L1 x i c" using split_lists_Suc [OF i(1)] by (simp add: L1_def)
    note fm = frames_mono [OF i(1), of x] frames_mono [of c "Suc c" x]
    have "free_set (split_lists L1 x i c) = free_set L \<union> (frames x (Suc c) - frames x i)"
      unfolding r(5) st(5) using fm by auto
    moreover have "evolves (free_set L \<union> frames x (Suc c)) mem L mem' (split_lists L1 x i c)"
      using fm st(5) by (intro evolves_trans [OF st(7) r(4)]) auto
    moreover have "split_block z mem (push_bit FRAME_SHIFT x) (rev [i..<Suc c]) = Some (z', mem')"
      using i(1) st(1) r(1) by (simp del: push_bit_of_1)
    moreover have "same_extent z' z" using same_extent_trans [OF r(3), of z] st(3) by simp
    ultimately show ?thesis using r(2) sl by simp
  qed (use Suc.prems in simp)
qed simp

section \<open>Allocation in a zone\<close>

text \<open>
  The frames of a zone whose headers the allocator may have to trust: those the page database calls
  free, or all of them as long as there is no database.
\<close>

definition zone_set :: "MemoryZone \<Rightarrow> nat set" where
  "zone_set z = {n. unat (mz_base z) \<le> n * 4096 \<and> n * 4096 < unat (mz_base z) + unat (mz_size z)}"

definition trusted :: "PageDatabase option \<Rightarrow> MemoryZone \<Rightarrow> nat set" where
  "trusted db z = (case db of Some d \<Rightarrow> db_free d | None \<Rightarrow> UNIV) \<inter> zone_set z"

lemma trusted_same_extent: "same_extent z' z \<Longrightarrow> trusted db z' = trusted db z"
  by (simp add: same_extent_def trusted_def zone_set_def)

lemma block_in_zone_set:
  assumes "block_ok z k f" "k \<le> MAX_ORDER"
  shows "frames f k \<subseteq> zone_set z"
proof -
  note b = block_in_zone_iff [OF block_okD(1) [OF assms(1)] assms(2), THEN iffD1, OF block_okD(4) [OF assms(1)]]
  show ?thesis
  proof
    fix n assume "n \<in> frames f k"
    then have "unat f \<le> n" "n + 1 \<le> unat f + 2 ^ k" by (auto simp: frames_def)
    then have "unat f * 4096 \<le> n * 4096" "(n + 1) * 4096 \<le> (unat f + 2 ^ k) * 4096" by (intro mult_le_mono1; simp)+
    then show "n \<in> zone_set z" using b unfolding zone_set_def by simp
  qed
qed

definition clean :: "nat set \<Rightarrow> PhysMem \<Rightarrow> blocks \<Rightarrow> bool" where
  "clean C mem L \<longleftrightarrow> (\<forall>g. frame_ok g \<and> unat g \<in> C \<and> g \<notin> heads L \<longrightarrow> \<not> fake (hdr mem g))"

lemma cleanD: "clean C mem L \<Longrightarrow> frame_ok g \<Longrightarrow> unat g \<in> C \<Longrightarrow> g \<notin> heads L \<Longrightarrow> \<not> fake (hdr mem g)"
  by (simp add: clean_def)

lemma evolves_clean: "evolves S mem L mem' L' \<Longrightarrow> clean C mem L \<Longrightarrow> clean C mem' L'"
  unfolding clean_def by (meson evolvesD(2))

lemma pfn_in_block:
  assumes "frame_ok x" "unat x + i < 2 ^ 52"
  shows "pfn (push_bit FRAME_SHIFT x + of_nat i * FRAME_SIZE) = unat x + i"
proof -
  have "unat (of_nat i * FRAME_SIZE :: u64) = i * 4096"
    using assms(2) by (simp add: FRAME_SIZE_def unat_word_ariths unat_of_nat)
  then have "unat (push_bit FRAME_SHIFT x + of_nat i * FRAME_SIZE) = (unat x + i) * 4096"
    using assms by (subst unat_add_no_overflow) (simp_all add: unat_frame_addr)
  then show ?thesis by (simp add: drop_bit_eq_div unat_div_distrib)
qed

lemma frames_free_iff:
  assumes "frame_ok x" "unat x + 2 ^ k \<le> 2 ^ 52"
  shows "frames_free d (push_bit FRAME_SHIFT x) k \<longleftrightarrow> frames x k \<subseteq> db_free d"
proof -
  have p: "pfn (push_bit FRAME_SHIFT x + of_nat i * FRAME_SIZE) = unat x + i" if "i < 2 ^ k" for i
    using pfn_in_block [OF assms(1), of i] that assms(2) by simp
  have "frames_free d (push_bit FRAME_SHIFT x) k \<longleftrightarrow> (\<forall>i<2 ^ k. unat x + i \<in> db_free d)"
  proof -
    have "(case frame_at d n of Some pf \<Rightarrow> pf_is_free pf | None \<Rightarrow> False) \<longleftrightarrow> n \<in> db_free d" for n
      by (auto simp: db_free_def split: option.splits)
    then show ?thesis by (auto simp: frames_free_def list_all_iff get_frame_at p)
  qed
  also have "\<dots> \<longleftrightarrow> frames x k \<subseteq> db_free d"
  proof
    assume a: "\<forall>i<2 ^ k. unat x + i \<in> db_free d"
    show "frames x k \<subseteq> db_free d"
    proof
      fix n assume "n \<in> frames x k"
      then show "n \<in> db_free d" using a [rule_format, of "n - unat x"] by (auto simp: frames_def)
    qed
  qed (auto simp: frames_def)
  finally show ?thesis .
qed

lemma alloc_hit:
  assumes rep: "zone_rep z mem L" and sync: "free_set L \<subseteq> trusted db z" and clean: "clean (trusted db z) mem L"
    and c: "i \<le> c" "c \<le> MAX_ORDER" and L: "L c = x # xs"
  shows "\<exists>z' mem'. alloc_from_zone db i c z mem = Some (Some (push_bit FRAME_SHIFT x), z', mem')
    \<and> zone_rep z' mem' (split_lists (L(c := xs)) x i c) \<and> same_extent z' z
    \<and> evolves (free_set L) mem L mem' (split_lists (L(c := xs)) x i c)
    \<and> free_set (split_lists (L(c := xs)) x i c) = free_set L - frames x i"
proof -
  note bl = zone_repD(1) [OF rep] and li = zone_repD(2) [OF rep]
  have xL: "x \<in> set (L c)" using L by simp
  have x: "block_ok z c x" "frames x c \<subseteq> free_set L"
    using blocks_okD(2) [OF bl c(2) xL] xL c(2) by (auto intro: in_free_setI)
  from pop_free_block_spec [OF rep c(2) L] obtain z1 mem1 where pop:
    "pop_free_block z mem c = Some (Some (push_bit FRAME_SHIFT x), z1, mem1)" "zone_rep z1 mem1 (L(c := xs))"
    "same_extent z1 z" "evolves (free_set L) mem L mem1 (L(c := xs))" by auto
  have "L(c := xs) = L(c := remove1 x (L c))" using L by simp
  then have fs: "free_set (L(c := xs)) = free_set L - frames x c" and hs: "heads (L(c := xs)) = heads L - {x}"
    using free_set_remove [OF bl c(2) xL] heads_remove [OF bl c(2) xL] by simp_all
  have db: "(case db of Some db \<Rightarrow> \<not> frames_free db (push_bit FRAME_SHIFT x) c | None \<Rightarrow> False) = False"
    using frames_free_iff [OF block_okD(1) [OF x(1)] block_bounds [OF x(1) c(2)]] x(2) sync
    by (auto simp: trusted_def split: option.splits)
  have nf: "\<not> fake (hdr mem1 g)" if g: "frame_ok g" "unat g \<in> frames x c" for g
  proof (rule cleanD [OF evolves_clean [OF pop(4) clean] g(1)])
    show "unat g \<in> trusted db z" using g(2) x(2) sync by blast
    show "g \<notin> heads (L(c := xs))" using g(2) fs by (intro not_in_heads) simp
  qed
  have "block_ok z1 c x" "frames x c \<inter> free_set (L(c := xs)) = {}" using x(1) same_extent_ok(1) [OF pop(3)] fs by auto
  from split_block_spec [OF pop(2) this(1) c(2,1) this(2) nf] obtain z2 mem2 where sp:
    "split_block z1 mem1 (push_bit FRAME_SHIFT x) (rev [i..<c]) = Some (z2, mem2)"
    "zone_rep z2 mem2 (split_lists (L(c := xs)) x i c)" "same_extent z2 z1"
    "evolves (free_set (L(c := xs)) \<union> frames x c) mem1 (L(c := xs)) mem2 (split_lists (L(c := xs)) x i c)"
    "free_set (split_lists (L(c := xs)) x i c) = free_set (L(c := xs)) \<union> (frames x c - frames x i)" by blast
  have cnt: "fl_count (mz_lists z ! c) \<noteq> 0" "c < length (mz_lists z)"
    using fl_count_0 [OF li c(2)] L lists_repD(1) [OF li c(2)] by simp_all
  have "alloc_from_zone db i c z mem = Some (Some (push_bit FRAME_SHIFT x), add_free_pages z2 c (- 1), mem2)"
    using c(2) cnt pop(1) sp(1) db by (subst alloc_from_zone.simps) simp
  moreover have "free_set (L(c := xs)) \<union> (frames x c - frames x i) = free_set L - frames x i"
    using fs x(2) frames_mono [OF c(1), of x] by auto
  moreover have "evolves (free_set L) mem L mem2 (split_lists (L(c := xs)) x i c)"
    using fs x(2) by (intro evolves_trans [OF pop(4) sp(4)]) auto
  ultimately show ?thesis using sp(2,5) same_extent_trans [OF sp(3) pop(3)] by simp
qed

lemma alloc_miss:
  assumes "zone_rep z mem L" "c \<le> MAX_ORDER" "L c = []"
  shows "alloc_from_zone db i c z mem = alloc_from_zone db i (Suc c) z mem"
  using fl_count_0 [OF zone_repD(2) [OF assms(1)] assms(2)] lists_repD(1) [OF zone_repD(2) [OF assms(1)] assms(2)] assms(2,3)
  by (subst alloc_from_zone.simps) simp

text \<open>The first order from \<open>k\<close> on with a free block.\<close>

lemma alloc_search:
  assumes "zone_rep z mem L" "k \<le> c" "c \<le> Suc MAX_ORDER" "\<And>j. k \<le> j \<Longrightarrow> j < c \<Longrightarrow> L j = []"
  shows "alloc_from_zone db i k z mem = alloc_from_zone db i c z mem"
  using assms(2-)
proof (induction c rule: dec_induct)
  case (step n)
  then have "alloc_from_zone db i k z mem = alloc_from_zone db i n z mem" by auto
  also have "\<dots> = alloc_from_zone db i (Suc n) z mem" using step.prems step.hyps by (intro alloc_miss [OF assms(1)]) auto
  finally show ?case .
qed simp

lemma alloc_from_zone_none:
  "zone_rep z mem L \<Longrightarrow> i \<le> MAX_ORDER \<Longrightarrow> (\<And>j. i \<le> j \<Longrightarrow> j \<le> MAX_ORDER \<Longrightarrow> L j = []) \<Longrightarrow>
     alloc_from_zone db i i z mem = Some (None, z, mem)"
  using alloc_search [of z mem L i "Suc MAX_ORDER" db i] by (simp add: alloc_from_zone.simps [of db i "Suc MAX_ORDER"])

section \<open>Coalescing\<close>

lemma coalesce_step:
  assumes rep: "zone_rep z mem L" and sync: "free_set L \<subseteq> trusted db z" and k: "k < MAX_ORDER" and f: "frame_ok f"
    and b: "buddy f k \<in> set (L k)"
  shows "\<exists>z' mem'. coalesce db z mem (push_bit FRAME_SHIFT f) k =
      coalesce db (add_free_pages z' k (- 1)) mem' (min (push_bit FRAME_SHIFT f) (push_bit FRAME_SHIFT (buddy f k))) (Suc k)
    \<and> same_extent z' z \<and> zone_rep z' mem' (L(k := remove1 (buddy f k) (L k)))
    \<and> evolves (free_set L) mem L mem' (L(k := remove1 (buddy f k) (L k)))"
proof -
  let ?b = "buddy f k"
  note bl = zone_repD(1) [OF rep]
  have k': "k \<le> MAX_ORDER" using k by simp
  have ok: "block_ok z k ?b" "frames ?b k \<subseteq> free_set L"
    using blocks_okD(2) [OF bl k' b] b k' by (auto intro: in_free_setI)
  note bi = block_in_zone_iff [OF block_okD(1) [OF ok(1)] k', THEN iffD1, OF block_okD(4) [OF ok(1)]]
  then have range: "\<not> (push_bit FRAME_SHIFT ?b < mz_base z \<or> mz_base z + mz_size z \<le> push_bit FRAME_SHIFT ?b)"
    by (simp add: word_less_nat_alt word_le_nat_alt unat_add_no_overflow unat_frame_addr [OF block_okD(1) [OF ok(1)]] add_mult_distrib)
      (use zero_less_power [of "2 :: nat" k] in linarith)
  have db: "(case db of Some db \<Rightarrow> \<not> frames_free db (push_bit FRAME_SHIFT ?b) k | None \<Rightarrow> False) = False"
    using frames_free_iff [OF block_okD(1) [OF ok(1)] block_bounds [OF ok(1) k']] ok(2) sync
    by (auto simp: trusted_def split: option.splits)
  from remove_from_free_list_spec [OF rep k' b] obtain z' mem' where r:
    "remove_from_free_list z mem k (push_bit FRAME_SHIFT ?b) = Some (True, z', mem')" "same_extent z' z"
    "zone_rep z' mem' (L(k := remove1 ?b (L k)))" "evolves (free_set L) mem L mem' (L(k := remove1 ?b (L k)))" by auto
  have "coalesce db z mem (push_bit FRAME_SHIFT f) k =
      coalesce db (add_free_pages z' k (- 1)) mem' (min (push_bit FRAME_SHIFT f) (push_bit FRAME_SHIFT ?b)) (Suc k)"
    using k r(1) range db f
    by (subst coalesce.simps) (simp add: buddy_def [symmetric] del: push_bit_of_1)
  with r(2-4) show ?thesis by blast
qed

lemma coalesce_stop:
  assumes rep: "zone_rep z mem L" and clean: "clean (trusted db z) mem L" and k: "k \<le> MAX_ORDER" and f: "block_ok z k f"
    and b: "k = MAX_ORDER \<or> buddy f k \<notin> set (L k)"
  shows "coalesce db z mem (push_bit FRAME_SHIFT f) k = Some (push_bit FRAME_SHIFT f, k, z, mem)"
proof (cases "k = MAX_ORDER")
  case True
  then show ?thesis by (subst coalesce.simps) simp
next
  case False
  then have k': "k < MAX_ORDER" "buddy f k \<notin> set (L k)" using k b by auto
  let ?b = "buddy f k"
  have bf: "frame_ok ?b" "unat ?b + 2 ^ k \<le> 2 ^ 52"
    using buddy_cases [OF block_okD(1,3) [OF f] k'(1)] block_bounds [OF f k] buddy_upper(2) [OF block_okD(1) [OF f] _ k'(1)]
    by (metis, metis add.assoc add_leD1 mult_2 power_Suc)
  have "remove_from_free_list z mem k (push_bit FRAME_SHIFT ?b) = Some (False, z, mem)"
    if "case db of Some db \<Rightarrow> frames_free db (push_bit FRAME_SHIFT ?b) k | None \<Rightarrow> True"
      "\<not> (push_bit FRAME_SHIFT ?b < mz_base z \<or> mz_base z + mz_size z \<le> push_bit FRAME_SHIFT ?b)"
  proof (rule remove_from_free_list_absent [OF rep k k'(2) bf(1)])
    have "unat (mz_base z) + unat (mz_size z) < 2 ^ 64"
      using block_in_zone_iff [OF block_okD(1) [OF f] k, of z] block_okD(4) [OF f] by simp
    then have "unat ?b \<in> zone_set z"
      using that(2) by (simp add: zone_set_def word_less_nat_alt word_le_nat_alt unat_add_no_overflow unat_frame_addr [OF bf(1)])
    moreover have "case db of Some d \<Rightarrow> frames ?b k \<subseteq> db_free d | None \<Rightarrow> True"
      using that(1) frames_free_iff [OF bf] by (auto split: option.splits)
    ultimately have "unat ?b \<in> trusted db z" using head_in_frames [of ?b k] by (auto simp: trusted_def split: option.splits)
    then show "?b \<in> heads L \<or> \<not> fake (hdr mem ?b)" using cleanD [OF clean bf(1)] by blast
  qed
  then show ?thesis using k'(1) block_okD(1) [OF f]
    by (subst coalesce.simps) (auto simp: buddy_def [symmetric] Let_def simp del: push_bit_of_1 split: option.splits)
qed

lemma coalesce_spec:
  assumes "zone_rep z mem L" "block_ok z k f" "k \<le> MAX_ORDER" "frames f k \<inter> free_set L = {}"
    and "free_set L \<union> frames f k \<subseteq> trusted db z" "clean (trusted db z) mem L"
  shows "\<exists>f' k' z' mem' L'. coalesce db z mem (push_bit FRAME_SHIFT f) k = Some (push_bit FRAME_SHIFT f', k', z', mem')
    \<and> zone_rep z' mem' L' \<and> same_extent z' z \<and> block_ok z k' f' \<and> k' \<le> MAX_ORDER
    \<and> frames f' k' \<inter> free_set L' = {} \<and> free_set L' \<union> frames f' k' = free_set L \<union> frames f k
    \<and> evolves (free_set L) mem L mem' L' \<and> (\<forall>j. set (L' j) \<subseteq> set (L j))
    \<and> (k' = MAX_ORDER \<or> buddy f' k' \<notin> set (L' k'))"
  using assms
proof (induction "MAX_ORDER - k" arbitrary: k f z mem L)
  case 0
  then have "k = MAX_ORDER \<or> buddy f k \<notin> set (L k)" by simp
  with coalesce_stop [OF 0(2,7,4,3)] 0(2-5) show ?case by fastforce
next
  case (Suc n)
  show ?case
  proof (cases "buddy f k \<in> set (L k)")
    case False
    with coalesce_stop [OF Suc.prems(1,6,3,2)] Suc.prems(1-4) show ?thesis by fastforce
  next
    case True
    let ?b = "buddy f k" and ?L = "L(k := remove1 (buddy f k) (L k))" and ?m = "min f (buddy f k)"
    have k: "k < MAX_ORDER" "n = MAX_ORDER - Suc k" using Suc.hyps(2) by auto
    note bl = zone_repD(1) [OF Suc.prems(1)]
    note ok = blocks_okD(2) [OF bl Suc.prems(3) True]
    note join = join_buddies [OF Suc.prems(2) ok k(1)]
    have sync: "free_set L \<subseteq> trusted db z" using Suc.prems(5) by simp
    from coalesce_step [OF Suc.prems(1) sync k(1) block_okD(1) [OF Suc.prems(2)] True] obtain z1 mem1 where st:
      "coalesce db z mem (push_bit FRAME_SHIFT f) k =
        coalesce db (add_free_pages z1 k (- 1)) mem1 (min (push_bit FRAME_SHIFT f) (push_bit FRAME_SHIFT ?b)) (Suc k)"
      "same_extent z1 z" "zone_rep z1 mem1 ?L" "evolves (free_set L) mem L mem1 ?L" by blast
    have fs: "free_set ?L = free_set L - frames ?b k" by (rule free_set_remove [OF bl Suc.prems(3) True])
    have bsub: "frames ?b k \<subseteq> free_set L" using True Suc.prems(3) by (auto intro: in_free_setI)
    have z1: "zone_rep (add_free_pages z1 k (- 1)) mem1 ?L" "same_extent (add_free_pages z1 k (- 1)) z" using st(2,3) by simp_all
    have pre: "block_ok (add_free_pages z1 k (- 1)) (Suc k) ?m" "Suc k \<le> MAX_ORDER" "frames ?m (Suc k) \<inter> free_set ?L = {}"
      "free_set ?L \<union> frames ?m (Suc k) \<subseteq> trusted db z"
      using join(1) same_extent_ok(1) [OF z1(2)] k(1) join(2) fs bsub Suc.prems(4,5) by auto
    from Suc.hyps(1) [OF k(2) z1(1) pre(1-3), unfolded trusted_same_extent [OF z1(2)], OF pre(4) evolves_clean [OF st(4) Suc.prems(6)]] obtain f' k' z' mem' L' where r:
      "coalesce db (add_free_pages z1 k (- 1)) mem1 (push_bit FRAME_SHIFT ?m) (Suc k) = Some (push_bit FRAME_SHIFT f', k', z', mem')"
      "zone_rep z' mem' L'" "same_extent z' (add_free_pages z1 k (- 1))" "block_ok (add_free_pages z1 k (- 1)) k' f'" "k' \<le> MAX_ORDER"
      "frames f' k' \<inter> free_set L' = {}" "free_set L' \<union> frames f' k' = free_set ?L \<union> frames ?m (Suc k)"
      "evolves (free_set ?L) mem1 ?L mem' L'" "\<forall>j. set (L' j) \<subseteq> set (?L j)" "k' = MAX_ORDER \<or> buddy f' k' \<notin> set (L' k')"
      by blast
    have "set (?L j) \<subseteq> set (L j)" for j using set_remove1_subset [of ?b "L k"] by auto
    then have "\<forall>j. set (L' j) \<subseteq> set (L j)" using r(9) by blast
    moreover have "evolves (free_set L) mem L mem' L'" using fs by (intro evolves_trans [OF st(4) r(8)]) auto
    moreover have "free_set ?L \<union> frames ?m (Suc k) = free_set L \<union> frames f k" using fs bsub join(2) by blast
    moreover have "same_extent z' z" by (rule same_extent_trans [OF r(3) z1(2)])
    moreover have "block_ok z k' f'" using r(4) same_extent_ok(1) [OF z1(2)] by simp
    ultimately show ?thesis using st(1) r(1,2,5,6,7,10) join(3) by (intro exI [of _ f'] exI [of _ k'] exI [of _ z'] exI [of _ mem'] exI [of _ L']) simp
  qed
qed

definition no_pairs :: "blocks \<Rightarrow> bool" where
  "no_pairs L \<longleftrightarrow> (\<forall>k<MAX_ORDER. \<forall>f\<in>set (L k). buddy f k \<notin> set (L k))"

lemma no_pairs_insert:
  assumes "no_pairs L" "\<And>j. set (L' j) \<subseteq> set (L j)" "k = MAX_ORDER \<or> buddy f k \<notin> set (L' k)"
  shows "no_pairs (L'(k := f # L' k))"
proof -
  have ne: "buddy f k \<noteq> f" if "k < MAX_ORDER"
  proof -
    have "bit (buddy f k) k \<longleftrightarrow> \<not> bit f k" using that by (simp add: buddy_def bit_simps MAX_ORDER_def)
    then show ?thesis by auto
  qed
  show ?thesis unfolding no_pairs_def
  proof (intro allI ballI impI)
    fix j g assume j: "j < MAX_ORDER" "g \<in> set ((L'(k := f # L' k)) j)"
    have old: "buddy g j \<notin> set (L' j)" if "g \<in> set (L' j)"
      using that assms(1,2) j(1) unfolding no_pairs_def by blast
    show "buddy g j \<notin> set ((L'(k := f # L' k)) j)"
    proof (cases "j = k")
      case True
      show ?thesis
      proof (cases "g = f")
        case True
        then show ?thesis using \<open>j = k\<close> assms(3) ne j(1) by simp
      next
        case False
        then have "g \<in> set (L' k)" using j(2) \<open>j = k\<close> by simp
        moreover have "buddy g k \<noteq> f" using assms(3) j(1) \<open>j = k\<close> \<open>g \<in> set (L' k)\<close> buddy_buddy [of g k] by auto
        ultimately show ?thesis using old \<open>j = k\<close> by simp
      qed
    qed (use old j(2) in simp)
  qed
qed

lemma not_linked:
  assumes "zone_rep z mem L" "f \<notin> heads L" "f \<noteq> 0" "\<not> fake (hdr mem f)"
  shows "\<not> (fb_magic (hdr mem f) = FREE_BLOCK_MAGIC \<and> already_linked z (hdr mem f) f)"
proof -
  have "fl_head (mz_lists z ! k) \<noteq> f" if "k \<le> MAX_ORDER" for k
    using fl_head_cases(1) [OF assms(1) that] assms(2,3) that by (auto simp: heads_def)
  then show ?thesis using assms(4) by (auto simp: fake_def already_linked_def Let_def)
qed

lemma free_to_zone_spec:
  assumes rep: "zone_rep z mem L" and f: "block_ok z k f" and k: "k \<le> MAX_ORDER" and disj: "frames f k \<inter> free_set L = {}"
    and sync: "free_set L \<union> frames f k \<subseteq> trusted db z" and clean: "clean (trusted db z) mem L"
  shows "\<exists>z' mem' L'. free_to_zone db z mem (push_bit FRAME_SHIFT f) k = Some (z', mem')
    \<and> zone_rep z' mem' L' \<and> same_extent z' z \<and> free_set L' = free_set L \<union> frames f k
    \<and> evolves (free_set L \<union> frames f k) mem L mem' L' \<and> (no_pairs L \<longrightarrow> no_pairs L')"
proof -
  note ff = block_okD [OF f]
  have fh: "f \<notin> heads L" using disj head_in_frames [of f k] by (intro not_in_heads) blast
  have "\<not> fake (hdr mem f)" using cleanD [OF clean ff(1) _ fh] sync head_in_frames [of f k] by blast
  then have nl: "\<not> (fb_magic (hdr mem f) = FREE_BLOCK_MAGIC \<and> already_linked z (hdr mem f) f)"
    by (rule not_linked [OF rep fh ff(2)])
  from coalesce_spec [OF rep f k disj sync clean] obtain f1 k1 z1 mem1 L1 where co:
    "coalesce db z mem (push_bit FRAME_SHIFT f) k = Some (push_bit FRAME_SHIFT f1, k1, z1, mem1)" "zone_rep z1 mem1 L1"
    "same_extent z1 z" "block_ok z k1 f1" "k1 \<le> MAX_ORDER" "frames f1 k1 \<inter> free_set L1 = {}"
    "free_set L1 \<union> frames f1 k1 = free_set L \<union> frames f k" "evolves (free_set L) mem L mem1 L1"
    "\<forall>j. set (L1 j) \<subseteq> set (L j)" "k1 = MAX_ORDER \<or> buddy f1 k1 \<notin> set (L1 k1)" by blast
  have f1: "block_ok z1 k1 f1" using co(4) same_extent_ok(1) [OF co(3)] by simp
  have f1h: "f1 \<notin> heads L1" using co(6) head_in_frames [of f1 k1] by (intro not_in_heads) blast
  have "unat f1 \<in> trusted db z" using co(7) sync head_in_frames [of f1 k1] by blast
  then have "\<not> fake (hdr mem1 f1)" by (rule cleanD [OF evolves_clean [OF co(8) clean] block_okD(1) [OF f1] _ f1h])
  from add_free_block_spec [OF co(2,5) f1 co(6) this] obtain z2 mem2 where add:
    "add_free_block z1 mem1 k1 (push_bit FRAME_SHIFT f1) = Some (True, z2, mem2)" "same_extent z2 z1"
    "zone_rep z2 mem2 (L1(k1 := f1 # L1 k1))" "evolves (insert (unat f1) (free_set L1)) mem1 L1 mem2 (L1(k1 := f1 # L1 k1))" by auto
  have "free_to_zone db z mem (push_bit FRAME_SHIFT f) k = Some (add_free_pages z2 k1 1, mem2)"
    using ff(1,2) nl co(1) add(1) by (auto simp: free_to_zone_def frame_addr_0 Let_def simp flip: hdr_def)
  moreover have "free_set (L1(k1 := f1 # L1 k1)) = free_set L \<union> frames f k"
    using free_set_insert [OF co(5)] co(7) by blast
  moreover have "evolves (free_set L \<union> frames f k) mem L mem2 (L1(k1 := f1 # L1 k1))"
    using co(7) head_in_frames [of f1 k1] by (intro evolves_trans [OF co(8) add(4)]) blast+
  moreover have "same_extent z2 z" by (rule same_extent_trans [OF add(2) co(3)])
  moreover have "no_pairs L \<Longrightarrow> no_pairs (L1(k1 := f1 # L1 k1))" using no_pairs_insert [of L L1 k1 f1] co(9,10) by blast
  ultimately show ?thesis using add(3) by (intro exI [of _ "add_free_pages z2 k1 1"] exI [of _ mem2] exI [of _ "L1(k1 := f1 # L1 k1)"]) simp
qed

end
