(* ===== verification/Buddy_Unique.thy ===== *)
theory Buddy_Unique
  imports Buddy_Blocks
begin

text \<open>
  Free lists without free buddies are determined by the set of free frames: the normal form that
  coalescing maintains.  Both operations of a zone keep it.
\<close>

section \<open>Uniqueness\<close>

lemma half_frames:
  assumes "block_ok z (Suc k) f" "k < MAX_ORDER"
  shows "block_ok z k f" "block_ok z k (buddy f k)" "frames f (Suc k) = frames f k \<union> frames (buddy f k) k"
    "2 ^ Suc k dvd unat f"
proof -
  note f = block_okD [OF assms(1)]
  note b = buddy_upper [OF f(1,3) assms(2)]
  show "block_ok z k f" "block_ok z k (buddy f k)"
    using block_ok_halves [OF f(1,3) assms(2) f(2), of z] assms(1) b(1) by auto
  show "frames f (Suc k) = frames f k \<union> frames (buddy f k) k" using upper_half(4) [OF b(2) assms(2)] b(1) by simp
  show "2 ^ Suc k dvd unat f" by (rule f(3))
qed

text \<open>An aligned block of free frames lies within a free block at least as large.\<close>

lemma covered_by_block:
  assumes "blocks_ok z L" "no_pairs L"
  shows "block_ok z k f \<Longrightarrow> k \<le> MAX_ORDER \<Longrightarrow> frames f k \<subseteq> free_set L \<Longrightarrow>
    \<exists>j g. k \<le> j \<and> j \<le> MAX_ORDER \<and> g \<in> set (L j) \<and> frames f k \<subseteq> frames g j"
proof (induction k arbitrary: f)
  case 0
  have "unat f \<in> free_set L" using "0.prems"(3) head_in_frames [of f 0] by blast
  then obtain j g where "j \<le> MAX_ORDER" "g \<in> set (L j)" "unat f \<in> frames g j" by (rule in_free_setE)
  moreover have "frames f 0 = {unat f}" by (auto simp: frames_def)
  ultimately show ?case by auto
next
  case (Suc k)
  have k: "k < MAX_ORDER" "k \<le> MAX_ORDER" using Suc.prems(2) by simp_all
  note h = half_frames [OF Suc.prems(1) k(1)]
  have nest: ?case if "Suc k \<le> j" "j \<le> MAX_ORDER" "g \<in> set (L j)" "frames a k \<subseteq> frames g j" "a = f \<or> a = buddy f k" for j g a
  proof -
    have "frames f (Suc k) \<inter> frames g j \<noteq> {}" using that(4,5) h(3) head_in_frames [of a k] by blast
    moreover have "2 ^ j dvd unat g" using blocks_okD(2) [OF assms(1) that(2,3)] by (simp add: block_ok_def)
    ultimately have "frames f (Suc k) \<subseteq> frames g j" by (intro frames_nested [OF h(4) _ that(1)])
    with that show ?thesis by blast
  qed
  have "frames f k \<subseteq> free_set L" "frames (buddy f k) k \<subseteq> free_set L" using Suc.prems(3) h(3) by auto
  with Suc.IH [OF h(1) k(2)] Suc.IH [OF h(2) k(2)] obtain i g j g' where
    g: "k \<le> i" "i \<le> MAX_ORDER" "g \<in> set (L i)" "frames f k \<subseteq> frames g i" and
    g': "k \<le> j" "j \<le> MAX_ORDER" "g' \<in> set (L j)" "frames (buddy f k) k \<subseteq> frames g' j" by blast
  show ?case
  proof (cases "i = k \<and> j = k")
    case True
    then have "frames f k \<subseteq> frames g k" "frames (buddy f k) k \<subseteq> frames g' k" using g(4) g'(4) by auto
    then have "unat f = unat g" "unat (buddy f k) = unat g'" by (auto simp: frames_def)
    then have "f = g" "buddy f k = g'" by (simp_all add: word_unat_eq_iff)
    then have False using True g(3) g'(3) assms(2) k(1) unfolding no_pairs_def by blast
    then show ?thesis ..
  next
    case False
    then have "Suc k \<le> i \<or> Suc k \<le> j" using g(1) g'(1) by auto
    then show ?thesis using nest [OF _ g(2,3,4)] nest [OF _ g'(2,3,4)] by blast
  qed
qed

lemma blocks_subset:
  assumes L: "blocks_ok z L" "no_pairs L" and M: "blocks_ok z M" "no_pairs M" and eq: "free_set L = free_set M"
    and f: "k \<le> MAX_ORDER" "f \<in> set (L k)"
  shows "f \<in> set (M k)"
proof -
  have "frames f k \<subseteq> free_set M" using f eq by (auto intro: in_free_setI)
  from covered_by_block [OF M blocks_okD(2) [OF L(1) f(1,2)] f(1) this]
  obtain j g where g: "k \<le> j" "j \<le> MAX_ORDER" "g \<in> set (M j)" "frames f k \<subseteq> frames g j" by blast
  have "frames g j \<subseteq> free_set L" using g(2,3) eq by (auto intro: in_free_setI)
  from covered_by_block [OF L blocks_okD(2) [OF M(1) g(2,3)] g(2) this]
  obtain i h where h: "j \<le> i" "i \<le> MAX_ORDER" "h \<in> set (L i)" "frames g j \<subseteq> frames h i" by blast
  have "frames f k \<inter> frames h i \<noteq> {}" using g(4) h(4) head_in_frames [of f k] by blast
  then have "(k, f) = (i, h)" using blocks_okD(3) [OF L(1) h(2) f(1,2) h(3)] by blast
  then have "frames f k \<subseteq> frames g k" "j = k" using g(1,4) h(1) by auto
  then have "unat f = unat g" by (auto simp: frames_def)
  with g(3) \<open>j = k\<close> show ?thesis by (simp add: word_unat_eq_iff [symmetric])
qed

lemma blocks_unique:
  assumes "blocks_ok z L" "no_pairs L" "blocks_ok z M" "no_pairs M" "free_set L = free_set M" "k \<le> MAX_ORDER"
  shows "set (L k) = set (M k)"
  using blocks_subset [OF assms(1-5,6)] blocks_subset [OF assms(3,4,1,2) assms(5) [symmetric] assms(6)] by blast

lemma no_pairs_split:
  assumes "no_pairs L" "L c = x # xs" "\<And>j. i \<le> j \<Longrightarrow> j < c \<Longrightarrow> L j = []"
  shows "no_pairs (split_lists (L(c := xs)) x i c)"
  unfolding no_pairs_def
proof (intro allI ballI impI)
  fix k f assume k: "k < MAX_ORDER" "f \<in> set (split_lists (L(c := xs)) x i c k)"
  show "buddy f k \<notin> set (split_lists (L(c := xs)) x i c k)"
  proof (cases "i \<le> k \<and> k < c")
    case True
    then have l: "split_lists (L(c := xs)) x i c k = [x + push_bit k 1]" using assms(3) by (simp add: split_lists_def)
    have "bit (buddy f k) k \<longleftrightarrow> \<not> bit f k" using k(1) by (simp add: buddy_def bit_simps MAX_ORDER_def)
    then have "buddy f k \<noteq> f" by auto
    with k(2) l show ?thesis by simp
  next
    case False
    then have l: "split_lists (L(c := xs)) x i c k = (L(c := xs)) k" by (auto simp: split_lists_def)
    have "set ((L(c := xs)) k) \<subseteq> set (L k)" using assms(2) by auto
    moreover have "f \<in> set ((L(c := xs)) k)" using k(2) l by simp
    ultimately show ?thesis using k(1) assms(1) unfolding no_pairs_def l by blast
  qed
qed

end
