(* ===== verification/Buddy_System.thy ===== *)
theory Buddy_System
  imports Buddy_Unique
begin

text \<open>
  The three zones together.  \<open>blocks_of\<close> reads the free lists off a zone; \<open>sys_ok\<close> is the invariant
  of the allocator and the page database.  \<open>BuddyAllocator_alloc\<close> and \<open>BuddyAllocator_free\<close> are
  specified by their effect on the set of free frames.
\<close>

section \<open>Reading the free lists\<close>

primrec walk :: "PhysMem \<Rightarrow> nat \<Rightarrow> u64 \<Rightarrow> u64 list" where
  "walk mem 0 f = []"
| "walk mem (Suc n) f = f # walk mem n (fb_next (hdr mem f))"

definition blocks_of :: "MemoryZone \<Rightarrow> PhysMem \<Rightarrow> blocks" where
  "blocks_of z mem = (\<lambda>k. if k \<le> MAX_ORDER then walk mem (unat (fl_count (mz_lists z ! k))) (fl_head (mz_lists z ! k)) else [])"

definition zone_free :: "MemoryZone \<Rightarrow> PhysMem \<Rightarrow> nat set" where
  "zone_free z mem = free_set (blocks_of z mem)"

lemma dll_walk: "dll mem k p c xs \<Longrightarrow> walk mem (length xs) c = xs"
  by (induction xs arbitrary: p c) auto

lemma blocks_of_eq: "zone_rep z mem L \<Longrightarrow> k \<le> MAX_ORDER \<Longrightarrow> blocks_of z mem k = L k"
  using lists_repD(2,3) [OF zone_repD(2), of z mem L k] dll_walk by (simp add: blocks_of_def)

lemma blocks_cong:
  assumes "\<And>k. k \<le> MAX_ORDER \<Longrightarrow> L k = M k"
  shows "free_set L = free_set M" "heads L = heads M" "zone_rep z mem L = zone_rep z mem M" "clean C mem L = clean C mem M"
    "evolves S mem' N mem L = evolves S mem' N mem M" "no_pairs L = no_pairs M"
proof -
  show "free_set L = free_set M" unfolding free_set_def by (rule SUP_cong) (use assms in auto)
  show h: "heads L = heads M" unfolding heads_def by (rule SUP_cong) (use assms in auto)
  show "clean C mem L = clean C mem M" "evolves S mem' N mem L = evolves S mem' N mem M"
    by (simp_all only: clean_def evolves_def h)
  show "zone_rep z mem L = zone_rep z mem M"
    unfolding zone_rep_def blocks_ok_def lists_rep_def by (simp add: assms cong: conj_cong)
  show "no_pairs L = no_pairs M" unfolding no_pairs_def by (simp add: assms)
qed

lemma blocks_of_cong:
  assumes "zone_rep z mem L"
  shows "free_set (blocks_of z mem) = free_set L" "heads (blocks_of z mem) = heads L"
    "zone_rep z' mem' (blocks_of z mem) = zone_rep z' mem' L" "clean C mem' (blocks_of z mem) = clean C mem' L"
    "evolves S mem' N mem'' (blocks_of z mem) = evolves S mem' N mem'' L" "no_pairs (blocks_of z mem) = no_pairs L"
  by (rule blocks_cong, rule blocks_of_eq [OF assms], assumption)+

lemma zone_free_eq: "zone_rep z mem L \<Longrightarrow> zone_free z mem = free_set L"
  unfolding zone_free_def by (rule blocks_of_cong(1))

section \<open>The invariant\<close>

definition type_set :: "ZoneType \<Rightarrow> nat set" where
  "type_set t = {n. unat (zone_start t) \<le> n * 4096 \<and> n * 4096 < unat (zone_end t)}"

definition zone_good :: "PageDatabase option \<Rightarrow> PhysMem \<Rightarrow> ZoneType \<Rightarrow> MemoryZone \<Rightarrow> bool" where
  "zone_good db mem t z \<longleftrightarrow> zone_rep z mem (blocks_of z mem) \<and> zone_free z mem \<subseteq> trusted db z
     \<and> clean (trusted db z) mem (blocks_of z mem) \<and> zone_set z \<subseteq> type_set t"

abbreviation zone_of :: "MemSystem \<Rightarrow> ZoneType \<Rightarrow> MemoryZone" where
  "zone_of s t \<equiv> ba_zones s ! zone_index t"

definition sys_ok :: "MemSystem \<Rightarrow> bool" where
  "sys_ok s \<longleftrightarrow> length (ba_zones s) = 3 \<and> (\<forall>t. zone_good (sy_db s) (sy_mem s) t (zone_of s t)) \<and>
     (case sy_db s of None \<Rightarrow> True | Some d \<Rightarrow> db_ok d \<and> (\<forall>t. zone_set (zone_of s t) \<subseteq> {..<db_count d}))"

definition sys_free :: "MemSystem \<Rightarrow> nat set" where
  "sys_free s = (\<Union>t. zone_free (zone_of s t) (sy_mem s))"

definition all_no_pairs :: "MemSystem \<Rightarrow> bool" where
  "all_no_pairs s \<longleftrightarrow> (\<forall>t. no_pairs (blocks_of (zone_of s t) (sy_mem s)))"

lemma type_set_disjoint: "t \<noteq> u \<Longrightarrow> type_set t \<inter> type_set u = {}"
  by (cases t; cases u) (auto simp: type_set_def DMA_ZONE_END_def NORMAL_ZONE_END_def)

lemma zone_index_less: "zone_index t < 3"
  by (cases t) auto

lemma zone_index_inj: "zone_index t = zone_index u \<longleftrightarrow> t = u"
  by (cases t; cases u) auto

lemma for_address_type:
  assumes "frame_ok f" "unat f \<in> type_set t"
  shows "for_address (push_bit FRAME_SHIFT f) = t"
  using assms unat_frame_addr [OF assms(1)]
  by (cases t) (auto simp: for_address_def type_set_def word_less_nat_alt DMA_ZONE_END_def NORMAL_ZONE_END_def)

lemma zone_good_intro:
  assumes "zone_rep z mem L" "free_set L \<subseteq> trusted db z" "clean (trusted db z) mem L" "zone_set z \<subseteq> type_set t"
  shows "zone_good db mem t z"
  unfolding zone_good_def zone_free_eq [OF assms(1)] using assms blocks_of_cong(3,4) [OF assms(1)] by blast

text \<open>A zone whose headers and free frames are untouched stays as it is.\<close>

lemma walk_cong: "dll mem k p c xs \<Longrightarrow> (\<And>x. x \<in> set xs \<Longrightarrow> hdr mem' x = hdr mem x) \<Longrightarrow> walk mem' (length xs) c = xs"
  using dll_walk [of mem' k p c xs] dll_cong [of xs mem' mem k p c] by blast

lemma heads_in_zone:
  assumes "blocks_ok z L" "g \<in> heads L"
  shows "frame_ok g" "unat g \<in> zone_set z"
proof -
  from assms(2) obtain k where k: "k \<le> MAX_ORDER" "g \<in> set (L k)" by (rule headsE)
  note b = blocks_okD(2) [OF assms(1) k]
  show "frame_ok g" by (rule block_okD(1) [OF b])
  show "unat g \<in> zone_set z" using block_in_zone_set [OF b k(1)] head_in_frames [of g k] by blast
qed

lemma zone_rep_heads:
  assumes "zone_rep z mem L" "\<And>g. g \<in> heads L \<Longrightarrow> hdr mem' g = hdr mem g"
  shows "zone_rep z mem' L"
proof -
  note bl = zone_repD(1) [OF assms(1)] and li = zone_repD(2) [OF assms(1)]
  have same: "hdr mem' g = hdr mem g" if "k \<le> MAX_ORDER" "g \<in> set (L k)" for k g
    using assms(2) that by (auto simp: heads_def)
  have "lists_rep z mem' L"
    unfolding lists_rep_def
  proof (intro conjI allI impI)
    show "length (mz_lists z) = MAX_ORDER + 1" using li by (simp add: lists_rep_def)
    fix k assume k: "k \<le> MAX_ORDER"
    show "dll mem' k 0 (fl_head (mz_lists z ! k)) (L k)"
      using lists_repD(2) [OF li k] dll_cong [OF same [OF k]] by simp
    show "unat (fl_count (mz_lists z ! k)) = length (L k)" by (rule lists_repD(3) [OF li k])
  qed
  with bl show ?thesis by (simp add: zone_rep_def)
qed

lemma zone_good_frame:
  assumes good: "zone_good db mem t z" and same: "\<And>g. frame_ok g \<Longrightarrow> unat g \<in> zone_set z \<Longrightarrow> hdr mem' g = hdr mem g"
    and tr: "trusted db' z = trusted db z"
  shows "zone_good db' mem' t z" "blocks_of z mem' = blocks_of z mem"
proof -
  let ?L = "blocks_of z mem"
  have g: "zone_rep z mem ?L" "zone_free z mem \<subseteq> trusted db z" "clean (trusted db z) mem ?L" "zone_set z \<subseteq> type_set t"
    using good by (simp_all add: zone_good_def)
  have rep: "zone_rep z mem' ?L"
    using heads_in_zone [OF zone_repD(1) [OF g(1)]] by (intro zone_rep_heads [OF g(1)] same)
  have "clean (trusted db z) mem' ?L"
    using g(3) same unfolding clean_def trusted_def by auto
  with rep g show "zone_good db' mem' t z" by (intro zone_good_intro [OF rep]) (simp_all add: tr zone_free_def)
  show "blocks_of z mem' = blocks_of z mem"
    using blocks_of_eq [OF rep] by (auto simp: fun_eq_iff blocks_of_def)
qed

section \<open>Changing one zone\<close>

definition db_like :: "PageDatabase option \<Rightarrow> PageDatabase option \<Rightarrow> bool" where
  "db_like db' db \<longleftrightarrow> (case (db', db) of (None, None) \<Rightarrow> True
     | (Some d', Some d) \<Rightarrow> db_ok d' \<and> db_count d' = db_count d | _ \<Rightarrow> False)"

lemma sys_okD:
  assumes "sys_ok s"
  shows "length (ba_zones s) = 3" "zone_good (sy_db s) (sy_mem s) t (zone_of s t)" "zone_set (zone_of s t) \<subseteq> type_set t"
    "zone_rep (zone_of s t) (sy_mem s) (blocks_of (zone_of s t) (sy_mem s))"
    "zone_free (zone_of s t) (sy_mem s) \<subseteq> trusted (sy_db s) (zone_of s t)"
    "clean (trusted (sy_db s) (zone_of s t)) (sy_mem s) (blocks_of (zone_of s t) (sy_mem s))"
    "sy_db s = Some d \<Longrightarrow> db_ok d \<and> zone_set (zone_of s t) \<subseteq> {..<db_count d}"
  using assms by (auto simp: sys_ok_def zone_good_def)

lemma zone_sets_disjoint: "sys_ok s \<Longrightarrow> t \<noteq> u \<Longrightarrow> zone_set (zone_of s t) \<inter> zone_set (zone_of s u) = {}"
  using sys_okD(3) [of s t] sys_okD(3) [of s u] type_set_disjoint [of t u] by blast

lemma trusted_in_zone: "trusted db z \<subseteq> zone_set z"
  by (simp add: trusted_def)

lemma union_disjoint:
  assumes "\<And>u. F u \<subseteq> G u" "\<And>u. u \<noteq> t \<Longrightarrow> G t \<inter> G u = {}"
  shows "(\<Union>u. F u) \<inter> G t = F t" "(\<Union>u\<in>- {t}. F u) = (\<Union>u. F u) - G t"
proof -
  have "u = t" if "x \<in> G t" "x \<in> F u" for x u using assms(1) [of u] assms(2) [of u] that by blast
  moreover have "F t \<subseteq> G t" by (rule assms(1))
  ultimately have "x \<in> F u \<Longrightarrow> x \<in> G t \<longleftrightarrow> u = t" for x u by blast
  then show "(\<Union>u. F u) \<inter> G t = F t" "(\<Union>u\<in>- {t}. F u) = (\<Union>u. F u) - G t" by auto
qed

lemma sys_free_in_zone: "sys_ok s \<Longrightarrow> sys_free s \<inter> zone_set (zone_of s t) = zone_free (zone_of s t) (sy_mem s)"
proof -
  assume s: "sys_ok s"
  have "zone_free (zone_of s u) (sy_mem s) \<subseteq> zone_set (zone_of s u)" for u
    using sys_okD(5) [OF s] trusted_in_zone by blast
  then show ?thesis unfolding sys_free_def using zone_sets_disjoint [OF s, of t] by (rule union_disjoint(1)) simp
qed

lemma sys_update:
  assumes s: "sys_ok s" and good: "zone_good (sy_db s') (sy_mem s') t z'" and ext: "same_extent z' (zone_of s t)"
    and zs: "ba_zones s' = (ba_zones s)[zone_index t := z']"
    and mem: "\<And>g. frame_ok g \<Longrightarrow> unat g \<notin> zone_set (zone_of s t) \<Longrightarrow> hdr (sy_mem s') g = hdr (sy_mem s) g"
    and tr: "\<And>u. u \<noteq> t \<Longrightarrow> trusted (sy_db s') (zone_of s u) = trusted (sy_db s) (zone_of s u)" and db: "db_like (sy_db s') (sy_db s)"
  shows "sys_ok s'" "sys_free s' = zone_free z' (sy_mem s') \<union> (sys_free s - zone_set (zone_of s t))"
    "same_extent (zone_of s' u) (zone_of s u)"
    "no_pairs (blocks_of z' (sy_mem s')) \<Longrightarrow> all_no_pairs s \<Longrightarrow> all_no_pairs s'"
proof -
  have zu: "zone_of s' u = (if u = t then z' else zone_of s u)" for u
    using zs sys_okD(1) [OF s] zone_index_less by (simp add: nth_list_update zone_index_inj)
  have other: "zone_good (sy_db s') (sy_mem s') u (zone_of s u)"
    "blocks_of (zone_of s u) (sy_mem s') = blocks_of (zone_of s u) (sy_mem s)" if "u \<noteq> t" for u
  proof -
    have same: "hdr (sy_mem s') g = hdr (sy_mem s) g" if "frame_ok g" "unat g \<in> zone_set (zone_of s u)" for g
      using mem [OF that(1)] that(2) zone_sets_disjoint [OF s \<open>u \<noteq> t\<close>] by blast
    show "zone_good (sy_db s') (sy_mem s') u (zone_of s u)" "blocks_of (zone_of s u) (sy_mem s') = blocks_of (zone_of s u) (sy_mem s)"
      by (rule zone_good_frame [OF sys_okD(2) [OF s] same tr [OF that]]; assumption)+
  qed
  have ez: "zone_set z' = zone_set (zone_of s t)" using ext by (simp add: same_extent_def zone_set_def)
  show "sys_ok s'" unfolding sys_ok_def
  proof (intro conjI allI)
    show "length (ba_zones s') = 3" using zs sys_okD(1) [OF s] by simp
    show "zone_good (sy_db s') (sy_mem s') u (zone_of s' u)" for u using good other(1) zu [of u] by simp
    have "zone_set (zone_of s' u) = zone_set (zone_of s u)" for u using zu [of u] ez by simp
    then show "case sy_db s' of None \<Rightarrow> True | Some d \<Rightarrow> db_ok d \<and> (\<forall>t. zone_set (zone_of s' t) \<subseteq> {..<db_count d})"
      using db sys_okD(7) [OF s] by (auto simp: db_like_def split: option.splits)
  qed
  have zf: "zone_free (zone_of s' u) (sy_mem s') = (if u = t then zone_free z' (sy_mem s') else zone_free (zone_of s u) (sy_mem s))" for u
    using zu [of u] other(2) by (simp add: zone_free_def)
  have "(\<Union>u\<in>- {t}. zone_free (zone_of s u) (sy_mem s)) = sys_free s - zone_set (zone_of s t)"
  proof -
    have "zone_free (zone_of s u) (sy_mem s) \<subseteq> zone_set (zone_of s u)" for u
      using sys_okD(5) [OF s] trusted_in_zone by blast
    then show ?thesis unfolding sys_free_def using zone_sets_disjoint [OF s, of t] by (rule union_disjoint(2)) simp
  qed
  then show "sys_free s' = zone_free z' (sy_mem s') \<union> (sys_free s - zone_set (zone_of s t))"
    unfolding sys_free_def zf by (auto split: if_splits)
  show "same_extent (zone_of s' u) (zone_of s u)" using zu [of u] ext by simp
  show "all_no_pairs s'" if "no_pairs (blocks_of z' (sy_mem s'))" "all_no_pairs s"
    unfolding all_no_pairs_def
  proof
    show "no_pairs (blocks_of (zone_of s' u) (sy_mem s'))" for u
      using that zu [of u] other(2) [of u] by (cases "u = t") (simp_all add: all_no_pairs_def)
  qed
qed

section \<open>The page database\<close>

text \<open>A loop that applies the same change to every frame of a block.\<close>

lemma fold_update_frame:
  assumes "db_ok d" "frame_ok x" "unat x + n \<le> 2 ^ 52"
    and D: "D = foldl (\<lambda>db i. update_frame db (push_bit FRAME_SHIFT x + of_nat i * FRAME_SIZE) g) d [0..<n]"
  shows "db_ok D \<and> db_count D = db_count d
    \<and> (\<forall>m. frame_at D m = (if unat x \<le> m \<and> m < unat x + n then map_option g (frame_at d m) else frame_at d m))"
  using assms(3) D
proof (induction n arbitrary: D)
  case (Suc n)
  define D1 where "D1 = foldl (\<lambda>db i. update_frame db (push_bit FRAME_SHIFT x + of_nat i * FRAME_SIZE) g) d [0..<n]"
  have IH: "db_ok D1" "db_count D1 = db_count d"
    "\<And>m. frame_at D1 m = (if unat x \<le> m \<and> m < unat x + n then map_option g (frame_at d m) else frame_at d m)"
    using Suc.IH [OF _ D1_def] Suc.prems(1) by simp_all
  have p: "pfn (push_bit FRAME_SHIFT x + of_nat n * FRAME_SIZE) = unat x + n"
    using pfn_in_block [OF assms(2), of n] Suc.prems(1) by simp
  have "D = update_frame D1 (push_bit FRAME_SHIFT x + of_nat n * FRAME_SIZE) g" by (simp add: Suc.prems(2) D1_def)
  then show ?case using IH(1,2) frame_at_update [OF IH(1), of "push_bit FRAME_SHIFT x + of_nat n * FRAME_SIZE" g] by (simp add: p IH(3) less_Suc_eq)
qed (auto simp: assms(1))

lemma mark_block_allocated_spec:
  assumes "db_ok d" "frame_ok x" "unat x + 2 ^ k \<le> 2 ^ 52" "D = mark_block_allocated d (push_bit FRAME_SHIFT x) k"
  shows "db_ok D" "db_count D = db_count d" "db_free D = db_free d - frames x k"
    "frame_at D n = (if n \<in> frames x k then map_option (\<lambda>f. f\<lparr>pf_flags := PF_ALLOCATED, pf_refcount := 1, pf_owner := 0\<rparr>) (frame_at d n)
       else frame_at d n)"
proof -
  have f: "db_ok D \<and> db_count D = db_count d \<and> (\<forall>m. frame_at D m =
      (if m \<in> frames x k then map_option (\<lambda>f. f\<lparr>pf_flags := PF_ALLOCATED, pf_refcount := 1, pf_owner := 0\<rparr>) (frame_at d m) else frame_at d m))"
    using fold_update_frame [OF assms(1-3), of D "\<lambda>f. f\<lparr>pf_flags := PF_ALLOCATED, pf_refcount := 1, pf_owner := 0\<rparr>"] assms(4)
    by (simp add: mark_block_allocated_def mark_allocated_def frames_def)
  then show "db_ok D" "db_count D = db_count d"
    "frame_at D n = (if n \<in> frames x k then map_option (\<lambda>f. f\<lparr>pf_flags := PF_ALLOCATED, pf_refcount := 1, pf_owner := 0\<rparr>) (frame_at d n)
       else frame_at d n)" by blast+
  show "db_free D = db_free d - frames x k" using f by (auto simp: db_free_def pf_is_free_def split: if_splits)
qed

lemma mark_free_update:
  "(case mark_free d a of Inl _ \<Rightarrow> d | Inr db \<Rightarrow> db) =
     update_frame d a (\<lambda>f. f\<lparr>pf_flags := PF_FREE, pf_refcount := 0, pf_owner := 0, pf_order_and_reserved := 0\<rparr>)"
  by (simp add: mark_free_def update_frame_def split: option.splits)

lemma mark_block_free_spec:
  assumes "db_ok d" "frame_ok x" "unat x + 2 ^ k \<le> 2 ^ 52" "D = mark_block_free d (push_bit FRAME_SHIFT x) k"
  shows "db_ok D" "db_count D = db_count d" "frames x k \<subseteq> {..<db_count d} \<Longrightarrow> db_free D = db_free d \<union> frames x k"
    "n \<notin> frames x k \<Longrightarrow> frame_at D n = frame_at d n"
proof -
  define g :: "PageFrame \<Rightarrow> PageFrame" where "g = (\<lambda>f. f\<lparr>pf_flags := PF_FREE, pf_refcount := 0, pf_owner := 0, pf_order_and_reserved := 0\<rparr>)"
  have f: "db_ok D \<and> db_count D = db_count d \<and> (\<forall>m. frame_at D m = (if m \<in> frames x k then map_option g (frame_at d m) else frame_at d m))"
    using fold_update_frame [OF assms(1-3), of D g] assms(4)
    by (simp add: mark_block_free_def mark_free_update frames_def flip: g_def)
  then show "db_ok D" "db_count D = db_count d" "n \<notin> frames x k \<Longrightarrow> frame_at D n = frame_at d n" by simp_all
  show "db_free D = db_free d \<union> frames x k" if "frames x k \<subseteq> {..<db_count d}"
  proof -
    have in_block: "m \<in> db_free D" if m: "m \<in> frames x k" for m
    proof -
      have "frame_at d m \<noteq> None" using m \<open>frames x k \<subseteq> {..<db_count d}\<close> frame_at_tracked [OF assms(1)] by blast
      then obtain fr where "frame_at D m = Some (g fr)" using f m by auto
      moreover have "pf_is_free (g fr)" by (simp add: g_def pf_is_free_def)
      ultimately show ?thesis by (simp add: db_free_def)
    qed
    have "m \<in> db_free D \<longleftrightarrow> m \<in> db_free d \<or> m \<in> frames x k" for m
      using f in_block [of m] by (cases "m \<in> frames x k") (auto simp: db_free_def)
    then show ?thesis by blast
  qed
qed

section \<open>Allocation\<close>

lemma note_alloc_simps [simp]:
  "ba_zones (note_alloc s i z a k) = ba_zones s" "sy_mem (note_alloc s i z a k) = sy_mem s"
  "sy_db (note_alloc s i z a k) = map_option (\<lambda>d. mark_block_allocated d a k) (sy_db s)"
  by (simp_all add: note_alloc_def Let_def vmstat_add_def)

lemma set_zone_simps [simp]:
  "ba_zones (set_zone s i z mem) = (ba_zones s)[i := z]" "sy_mem (set_zone s i z mem) = mem" "sy_db (set_zone s i z mem) = sy_db s"
  "set_zone s i (ba_zones s ! i) (sy_mem s) = s"
  by (simp_all add: set_zone_def)

lemma empty_zone_blocks:
  assumes "zone_rep z mem L" "zone_is_empty z" "k \<le> MAX_ORDER"
  shows "L k = []"
proof (rule ccontr)
  assume "L k \<noteq> []"
  then obtain f where "f \<in> set (L k)" by (cases "L k") auto
  then have "block_ok z k f" by (rule blocks_okD(2) [OF zone_repD(1) [OF assms(1)] assms(3)])
  from block_in_zone_set [OF this assms(3)] have "unat f \<in> zone_set z" using head_in_frames [of f k] by blast
  then show False using assms(2) by (auto simp: zone_set_def zone_is_empty_def)
qed

text \<open>What an allocation of order \<open>k\<close> returns: the first frame of a block that was free.\<close>

definition takes :: "MemSystem \<Rightarrow> MemSystem \<Rightarrow> nat \<Rightarrow> u64 \<Rightarrow> bool" where
  "takes s s' k x \<longleftrightarrow> sys_ok s' \<and> (\<exists>t. block_ok (zone_of s t) k x) \<and> frames x k \<subseteq> sys_free s
     \<and> sys_free s' = sys_free s - frames x k \<and> (\<forall>t. same_extent (zone_of s' t) (zone_of s t))
     \<and> (all_no_pairs s \<longrightarrow> all_no_pairs s') \<and> sy_db s' = map_option (\<lambda>d. mark_block_allocated d (push_bit FRAME_SHIFT x) k) (sy_db s)"

lemma trusted_alloc:
  assumes "sys_ok s" "sy_db s' = map_option (\<lambda>d. mark_block_allocated d (push_bit FRAME_SHIFT x) k) (sy_db s)"
    "frame_ok x" "unat x + 2 ^ k \<le> 2 ^ 52"
  shows "trusted (sy_db s') z = (case sy_db s of None \<Rightarrow> zone_set z | Some _ \<Rightarrow> trusted (sy_db s) z - frames x k)" "db_like (sy_db s') (sy_db s)"
proof -
  have "trusted (sy_db s') z = (case sy_db s of None \<Rightarrow> zone_set z | Some _ \<Rightarrow> trusted (sy_db s) z - frames x k)
    \<and> db_like (sy_db s') (sy_db s)"
  proof (cases "sy_db s")
    case (Some d)
    then have "db_ok d" using sys_okD(7) [OF assms(1)] by blast
    from mark_block_allocated_spec(1-3) [OF this assms(3,4) refl] show ?thesis using Some assms(2) by (auto simp: trusted_def db_like_def)
  qed (simp add: assms(2) trusted_def db_like_def)
  then show "trusted (sy_db s') z = (case sy_db s of None \<Rightarrow> zone_set z | Some _ \<Rightarrow> trusted (sy_db s) z - frames x k)" "db_like (sy_db s') (sy_db s)"
    by blast+
qed

lemma block_ok_shrink:
  assumes "block_ok z c x" "k \<le> c" "c \<le> MAX_ORDER"
  shows "block_ok z k x"
proof -
  note x = block_okD [OF assms(1)]
  have "2 ^ k dvd unat x" using x(3) assms(2) by (meson dvd_trans le_imp_power_dvd)
  moreover have "(unat x + 2 ^ k) * 4096 \<le> (unat x + 2 ^ c) * 4096"
    using power_increasing [OF assms(2), of "2 :: nat"] by (intro mult_le_mono1 add_left_mono) simp
  then have "block_in_zone z (push_bit FRAME_SHIFT x) k"
    using x(4) le_trans [OF assms(2,3)] assms(3) unfolding block_in_zone_iff [OF x(1) assms(3)] block_in_zone_iff [OF x(1) le_trans [OF assms(2,3)]]
    by linarith
  ultimately show ?thesis using x(1,2) by (simp add: block_ok_def)
qed

text \<open>A successful allocation in the zone of type \<open>t\<close>.\<close>

lemma alloc_in_zone:
  assumes s: "sys_ok s" and k: "k \<le> c" "c \<le> MAX_ORDER" and L: "blocks_of (zone_of s t) (sy_mem s) c = x # xs"
    and none: "\<And>j. k \<le> j \<Longrightarrow> j < c \<Longrightarrow> blocks_of (zone_of s t) (sy_mem s) j = []"
  shows "\<exists>z' mem'. alloc_from_zone (sy_db s) k k (zone_of s t) (sy_mem s) = Some (Some (push_bit FRAME_SHIFT x), z', mem')
    \<and> takes s (note_alloc (set_zone s (zone_index t) z' mem') (zone_index t) z' (push_bit FRAME_SHIFT x) k) k x"
proof -
  let ?z = "zone_of s t" and ?L = "blocks_of (zone_of s t) (sy_mem s)"
  let ?L' = "split_lists (?L(c := xs)) x k c"
  note rep = sys_okD(4) [OF s, of t]
  have sync: "free_set ?L \<subseteq> trusted (sy_db s) ?z" using sys_okD(5) [OF s, of t] by (simp add: zone_free_def)
  from alloc_hit [OF rep sync sys_okD(6) [OF s] k L] obtain z' mem' where hit:
    "alloc_from_zone (sy_db s) k c ?z (sy_mem s) = Some (Some (push_bit FRAME_SHIFT x), z', mem')" "zone_rep z' mem' ?L'"
    "same_extent z' ?z" "evolves (free_set ?L) (sy_mem s) ?L mem' ?L'" "free_set ?L' = free_set ?L - frames x k" by blast
  have al: "alloc_from_zone (sy_db s) k k ?z (sy_mem s) = Some (Some (push_bit FRAME_SHIFT x), z', mem')"
    using alloc_search [OF rep k(1), of "sy_db s" k] none k(2) hit(1) by simp
  have xL: "x \<in> set (?L c)" using L by simp
  have xb: "block_ok ?z c x" "frames x c \<subseteq> free_set ?L"
    using blocks_okD(2) [OF zone_repD(1) [OF rep] k(2) xL] xL k(2) by (auto intro: in_free_setI)
  note x = block_okD [OF xb(1)]
  have xk: "block_ok ?z k x" by (rule block_ok_shrink [OF xb(1) k])
  have bound: "unat x + 2 ^ k \<le> 2 ^ 52" using block_bounds [OF xk] k by simp
  have sub: "frames x k \<subseteq> zone_free ?z (sy_mem s)" using xb(2) frames_mono [OF k(1), of x] by (auto simp: zone_free_def)
  let ?s = "note_alloc (set_zone s (zone_index t) z' mem') (zone_index t) z' (push_bit FRAME_SHIFT x) k"
  have sdb: "sy_db ?s = map_option (\<lambda>d. mark_block_allocated d (push_bit FRAME_SHIFT x) k) (sy_db s)" by simp
  note tr = trusted_alloc [OF s sdb x(1) bound]
  have zf: "zone_free z' mem' = zone_free ?z (sy_mem s) - frames x k"
    using zone_free_eq [OF hit(2)] hit(5) by (simp add: zone_free_def)
  have trz: "trusted (sy_db ?s) z' = (case sy_db s of None \<Rightarrow> zone_set ?z | Some _ \<Rightarrow> trusted (sy_db s) ?z - frames x k)"
    using tr(1) [of ?z] trusted_same_extent [OF hit(3)] by simp
  have sub2: "trusted (sy_db ?s) z' \<subseteq> trusted (sy_db s) ?z" unfolding trz by (auto simp: trusted_def split: option.splits)
  have "zone_good (sy_db ?s) (sy_mem ?s) t z'"
  proof (rule zone_good_intro [OF _ _ _ _])
    show "zone_rep z' (sy_mem ?s) ?L'" using hit(2) by simp
    show "free_set ?L' \<subseteq> trusted (sy_db ?s) z'"
      using hit(5) sync unfolding trz by (auto simp: trusted_def split: option.splits)
    show "clean (trusted (sy_db ?s) z') (sy_mem ?s) ?L'"
      using evolves_clean [OF hit(4) sys_okD(6) [OF s]] sub2 unfolding clean_def by auto
    show "zone_set z' \<subseteq> type_set t" using sys_okD(3) [OF s, of t] hit(3) by (simp add: same_extent_def zone_set_def)
  qed
  moreover have "hdr (sy_mem ?s) g = hdr (sy_mem s) g" if "frame_ok g" "unat g \<notin> zone_set ?z" for g
    using evolvesD(1) [OF hit(4) that(1)] that(2) sync trusted_in_zone by auto
  moreover have "trusted (sy_db ?s) (zone_of s u) = trusted (sy_db s) (zone_of s u)" if "u \<noteq> t" for u
  proof -
    have "frames x k \<inter> zone_set (zone_of s u) = {}"
      using sub sys_okD(5) [OF s, of t] trusted_in_zone [of "sy_db s" ?z] zone_sets_disjoint [OF s that] by blast
    then show ?thesis using tr(1) [of "zone_of s u"] by (auto simp: trusted_def split: option.splits)
  qed
  ultimately have up: "sys_ok ?s" "sys_free ?s = zone_free z' mem' \<union> (sys_free s - zone_set ?z)"
    "same_extent (zone_of ?s u) (zone_of s u)" "no_pairs (blocks_of z' mem') \<Longrightarrow> all_no_pairs s \<Longrightarrow> all_no_pairs ?s" for u
    using sys_update [OF s, of ?s t z'] hit(3) tr(2) by simp_all
  have "sys_free s = zone_free ?z (sy_mem s) \<union> (sys_free s - zone_set ?z)" using sys_free_in_zone [OF s, of t] by blast
  then have "sys_free ?s = sys_free s - frames x k" "frames x k \<subseteq> sys_free s"
    using up(2) zf sub sys_free_in_zone [OF s, of t] by blast+
  moreover have "all_no_pairs s \<longrightarrow> all_no_pairs ?s"
    using up(4) no_pairs_split [of ?L c x xs k, OF _ L none] blocks_of_cong(6) [OF hit(2)] by (auto simp: all_no_pairs_def)
  ultimately have "takes s ?s k x" unfolding takes_def using up(1,3) xk sdb by blast
  then show ?thesis using al by blast
qed

definition has_block :: "MemSystem \<Rightarrow> nat \<Rightarrow> ZoneType \<Rightarrow> bool" where
  "has_block s k t \<longleftrightarrow> (\<exists>j. k \<le> j \<and> j \<le> MAX_ORDER \<and> blocks_of (zone_of s t) (sy_mem s) j \<noteq> [])"

lemma alloc_zones_spec:
  assumes s: "sys_ok s" and k: "k \<le> MAX_ORDER"
  shows "(\<not> (\<exists>t\<in>set ts. has_block s k t) \<and> alloc_zones s k (map zone_index ts) = Some (None, s)) \<or>
    (\<exists>t\<in>set ts. has_block s k t) \<and> (\<exists>x s'. alloc_zones s k (map zone_index ts) = Some (Some (push_bit FRAME_SHIFT x), s') \<and> takes s s' k x)"
proof (induction ts)
  case (Cons t ts)
  let ?L = "blocks_of (zone_of s t) (sy_mem s)"
  note rep = sys_okD(4) [OF s, of t]
  show ?case
  proof (cases "has_block s k t")
    case True
    define c where "c = (LEAST j. k \<le> j \<and> j \<le> MAX_ORDER \<and> ?L j \<noteq> [])"
    have c: "k \<le> c" "c \<le> MAX_ORDER" "?L c \<noteq> []"
      using True LeastI_ex [of "\<lambda>j. k \<le> j \<and> j \<le> MAX_ORDER \<and> ?L j \<noteq> []"] by (auto simp: has_block_def c_def)
    have none: "?L j = []" if "k \<le> j" "j < c" for j
      using not_less_Least [of j "\<lambda>j. k \<le> j \<and> j \<le> MAX_ORDER \<and> ?L j \<noteq> []"] that c(2) by (auto simp: c_def)
    obtain x xs where x: "?L c = x # xs" using c(3) by (cases "?L c") auto
    have ne: "\<not> zone_is_empty (zone_of s t)" using empty_zone_blocks [OF rep _ c(2)] c(3) by blast
    from alloc_in_zone [OF s c(1,2) x none] obtain z' mem' where
      "alloc_from_zone (sy_db s) k k (zone_of s t) (sy_mem s) = Some (Some (push_bit FRAME_SHIFT x), z', mem')"
      "takes s (note_alloc (set_zone s (zone_index t) z' mem') (zone_index t) z' (push_bit FRAME_SHIFT x) k) k x" by blast
    with ne True show ?thesis by (simp add: Let_def) blast
  next
    case False
    then have none: "?L j = []" if "k \<le> j" "j \<le> MAX_ORDER" for j using that by (auto simp: has_block_def)
    have "alloc_zones s k (map zone_index (t # ts)) = alloc_zones s k (map zone_index ts)"
      using alloc_from_zone_none [OF rep k none] by (simp add: Let_def)
    with Cons False show ?thesis by simp
  qed
qed simp

definition zone_types :: "ZoneType option \<Rightarrow> ZoneType list" where
  "zone_types z = (case z of Some Dma \<Rightarrow> [Dma, Normal, High] | Some Normal \<Rightarrow> [Normal, High, Dma] | Some High \<Rightarrow> [High, Normal, Dma]
     | None \<Rightarrow> [Normal, High, Dma])"

lemma zone_order_types: "zone_order z = map zone_index (zone_types z)" "set (zone_types z) = UNIV"
proof -
  show "zone_order z = map zone_index (zone_types z)"
    by (auto simp: zone_order_def zone_types_def split: option.splits ZoneType.splits)
  have "t \<in> set (zone_types z)" for t
    by (cases t) (auto simp: zone_types_def split: option.splits ZoneType.splits)
  then show "set (zone_types z) = UNIV" by blast
qed

lemma alloc_spec:
  assumes "sys_ok s" "ar_order r \<le> MAX_ORDER"
  shows "(\<exists>t. has_block s (ar_order r) t) \<Longrightarrow>
      \<exists>x s'. BuddyAllocator_alloc s r = Some (Inr (push_bit FRAME_SHIFT x), s') \<and> takes s s' (ar_order r) x"
    and "\<not> (\<exists>t. has_block s (ar_order r) t) \<Longrightarrow>
      BuddyAllocator_alloc s r = Some (Inl OutOfMemory, s\<lparr>ba_stats := record_failure (ba_stats s)\<rparr>)"
  using alloc_zones_spec [OF assms, of "zone_types (ar_zone r)"] assms(2)
  by (auto simp: BuddyAllocator_alloc_def zone_order_types)

end
