(* ===== verification/Buddy_Free.thy ===== *)
theory Buddy_Free
  imports Buddy_System
begin

text \<open>
  Freeing a block, and the allocator with its clients: steps that allocate, free, use the memory
  they hold and retag its frames in the page database.  In every reachable state the blocks that are
  held and the free blocks are pairwise disjoint.
\<close>

section \<open>Freeing\<close>

definition gives :: "MemSystem \<Rightarrow> MemSystem \<Rightarrow> nat \<Rightarrow> u64 \<Rightarrow> bool" where
  "gives s s' k f \<longleftrightarrow> sys_ok s' \<and> sys_free s' = sys_free s \<union> frames f k \<and> (\<forall>t. same_extent (zone_of s' t) (zone_of s t))
     \<and> (all_no_pairs s \<longrightarrow> all_no_pairs s') \<and> sy_db s' = map_option (\<lambda>d. mark_block_free d (push_bit FRAME_SHIFT f) k) (sy_db s)"

text \<open>A block that can be freed: in its zone, aligned, with no free frame and no misleading contents.\<close>

definition freeable :: "MemSystem \<Rightarrow> u64 \<Rightarrow> nat \<Rightarrow> bool" where
  "freeable s f k \<longleftrightarrow> k \<le> MAX_ORDER \<and> (\<exists>t. block_ok (zone_of s t) k f) \<and> frames f k \<inter> sys_free s = {}
     \<and> (\<forall>g. frame_ok g \<and> unat g \<in> frames f k \<longrightarrow> \<not> fake (hdr (sy_mem s) g))"

definition watched_in :: "MemSystem \<Rightarrow> u64 \<Rightarrow> nat \<Rightarrow> bool" where
  "watched_in s a k \<longleftrightarrow> sy_watched s \<noteq> 0 \<and> a \<le> sy_watched s \<and> sy_watched s < a + push_bit FRAME_SHIFT (push_bit k 1)"

definition validated :: "MemSystem \<Rightarrow> u64 \<Rightarrow> bool" where
  "validated s a \<longleftrightarrow> (case sy_db s of Some d \<Rightarrow> validate_free d (sy_ctx s) a = Inr () | None \<Rightarrow> True)"

lemma frame_addr_aligned: "frame_ok f \<Longrightarrow> is_aligned (push_bit FRAME_SHIFT f) FRAME_SIZE"
proof -
  assume f: "frame_ok f"
  have "page_aligned (push_bit FRAME_SHIFT f)" using unat_frame_addr [OF f] by (simp add: page_aligned_iff)
  then show ?thesis by (simp add: is_aligned_def FRAME_SIZE_def page_aligned_def page_mask_def)
qed

lemma trusted_free:
  assumes "sys_ok s" "block_ok (zone_of s t) k f" "k \<le> MAX_ORDER"
    and "db' = map_option (\<lambda>d. mark_block_free d (push_bit FRAME_SHIFT f) k) (sy_db s)"
  shows "trusted db' z = trusted (sy_db s) z \<union> (frames f k \<inter> zone_set z)" "db_like db' (sy_db s)"
proof -
  have "trusted db' z = trusted (sy_db s) z \<union> (frames f k \<inter> zone_set z) \<and> db_like db' (sy_db s)"
  proof (cases "sy_db s")
    case (Some d)
    then have d: "db_ok d" "zone_set (zone_of s t) \<subseteq> {..<db_count d}" using sys_okD(7) [OF assms(1)] by blast+
    have "frames f k \<subseteq> {..<db_count d}" using block_in_zone_set [OF assms(2,3)] d(2) by blast
    with mark_block_free_spec(1-3) [OF d(1) block_okD(1) [OF assms(2)] block_bounds [OF assms(2,3)] refl]
    show ?thesis using Some assms(4) by (auto simp: trusted_def db_like_def)
  qed (auto simp: assms(4) trusted_def db_like_def)
  then show "trusted db' z = trusted (sy_db s) z \<union> (frames f k \<inter> zone_set z)" "db_like db' (sy_db s)" by blast+
qed

lemma free_in_zone:
  assumes s: "sys_ok s" and k: "k \<le> MAX_ORDER" and f: "block_ok (zone_of s t) k f" and fr: "freeable s f k"
    and db': "db' = map_option (\<lambda>d. mark_block_free d (push_bit FRAME_SHIFT f) k) (sy_db s)"
  shows "\<exists>z' mem'. free_to_zone db' (zone_of s t) (sy_mem s) (push_bit FRAME_SHIFT f) k = Some (z', mem') \<and>
    (\<forall>s'. ba_zones s' = (ba_zones s)[zone_index t := z'] \<and> sy_mem s' = mem' \<and> sy_db s' = db' \<longrightarrow> gives s s' k f)"
proof -
  let ?z = "zone_of s t" and ?L = "blocks_of (zone_of s t) (sy_mem s)"
  note tr = trusted_free [OF s f k db']
  have fz: "frames f k \<subseteq> zone_set ?z" by (rule block_in_zone_set [OF f k])
  have trz: "trusted db' ?z = trusted (sy_db s) ?z \<union> frames f k" using tr(1) [of ?z] fz by blast
  have disj: "frames f k \<inter> free_set ?L = {}" using fr by (auto simp: freeable_def sys_free_def zone_free_def)
  have sync: "free_set ?L \<union> frames f k \<subseteq> trusted db' ?z" using sys_okD(5) [OF s, of t] trz by (auto simp: zone_free_def)
  have cl: "clean (trusted db' ?z) (sy_mem s) ?L"
    using sys_okD(6) [OF s, of t] fr unfolding trz clean_def freeable_def by auto
  from free_to_zone_spec [OF sys_okD(4) [OF s] f k disj sync cl] obtain z' mem' L' where r:
    "free_to_zone db' ?z (sy_mem s) (push_bit FRAME_SHIFT f) k = Some (z', mem')" "zone_rep z' mem' L'" "same_extent z' ?z"
    "free_set L' = free_set ?L \<union> frames f k" "evolves (free_set ?L \<union> frames f k) (sy_mem s) ?L mem' L'" "no_pairs ?L \<longrightarrow> no_pairs L'"
    by blast
  have "gives s s' k f" if "ba_zones s' = (ba_zones s)[zone_index t := z']" "sy_mem s' = mem'" "sy_db s' = db'" for s'
  proof -
    have tz: "trusted db' z' = trusted db' ?z" "zone_set z' = zone_set ?z"
      using trusted_same_extent [OF r(3)] r(3) by (simp_all add: same_extent_def zone_set_def)
    have good: "zone_good (sy_db s') (sy_mem s') t z'"
      unfolding that using sync r(2,4) evolves_clean [OF r(5) cl] tz sys_okD(3) [OF s, of t] by (intro zone_good_intro [OF r(2)]) auto
    have "hdr (sy_mem s') g = hdr (sy_mem s) g" if "frame_ok g" "unat g \<notin> zone_set ?z" for g
      using evolvesD(1) [OF r(5) that(1)] that(2) fz sync trusted_in_zone [of db' ?z] \<open>sy_mem s' = mem'\<close> by auto
    moreover have "trusted (sy_db s') (zone_of s u) = trusted (sy_db s) (zone_of s u)" if "u \<noteq> t" for u
      using tr(1) [of "zone_of s u"] fz zone_sets_disjoint [OF s that] \<open>sy_db s' = db'\<close> by blast
    moreover have "db_like (sy_db s') (sy_db s)" using tr(2) that by simp
    ultimately have up: "sys_ok s'" "sys_free s' = zone_free z' (sy_mem s') \<union> (sys_free s - zone_set ?z)"
      "same_extent (zone_of s' u) (zone_of s u)" "no_pairs (blocks_of z' (sy_mem s')) \<Longrightarrow> all_no_pairs s \<Longrightarrow> all_no_pairs s'" for u
      using sys_update [OF s good r(3) that(1)] by simp_all
    have "zone_free z' (sy_mem s') = zone_free ?z (sy_mem s) \<union> frames f k"
      using zone_free_eq [OF r(2)] r(4) that by (simp add: zone_free_def)
    then have "sys_free s' = sys_free s \<union> frames f k" using up(2) sys_free_in_zone [OF s, of t] by blast
    moreover have "all_no_pairs s \<longrightarrow> all_no_pairs s'"
      using up(4) r(6) blocks_of_cong(6) [OF r(2)] that by (auto simp: all_no_pairs_def)
    ultimately show ?thesis unfolding gives_def using up(1,3) that db' by blast
  qed
  with r(1) show ?thesis by blast
qed

lemma sy_watched_set_zone: "sy_watched (set_zone s i z mem) = sy_watched s"
  by (simp add: set_zone_def)

lemma free_spec:
  assumes s: "sys_ok s" and fr: "freeable s f k" and v: "validated s (push_bit FRAME_SHIFT f)" and w: "\<not> watched_in s (push_bit FRAME_SHIFT f) k"
  shows "\<exists>s'. BuddyAllocator_free s (push_bit FRAME_SHIFT f) k = Some (Inr (), s') \<and> gives s s' k f \<and> sy_watched s' = sy_watched s"
proof -
  obtain t where t: "block_ok (zone_of s t) k f" and k: "k \<le> MAX_ORDER" using fr by (auto simp: freeable_def)
  have ff: "frame_ok f" by (rule block_okD(1) [OF t])
  have zs: "unat f \<in> zone_set (zone_of s t)" using block_in_zone_set [OF t k] head_in_frames [of f k] by blast
  then have fa: "for_address (push_bit FRAME_SHIFT f) = t" using sys_okD(3) [OF s, of t] for_address_type [OF ff] by blast
  have ne: "\<not> zone_is_empty (zone_of s t)" using zs by (auto simp: zone_set_def zone_is_empty_def)
  define db' where "db' = map_option (\<lambda>d. mark_block_free d (push_bit FRAME_SHIFT f) k) (sy_db s)"
  from free_in_zone [OF s k t fr db'_def] obtain z' mem' where z: "free_to_zone db' (zone_of s t) (sy_mem s) (push_bit FRAME_SHIFT f) k = Some (z', mem')"
    "\<And>s'. ba_zones s' = (ba_zones s)[zone_index t := z'] \<and> sy_mem s' = mem' \<and> sy_db s' = db' \<Longrightarrow> gives s s' k f" by blast
  have v': "(case sy_db s of Some db \<Rightarrow> validate_free db (sy_ctx s) (push_bit FRAME_SHIFT f) \<noteq> Inr () | None \<Rightarrow> False) = False"
    using v by (auto simp: validated_def split: option.splits)
  show ?thesis
    using k frame_addr_aligned [OF ff] w v' fa ne z
    by (simp add: BuddyAllocator_free_def watched_in_def [symmetric] Let_def db'_def [symmetric] vmstat_add_def sy_watched_set_zone
        del: push_bit_of_1 push_bit_push_bit)
qed

text \<open>
  The block itself decides whether it counts as linked: a client that leaves the magic number, a small
  order and a link in its first words has its block dropped.
\<close>

lemma free_drops_linked_payload:
  assumes "frame_ok f" "fake (hdr mem f)"
  shows "free_to_zone db z mem (push_bit FRAME_SHIFT f) k = Some (z, mem)"
  using assms by (simp add: free_to_zone_def Let_def already_linked_def fake_def hdr_def)

end
