(* ===== verification/Buddy_Clients.thy ===== *)
theory Buddy_Clients
  imports Buddy_Free
begin

text \<open>
  The allocator among its clients.  A state is the memory system with the blocks that were handed out
  and not yet given back, as pairs of an address and an order.  A client writes what it likes into its
  own frames and retags them in the page database; when it frees a block, no frame of the block starts
  with what looks like the header of a linked free block.
\<close>

section \<open>Steps\<close>

type_synonym clients = "MemSystem \<times> (PhysAddr \<times> nat) list"

definition held :: "PhysAddr \<times> nat \<Rightarrow> nat set" where
  "held b = frames (drop_bit FRAME_SHIFT (fst b)) (snd b)"

inductive mm_step :: "clients \<Rightarrow> clients \<Rightarrow> bool" where
  alloc_ok: "BuddyAllocator_alloc s r = Some (Inr a, s') \<Longrightarrow> mm_step (s, H) (s', (a, ar_order r) # H)"
| alloc_err: "BuddyAllocator_alloc s r = Some (Inl e, s') \<Longrightarrow> mm_step (s, H) (s', H)"
| free_ok: "(a, k) \<in> set H \<Longrightarrow> (\<forall>g. frame_ok g \<and> unat g \<in> held (a, k) \<longrightarrow> \<not> fake (hdr (sy_mem s) g)) \<Longrightarrow>
    BuddyAllocator_free s a k = Some (Inr (), s') \<Longrightarrow> mm_step (s, H) (s', remove1 (a, k) H)"
| free_err: "BuddyAllocator_free s a k = Some (Inl e, s') \<Longrightarrow> mm_step (s, H) (s', H)"
| use_memory: "b \<in> set H \<Longrightarrow> frame_ok g \<Longrightarrow> unat g \<in> held b \<Longrightarrow> mm_step (s, H) (s\<lparr>sy_mem := set_hdr (sy_mem s) g v\<rparr>, H)"
| use_as_pagetable: "b \<in> set H \<Longrightarrow> pfn p \<in> held b \<Longrightarrow> sy_db s = Some d \<Longrightarrow>
    mm_step (s, H) (s\<lparr>sy_db := Some (mark_pagetable d p w)\<rparr>, H)"
| share: "b \<in> set H \<Longrightarrow> pfn p \<in> held b \<Longrightarrow> sy_db s = Some d \<Longrightarrow> mm_step (s, H) (s\<lparr>sy_db := Some (snd (ref_inc d p))\<rparr>, H)"
| unshare: "b \<in> set H \<Longrightarrow> pfn p \<in> held b \<Longrightarrow> sy_db s = Some d \<Longrightarrow> mm_step (s, H) (s\<lparr>sy_db := Some (snd (ref_dec d p))\<rparr>, H)"

definition in_use :: "PageDatabase \<Rightarrow> nat \<Rightarrow> bool" where
  "in_use d n \<longleftrightarrow> (\<exists>fr. frame_at d n = Some fr \<and> pf_flags fr \<noteq> PF_FREE)"

definition block_held :: "MemSystem \<Rightarrow> PageDatabase \<Rightarrow> PhysAddr \<times> nat \<Rightarrow> bool" where
  "block_held s d b \<longleftrightarrow> snd b \<le> MAX_ORDER \<and> (\<forall>n\<in>held b. in_use d n)
     \<and> (\<exists>f t. fst b = push_bit FRAME_SHIFT f \<and> block_ok (zone_of s t) (snd b) f)"

definition mm_inv :: "clients \<Rightarrow> bool" where
  "mm_inv c \<longleftrightarrow> sys_ok (fst c) \<and> (\<exists>d. sy_db (fst c) = Some d \<and> (\<forall>b\<in>set (snd c). block_held (fst c) d b))
     \<and> sorted_wrt (\<lambda>b b'. held b \<inter> held b' = {}) (snd c)"

lemma in_use_not_free: "in_use d n \<Longrightarrow> n \<notin> db_free d"
  by (auto simp: in_use_def db_free_def pf_is_free_def)

lemma held_frame: "frame_ok f \<Longrightarrow> held (push_bit FRAME_SHIFT f, k) = frames f k"
  by (simp add: held_def)

lemma sorted_wrt_remove1: "sorted_wrt P xs \<Longrightarrow> sorted_wrt P (remove1 x xs)"
  using set_remove1_subset by (induction xs) fastforce+

lemma sys_free_db: "sys_ok s \<Longrightarrow> sy_db s = Some d \<Longrightarrow> sys_free s \<subseteq> db_free d"
  using sys_okD(5) [of s] by (fastforce simp: sys_free_def trusted_def)

lemma held_not_free:
  assumes "mm_inv (s, H)" "b \<in> set H"
  shows "held b \<inter> sys_free s = {}"
  using assms sys_free_db in_use_not_free unfolding mm_inv_def block_held_def by fastforce

text \<open>Steps that leave the zones alone.\<close>

lemma mm_inv_retag:
  assumes inv: "mm_inv (s, H)" and d: "sy_db s = Some d" and d': "db_ok d'" "db_count d' = db_count d" "db_free d' = db_free d"
    "\<And>n. in_use d n \<Longrightarrow> in_use d' n"
  shows "mm_inv (s\<lparr>sy_db := Some d'\<rparr>, H)"
proof -
  have "trusted (Some d') z = trusted (sy_db s) z" for z using d d'(3) by (simp add: trusted_def)
  then have "sys_ok (s\<lparr>sy_db := Some d'\<rparr>)" using inv d d'(1,2) by (simp add: mm_inv_def sys_ok_def zone_good_def)
  then show ?thesis using inv d d'(4) by (auto simp: mm_inv_def block_held_def)
qed

lemma mm_inv_use:
  assumes inv: "mm_inv (s, H)" and b: "b \<in> set H" and g: "frame_ok g" "unat g \<in> held b"
  shows "mm_inv (s\<lparr>sy_mem := set_hdr (sy_mem s) g v\<rparr>, H)"
proof -
  let ?mem = "set_hdr (sy_mem s) g v"
  obtain d where d: "sys_ok s" "sy_db s = Some d" "block_held s d b" using inv b by (auto simp: mm_inv_def)
  then have nf: "unat g \<notin> db_free d" using g in_use_not_free by (auto simp: block_held_def)
  have "zone_good (sy_db s) ?mem t (zone_of s t)" for t
  proof -
    let ?z = "zone_of s t" and ?L = "blocks_of (zone_of s t) (sy_mem s)"
    note rep = sys_okD(4) [OF d(1), of t]
    have sub: "free_set ?L \<subseteq> db_free d" using sys_okD(5) [OF d(1), of t] d(2) by (auto simp: zone_free_def trusted_def)
    then have gh: "g \<notin> heads ?L" using nf by (intro not_in_heads) blast
    have "zone_rep ?z ?mem ?L"
    proof (rule zone_rep_heads [OF rep])
      fix x assume x: "x \<in> heads ?L"
      then have "x \<noteq> g" using gh by blast
      then show "hdr ?mem x = hdr (sy_mem s) x" using g(1) heads_ok [OF zone_repD(1) [OF rep] x] by simp
    qed
    moreover have "clean (trusted (sy_db s) ?z) ?mem ?L"
      using sys_okD(6) [OF d(1), of t] nf d(2) g(1) by (auto simp: clean_def trusted_def)
    ultimately show ?thesis using sys_okD(3,5) [OF d(1), of t] by (intro zone_good_intro) (auto simp: zone_free_def)
  qed
  then have "sys_ok (s\<lparr>sy_mem := ?mem\<rparr>)" using d(1,2) by (simp add: sys_ok_def)
  then show ?thesis using inv by (auto simp: mm_inv_def block_held_def)
qed

section \<open>The operations on the page database\<close>

lemma in_use_update:
  assumes "db_ok d" "in_use d n" "\<And>f. pf_flags f \<noteq> PF_FREE \<Longrightarrow> pf_flags (u f) \<noteq> PF_FREE"
  shows "in_use (update_frame d p u) n"
  using assms by (auto simp: in_use_def frame_at_update)

lemma retag_free:
  assumes "db_ok d" "in_use d (pfn p)" "\<And>f. pf_flags f \<noteq> PF_FREE \<Longrightarrow> pf_flags (u f) \<noteq> PF_FREE"
  shows "db_free (update_frame d p u) = db_free d"
proof -
  obtain fr where fr: "frame_at d (pfn p) = Some fr" "pf_flags fr \<noteq> PF_FREE" using assms(2) by (auto simp: in_use_def)
  have "n \<in> db_free (update_frame d p u) \<longleftrightarrow> n \<in> db_free d" for n
    using fr assms(3) [OF fr(2)] by (cases "n = pfn p") (auto simp: db_free_def frame_at_update [OF assms(1)] pf_is_free_def)
  then show ?thesis by blast
qed

lemma flags_nonfree: "PF_ALLOCATED OR PF_PAGETABLE \<noteq> PF_FREE" "PF_ALLOCATED \<noteq> PF_FREE"
  by (simp_all add: pf_flag_defs)

definition retags :: "PageDatabase \<Rightarrow> PhysAddr \<Rightarrow> PageDatabase \<Rightarrow> bool" where
  "retags d p d' \<longleftrightarrow> db_ok d' \<and> db_count d' = db_count d \<and> db_free d' = db_free d \<and> (\<forall>n. in_use d n \<longrightarrow> in_use d' n)"

lemma retags_update:
  assumes "db_ok d" "in_use d (pfn p)" "\<And>f. pf_flags f \<noteq> PF_FREE \<Longrightarrow> pf_flags (u f) \<noteq> PF_FREE"
  shows "retags d p (update_frame d p u)"
  using retag_free [OF assms] in_use_update [OF assms(1) _ assms(3)] assms(1) by (simp add: retags_def)

lemma retags_ops:
  assumes d: "db_ok d" "in_use d (pfn p)"
  shows "retags d p (mark_pagetable d p w)" "retags d p (snd (ref_inc d p))" "retags d p (snd (ref_dec d p))"
proof -
  show "retags d p (mark_pagetable d p w)"
    unfolding mark_pagetable_def using flags_nonfree(1) by (intro retags_update [OF d]) simp
  have same: "retags d p d" using d by (simp add: retags_def)
  show "retags d p (snd (ref_inc d p))"
    unfolding ref_inc_def using retags_update [OF d] same by (auto split: option.splits)
  have one: "retags d p (update_frame d p (\<lambda>f. f\<lparr>pf_refcount := pf_refcount f - 1\<rparr>))" by (rule retags_update [OF d]) simp
  let ?d = "update_frame d p (\<lambda>f. f\<lparr>pf_refcount := pf_refcount f - 1\<rparr>)"
  have "retags ?d p (update_frame ?d p (\<lambda>f. f\<lparr>pf_refcount := 0\<rparr>))"
    using one d by (intro retags_update) (auto simp: retags_def)
  then have two: "retags d p (update_frame ?d p (\<lambda>f. f\<lparr>pf_refcount := 0\<rparr>))" using one by (simp add: retags_def)
  show "retags d p (snd (ref_dec d p))"
    unfolding ref_dec_def using one two same by (auto simp: Let_def split: option.splits)
qed

section \<open>The invariant\<close>

lemma block_held_same_extent:
  assumes "block_held s d b" "\<And>t. same_extent (zone_of s' t) (zone_of s t)" "\<And>n. n \<in> held b \<Longrightarrow> in_use d n \<Longrightarrow> in_use d' n"
  shows "block_held s' d' b"
  using assms same_extent_ok(1) [OF assms(2)] by (simp add: block_held_def)

lemma takes_mm_inv:
  assumes inv: "mm_inv (s, H)" and t: "takes s s' k x" and k: "k \<le> MAX_ORDER"
  shows "mm_inv (s', (push_bit FRAME_SHIFT x, k) # H)"
proof -
  obtain u where b: "block_ok (zone_of s u) k x" using t by (auto simp: takes_def)
  obtain d where d: "sys_ok s" "sy_db s = Some d" "\<And>b. b \<in> set H \<Longrightarrow> block_held s d b" using inv by (auto simp: mm_inv_def)
  have tt: "sys_ok s'" "frame_ok x" "frames x k \<subseteq> sys_free s" "\<And>t. same_extent (zone_of s' t) (zone_of s t)"
    "sy_db s' = Some (mark_block_allocated d (push_bit FRAME_SHIFT x) k)" using t d(2) block_okD(1) [OF b] by (auto simp: takes_def)
  have dok: "db_ok d" using sys_okD(7) [OF d(1,2)] by blast
  let ?d = "mark_block_allocated d (push_bit FRAME_SHIFT x) k"
  note ma = mark_block_allocated_spec [OF dok tt(2) block_bounds [OF b k] refl]
  have new: "in_use ?d n" if "n \<in> frames x k" for n
  proof -
    have "n \<in> db_free d" using that tt(3) sys_free_db [OF d(1,2)] by blast
    then show ?thesis using ma(4) [of n] that flags_nonfree(2) by (auto simp: in_use_def db_free_def)
  qed
  have keep: "in_use ?d n" if "in_use d n" for n
    using that new [of n] ma(4) [of n] by (cases "n \<in> frames x k") (simp_all add: in_use_def)
  have "block_held s' ?d b" if "b \<in> set H" for b
    using block_held_same_extent [OF d(3) [OF that] tt(4)] keep by blast
  moreover have "block_held s' ?d (push_bit FRAME_SHIFT x, k)"
    using new k b same_extent_ok(1) [OF tt(4)] held_frame [OF tt(2)] by (auto simp: block_held_def)
  moreover have "held (push_bit FRAME_SHIFT x, k) \<inter> held b = {}" if "b \<in> set H" for b
    using held_not_free [OF inv that] tt(3) held_frame [OF tt(2)] by auto
  ultimately show ?thesis using tt(1,5) inv by (auto simp: mm_inv_def)
qed

lemma gives_mm_inv:
  assumes inv: "mm_inv (s, H)" and g: "gives s s' k f" and f: "(push_bit FRAME_SHIFT f, k) \<in> set H" "block_ok (zone_of s u) k f" "k \<le> MAX_ORDER"
  shows "mm_inv (s', remove1 (push_bit FRAME_SHIFT f, k) H)"
proof -
  let ?b = "(push_bit FRAME_SHIFT f, k)"
  obtain d where d: "sys_ok s" "sy_db s = Some d" "\<And>b. b \<in> set H \<Longrightarrow> block_held s d b"
    and so: "sorted_wrt (\<lambda>b b'. held b \<inter> held b' = {}) H" using inv by (auto simp: mm_inv_def)
  have gg: "sys_ok s'" "\<And>t. same_extent (zone_of s' t) (zone_of s t)" "sy_db s' = Some (mark_block_free d (push_bit FRAME_SHIFT f) k)"
    using g d(2) by (auto simp: gives_def)
  have dok: "db_ok d" using sys_okD(7) [OF d(1,2)] by blast
  note mf = mark_block_free_spec [OF dok block_okD(1) [OF f(2)] block_bounds [OF f(2,3)] refl]
  obtain xs ys where H: "H = xs @ ?b # ys" "?b \<notin> set xs" using split_list_first [OF f(1)] by blast
  then have rem: "remove1 ?b H = xs @ ys" by (simp add: remove1_append)
  have "block_held s' (mark_block_free d (push_bit FRAME_SHIFT f) k) b" if b: "b \<in> set (remove1 ?b H)" for b
  proof (rule block_held_same_extent [OF d(3) gg(2)])
    show "b \<in> set H" using b set_remove1_subset [of ?b H] by blast
    have "held b \<inter> held ?b = {}" using so b [unfolded rem] unfolding H(1) by (auto simp: sorted_wrt_append)
    then show "in_use (mark_block_free d (push_bit FRAME_SHIFT f) k) n" if "n \<in> held b" "in_use d n" for n
      using that mf(4) [of n] held_frame [OF block_okD(1) [OF f(2)], of k] by (auto simp: in_use_def)
  qed
  then show ?thesis using gg(1,3) sorted_wrt_remove1 [OF so] by (simp add: mm_inv_def)
qed

lemma free_err_same: "BuddyAllocator_free s a k = Some (Inl e, s') \<Longrightarrow> s' = s"
  by (auto simp: BuddyAllocator_free_def Let_def split: if_splits option.splits)

lemma free_ok_cases:
  assumes "BuddyAllocator_free s a k = Some (Inr (), s')"
  obtains "watched_in s a k" "s' = s" | "\<not> watched_in s a k" "validated s a"
proof (cases "watched_in s a k")
  case True
  then have "s' = s" using assms by (auto simp: BuddyAllocator_free_def watched_in_def split: if_splits)
  with True show ?thesis by (rule that(1))
next
  case False
  have "validated s a"
  proof (rule ccontr)
    assume "\<not> validated s a"
    then have "(case sy_db s of Some db \<Rightarrow> validate_free db (sy_ctx s) a \<noteq> Inr () | None \<Rightarrow> False)"
      by (simp add: validated_def split: option.splits)
    then show False using assms False
      by (auto simp: BuddyAllocator_free_def watched_in_def [symmetric] simp del: push_bit_of_1 push_bit_push_bit split: if_splits)
  qed
  with False show ?thesis by (rule that(2))
qed

lemma gives_of_free:
  assumes inv: "mm_inv (s, H)" and b: "(a, k) \<in> set H"
    and clean: "\<forall>g. frame_ok g \<and> unat g \<in> held (a, k) \<longrightarrow> \<not> fake (hdr (sy_mem s) g)"
    and fr: "BuddyAllocator_free s a k = Some (Inr (), s')" and w: "\<not> watched_in s a k"
  obtains f t where "a = push_bit FRAME_SHIFT f" "block_ok (zone_of s t) k f" "k \<le> MAX_ORDER" "held (a, k) = frames f k" "gives s s' k f"
proof -
  obtain d where d: "sys_ok s" "block_held s d (a, k)" using inv b by (auto simp: mm_inv_def)
  then obtain f t where f: "a = push_bit FRAME_SHIFT f" "block_ok (zone_of s t) k f" "k \<le> MAX_ORDER" by (auto simp: block_held_def)
  have h: "held (a, k) = frames f k" using held_frame [OF block_okD(1) [OF f(2)]] f(1) by simp
  have v: "validated s a" using fr by (rule free_ok_cases) (use w in auto)
  have "freeable s f k" using f(2,3) held_not_free [OF inv b] clean unfolding freeable_def h by blast
  then have "gives s s' k f" using free_spec [OF d(1), of f k] w v fr f(1) by auto
  with f h show ?thesis by (rule that)
qed

lemma mm_inv_free:
  assumes inv: "mm_inv (s, H)" and b: "(a, k) \<in> set H"
    and clean: "\<forall>g. frame_ok g \<and> unat g \<in> held (a, k) \<longrightarrow> \<not> fake (hdr (sy_mem s) g)"
    and fr: "BuddyAllocator_free s a k = Some (Inr (), s')"
  shows "mm_inv (s', remove1 (a, k) H)"
  using fr
proof (cases rule: free_ok_cases)
  case 1
  then show ?thesis using inv sorted_wrt_remove1
    by (auto simp: mm_inv_def dest!: subsetD [OF set_remove1_subset [of "(a, k)" H]])
next
  case 2
  obtain f t where f: "a = push_bit FRAME_SHIFT f" "block_ok (zone_of s t) k f" "k \<le> MAX_ORDER" "gives s s' k f"
    by (rule gives_of_free [OF inv b clean fr 2(1)])
  then show ?thesis using gives_mm_inv [OF inv _ _ f(2,3)] b by simp
qed

lemma mm_inv_alloc_err:
  assumes inv: "mm_inv (s, H)" and r: "BuddyAllocator_alloc s r = Some (Inl e, s')"
  shows "mm_inv (s', H)"
proof (cases "ar_order r \<le> MAX_ORDER")
  case True
  have ok: "sys_ok s" using inv by (simp add: mm_inv_def)
  have "s' = s\<lparr>ba_stats := record_failure (ba_stats s)\<rparr>"
    using alloc_spec [OF ok True] r by (cases "\<exists>t. has_block s (ar_order r) t") auto
  then have "sys_ok s'" "sy_db s' = sy_db s" "\<And>t. zone_of s' t = zone_of s t"
    using ok by (simp_all add: sys_ok_def cong: option.case_cong)
  then show ?thesis using inv by (auto simp: mm_inv_def block_held_def)
next
  case False
  then show ?thesis using inv r by (simp add: BuddyAllocator_alloc_def)
qed

lemma mm_inv_alloc_ok:
  assumes inv: "mm_inv (s, H)" and r: "BuddyAllocator_alloc s r = Some (Inr a, s')"
  shows "mm_inv (s', (a, ar_order r) # H)"
proof -
  have k: "ar_order r \<le> MAX_ORDER" using r by (simp add: BuddyAllocator_alloc_def not_less split: if_splits)
  have ok: "sys_ok s" using inv by (simp add: mm_inv_def)
  obtain x where "a = push_bit FRAME_SHIFT x" "takes s s' (ar_order r) x"
    using alloc_spec [OF ok k] r by (cases "\<exists>t. has_block s (ar_order r) t") auto
  then show ?thesis using takes_mm_inv [OF inv _ k] by simp
qed

lemma mm_step_inv: "mm_step c c' \<Longrightarrow> mm_inv c \<Longrightarrow> mm_inv c'"
proof (induction rule: mm_step.induct)
  case (free_err s a k e s' H)
  then show ?case using free_err_same by blast
next
  case (use_as_pagetable b H p s d w)
  then have "block_held s d b" "db_ok d" using sys_okD(7) [of s d] by (auto simp: mm_inv_def)
  then have "db_ok d" "in_use d (pfn p)" using use_as_pagetable(2) by (auto simp: block_held_def)
  from retags_ops(1) [OF this, of w] mm_inv_retag [OF use_as_pagetable(4,3)] show ?case by (auto simp: retags_def)
next
  case (share b H p s d)
  then have "block_held s d b" "db_ok d" using sys_okD(7) [of s d] by (auto simp: mm_inv_def)
  then have "db_ok d" "in_use d (pfn p)" using share(2) by (auto simp: block_held_def)
  from retags_ops(2) [OF this] mm_inv_retag [OF share(4,3)] show ?case by (auto simp: retags_def)
next
  case (unshare b H p s d)
  then have "block_held s d b" "db_ok d" using sys_okD(7) [of s d] by (auto simp: mm_inv_def)
  then have "db_ok d" "in_use d (pfn p)" using unshare(2) by (auto simp: block_held_def)
  from retags_ops(3) [OF this] mm_inv_retag [OF unshare(4,3)] show ?case by (auto simp: retags_def)
qed (auto intro: mm_inv_alloc_ok mm_inv_alloc_err mm_inv_free mm_inv_use)

lemma mm_steps_inv: "mm_step\<^sup>*\<^sup>* c c' \<Longrightarrow> mm_inv c \<Longrightarrow> mm_inv c'"
  by (induction rule: rtranclp_induct) (auto dest: mm_step_inv)

end
