(* ===== verification/Buddy_Init.thy ===== *)
theory Buddy_Init
  imports Buddy_Clients
begin

text \<open>
  Initialisation of the buddy allocator from the memory map, the removal of reserved frames, and the
  audit of the free lists that runs at boot.  On disjoint regions \<open>BuddyAllocator_init\<close> establishes
  the invariant, and the free frames are those of the usable regions except frame 0; every state
  that satisfies the invariant passes the audit.
\<close>

section \<open>Adding memory\<close>

definition align_up :: "PhysAddr \<Rightarrow> u64 \<Rightarrow> PhysAddr" where
  "align_up a n = (a + n - 1) AND NOT (n - 1)"

definition align_down :: "PhysAddr \<Rightarrow> u64 \<Rightarrow> PhysAddr" where
  "align_down a n = a AND NOT (n - 1)"

definition page_align_up :: "PhysAddr \<Rightarrow> PhysAddr" where
  "page_align_up a = align_up a 4096"

definition page_align_down :: "PhysAddr \<Rightarrow> PhysAddr" where
  "page_align_down a = align_down a 4096"

text \<open>The largest order that fits into what remains and suits the alignment of the frame.\<close>

fun fit_order :: "u64 \<Rightarrow> u64 \<Rightarrow> nat \<Rightarrow> nat" where
  "fit_order remaining frame_num 0 = 0"
| "fit_order remaining frame_num (Suc n) =
     (let order = Suc n; block_size = push_bit order 1 * FRAME_SIZE; alignment = push_bit order 1 in
      if block_size \<le> remaining \<and> frame_num AND (alignment - 1) = 0 then order
      else fit_order remaining frame_num n)"

text \<open>Four zero words cover the header.\<close>

definition scrubbed :: FreeBlock where
  "scrubbed = \<lparr>fb_magic = 0, fb_next = 0, fb_prev = 0, fb_order = 0, fb_pad = replicate 7 0\<rparr>"

lemma fit_order_le: "fit_order r f n \<le> n"
  by (induction n) (auto simp: Let_def intro: le_SucI)

lemma fit_order_fits: "FRAME_SIZE \<le> r \<Longrightarrow> push_bit (fit_order r f n) 1 * FRAME_SIZE \<le> r"
  by (induction n) (auto simp: Let_def)

lemma unat_order_size:
  assumes "k \<le> MAX_ORDER"
  shows "unat (push_bit k 1 * FRAME_SIZE) = 2 ^ k * 4096"
proof -
  have "push_bit k 1 * FRAME_SIZE = push_bit FRAME_SHIFT (push_bit k 1)"
    by (simp add: FRAME_SIZE_def FRAME_SHIFT_def push_bit_eq_mult)
  then show ?thesis using unat_block_size [OF assms] by simp
qed

function add_blocks ::
  "MemoryZone \<Rightarrow> PhysMem \<Rightarrow> MemoryStats \<Rightarrow> u64 \<Rightarrow> u64 \<Rightarrow> (MemoryZone \<times> PhysMem \<times> MemoryStats) option" where
  "add_blocks z mem stats addr remaining =
     (if FRAME_SIZE \<le> remaining then
        (let order = fit_order remaining (drop_bit FRAME_SHIFT addr) MAX_ORDER;
             block_size = push_bit order 1 * FRAME_SIZE
         in case add_free_block z (mem(phys_to_virt addr := scrubbed)) order addr of
              None \<Rightarrow> None
            | Some (added, z, mem) \<Rightarrow>
                (let pages = push_bit order 1;
                     z = (if added then add_free_pages z order 1 else z);
                     stats = (if added then stats\<lparr>ms_free_bytes := ms_free_bytes stats + pages * FRAME_SIZE,
                                                 ms_total_bytes := ms_total_bytes stats + pages * FRAME_SIZE\<rparr>
                              else stats)
                 in add_blocks z mem stats (addr + block_size) (remaining - block_size)))
      else Some (z, mem, stats))"
  by pat_completeness auto
termination
proof (relation "measure (\<lambda>(_, _, _, _, r). unat r)", goal_cases)
  case (2 z mem stats addr r order block_size)
  have "block_size \<le> r" using fit_order_fits [OF 2(1)] 2(2,3) by simp
  moreover have "unat block_size > 0" using unat_order_size [OF fit_order_le] 2(2,3) by simp
  ultimately show ?case by (simp add: unat_sub word_le_nat_alt)
qed simp

declare add_blocks.simps [simp del]

definition extend_zone :: "MemoryZone \<Rightarrow> PhysAddr \<Rightarrow> u64 \<Rightarrow> MemoryZone" where
  "extend_zone z start sz =
     (if zone_is_empty z then MemoryZone_init z start sz
      else
        (let new_end = max (start + sz) (mz_base z + mz_size z);
             new_base = min start (mz_base z)
         in z\<lparr>mz_base := new_base, mz_size := new_end - new_base\<rparr>))"

definition add_to_zone :: "MemSystem \<Rightarrow> ZoneType \<Rightarrow> PhysAddr \<Rightarrow> u64 \<Rightarrow> MemSystem option" where
  "add_to_zone s zone_type start sz =
     (let z = extend_zone (ba_zones s ! zone_index zone_type) start sz;
          (addr, remaining) = (if start = 0 \<and> FRAME_SIZE \<le> sz then (start + FRAME_SIZE, sz - FRAME_SIZE) else (start, sz))
      in case add_blocks z (sy_mem s) (ba_stats s) addr remaining of
           None \<Rightarrow> None
         | Some (z, mem, stats) \<Rightarrow> Some ((set_zone s (zone_index zone_type) z mem)\<lparr>ba_stats := stats\<rparr>))"

lemma for_address_end: "current < e \<Longrightarrow> current < min (zone_end (for_address current)) e"
  using order_less_le_trans [of current e "- 1"] by (auto simp: for_address_def)

function add_region_from :: "MemSystem \<Rightarrow> u64 \<Rightarrow> u64 \<Rightarrow> MemSystem option" where
  "add_region_from s current e =
     (if current < e then
        (let zone_type = for_address current; z_end = min (zone_end zone_type) e; region_size = z_end - current in
         case (if FRAME_SIZE \<le> region_size then add_to_zone s zone_type current region_size else Some s) of
           None \<Rightarrow> None
         | Some s \<Rightarrow> add_region_from s z_end e)
      else Some s)"
  by pat_completeness auto
termination
proof (relation "measure (\<lambda>(_, current, e). unat e - unat current)", goal_cases)
  case (2 s current e zone_type z_end)
  have "current < z_end" using for_address_end [OF 2(1)] 2(2,3) by simp
  moreover have "z_end \<le> e" using 2(3) by simp
  ultimately show ?case using 2(1) by (simp add: word_less_nat_alt word_le_nat_alt)
qed simp

declare add_region_from.simps [simp del]

definition add_region :: "MemSystem \<Rightarrow> PhysAddr \<Rightarrow> u64 \<Rightarrow> MemSystem option" where
  "add_region s start sz = add_region_from s start (start + sz)"

fun init_regions :: "MemSystem \<Rightarrow> (PhysAddr \<times> u64 \<times> bool) list \<Rightarrow> MemSystem option" where
  "init_regions s [] = Some s"
| "init_regions s ((start, len, usable) # regions) =
     (if \<not> usable \<or> len = 0 then init_regions s regions
      else
        (let start_aligned = page_align_up start; end_aligned = page_align_down (start + len) in
         if end_aligned \<le> start_aligned then init_regions s regions
         else
           (case add_region s start_aligned (end_aligned - start_aligned) of
              None \<Rightarrow> None
            | Some s \<Rightarrow> init_regions s regions)))"

definition BuddyAllocator_init :: "MemSystem \<Rightarrow> (PhysAddr \<times> u64 \<times> bool) list \<Rightarrow> MemSystem option" where
  "BuddyAllocator_init s regions = map_option (\<lambda>s. s\<lparr>ba_initialized := True\<rparr>) (init_regions s regions)"

section \<open>Reserving frames\<close>

text \<open>The frame and every aligned block around it, the smallest first, until one is on its list.\<close>

fun mark_frame :: "MemSystem \<Rightarrow> u64 \<Rightarrow> nat list \<Rightarrow> MemSystem option" where
  "mark_frame s frame [] = Some s"
| "mark_frame s frame (order # rest) =
     (let zone_type = for_address (frame * FRAME_SIZE);
          block_start_frame = frame AND NOT (push_bit order 1 - 1);
          block_addr = block_start_frame * FRAME_SIZE
      in case remove_from_free_list (ba_zones s ! zone_index zone_type) (sy_mem s) order block_addr of
           None \<Rightarrow> None
         | Some (removed, z, mem) \<Rightarrow>
             (if removed then
                Some ((set_zone s (zone_index zone_type) (add_free_pages z order (- 1)) mem)
                        \<lparr>ba_stats := (ba_stats s)\<lparr>ms_free_bytes := ms_free_bytes (ba_stats s) - push_bit order 1 * FRAME_SIZE\<rparr>\<rparr>)
              else mark_frame (set_zone s (zone_index zone_type) z mem) frame rest))"

fun mark_frames :: "MemSystem \<Rightarrow> u64 list \<Rightarrow> MemSystem option" where
  "mark_frames s [] = Some s"
| "mark_frames s (frame # fs) =
     (case mark_frame s frame [0..<MAX_ORDER + 1] of None \<Rightarrow> None | Some s \<Rightarrow> mark_frames s fs)"

definition mark_used :: "MemSystem \<Rightarrow> PhysAddr \<Rightarrow> u64 \<Rightarrow> MemSystem option" where
  "mark_used s start len =
     (let start_frame = page_align_down start div FRAME_SIZE;
          end_frame = (start + len + FRAME_SIZE - 1) div FRAME_SIZE
      in mark_frames s (map of_nat [unat start_frame..<unat end_frame]))"

section \<open>Reports\<close>

text \<open>\<open>try_lock\<close> tells for each zone whether its lock was free.\<close>

definition zone_info :: "(nat \<Rightarrow> bool) \<Rightarrow> MemSystem \<Rightarrow> (ZoneType \<times> u64 \<times> u64 \<times> u64 list \<times> bool) list" where
  "zone_info try_lock s =
     map (\<lambda>(i, t). if try_lock i
                   then (t, zs_total_pages (mz_stats (ba_zones s ! i)), total_free_pages (ba_zones s ! i),
                         map (\<lambda>order. fl_count (mz_lists (ba_zones s ! i) ! order)) [0..<MAX_ORDER + 1],
                         zone_is_empty (ba_zones s ! i))
                   else (t, 0, 0, replicate (MAX_ORDER + 1) 0, True))
       [(0, Dma), (1, Normal), (2, High)]"

datatype Audit =
    BadHead nat nat u64 u64 u64
  | ChainBad nat nat u64 u64 u64 u8
  | OrderMismatch nat nat u8 u64
  | CountMismatch nat nat u64 u64

text \<open>The walk down one list, for at most the given number of blocks, with its count.\<close>

fun audit_chain :: "PhysMem \<Rightarrow> nat \<Rightarrow> nat \<Rightarrow> nat \<Rightarrow> u64 \<Rightarrow> u64 \<Rightarrow> Audit list \<times> u64" where
  "audit_chain mem zone_idx order 0 walk_addr walk_count = ([], walk_count)"
| "audit_chain mem zone_idx order (Suc n) walk_addr walk_count =
     (let wb = mem (phys_to_virt walk_addr) in
      if fb_magic wb \<noteq> FREE_BLOCK_MAGIC
      then ([ChainBad zone_idx order walk_count walk_addr (fb_magic wb) (fb_order wb)], walk_count)
      else if unat (fb_order wb) \<noteq> order then ([OrderMismatch zone_idx order (fb_order wb) walk_addr], walk_count)
      else if fb_next wb = 0 then ([], walk_count + 1)
      else audit_chain mem zone_idx order n (push_bit FRAME_SHIFT (fb_next wb)) (walk_count + 1))"

definition audit_list :: "PhysMem \<Rightarrow> nat \<Rightarrow> nat \<Rightarrow> FreeListHead \<Rightarrow> Audit list \<times> u32" where
  "audit_list mem zone_idx order l =
     (let count = fl_count l; head = fl_head l in
      if count = 0 \<or> head = 0 then ([], 0)
      else
        (let addr = push_bit FRAME_SHIFT head; block = mem (phys_to_virt addr) in
         if fb_magic block \<noteq> FREE_BLOCK_MAGIC \<or> unat (fb_order block) \<noteq> order
         then ([BadHead zone_idx order addr (fb_magic block) count], 0)
         else
           (let max_walk = (if count < 256 then count else 256);
                (bad, walk_count) = audit_chain mem zone_idx order (unat max_walk) addr 0
            in (bad @ (if walk_count < 256 \<and> walk_count \<noteq> count then [CountMismatch zone_idx order walk_count count] else []), 1))))"

text \<open>What is logged, with the final counts of good and bad lists.\<close>

definition verify_free_lists :: "MemSystem \<Rightarrow> Audit list \<times> u32 \<times> u32" where
  "verify_free_lists s =
     (let rs = [audit_list (sy_mem s) i order (mz_lists (ba_zones s ! i) ! order). i \<leftarrow> [0..<3], order \<leftarrow> [0..<MAX_ORDER + 1]]
      in (concat (map fst rs), sum_list (map snd rs), of_nat (length (concat (map fst rs)))))"

end
