(* ===== verification/Buddy_Boot.thy ===== *)
theory Buddy_Boot
  imports Buddy_Init
begin

text \<open>
  Boot: the loops that hand the memory map to the zones establish the allocator's invariant and put
  exactly the whole frames of the usable regions on the free lists, frame 0 excepted; a state that
  satisfies the invariant passes the audit of its free lists.
\<close>

section \<open>The audit\<close>

lemma audit_chain_dll:
  "dll mem k p c xs \<Longrightarrow> 0 < n \<Longrightarrow> n \<le> length xs \<Longrightarrow>
     audit_chain mem i k n (push_bit FRAME_SHIFT c) w = ([], w + of_nat n)"
proof (induction xs arbitrary: p c n w)
  case (Cons x xs)
  then obtain m where n: "n = Suc m" by (cases n) auto
  have x: "c = x" "canary_ok (hdr mem x) k" "dll mem k x (fb_next (hdr mem x)) xs" using Cons.prems(1) by auto
  show ?case
  proof (cases "m = 0")
    case True
    then show ?thesis using x n by (auto simp: Let_def canary_ok_def hdr_def)
  next
    case False
    then have "xs \<noteq> []" using Cons.prems(3) n by auto
    then have "fb_next (hdr mem x) \<noteq> 0" using x(3) by (cases xs) auto
    then show ?thesis using Cons.IH [OF x(3), of m "w + 1"] x(1,2) n False Cons.prems(3)
      by (auto simp: Let_def canary_ok_def hdr_def algebra_simps)
  qed
qed simp

lemma audit_list_ok:
  assumes rep: "zone_rep z mem L" and k: "k \<le> MAX_ORDER"
  shows "audit_list mem i k (mz_lists z ! k) = ([], if L k = [] then 0 else 1)"
proof (cases "L k = []")
  case True
  then show ?thesis using fl_count_0 [OF zone_repD(2) [OF rep] k] by (simp add: audit_list_def)
next
  case False
  let ?h = "fl_head (mz_lists z ! k)" and ?c = "fl_count (mz_lists z ! k)"
  note li = lists_repD(2,3) [OF zone_repD(2) [OF rep] k]
  have h: "?h \<noteq> 0" "canary_ok (hdr mem ?h) k" using fl_head_cases(1) [OF rep k] False dll_members [OF li(1)] by auto
  have c: "?c \<noteq> 0" using fl_count_0 [OF zone_repD(2) [OF rep] k] False by simp
  define n where "n = unat (if ?c < 256 then ?c else 256)"
  have n: "0 < n" "n \<le> length (L k)" "of_nat n = (if ?c < 256 then ?c else 256)"
    using c li(2) by (auto simp: n_def unat_gt_0 word_less_nat_alt)
  have "audit_chain mem i k n (push_bit FRAME_SHIFT ?h) 0 = ([], if ?c < 256 then ?c else 256)"
    using audit_chain_dll [OF li(1) n(1,2), of i 0] n(3) by simp
  then show ?thesis using h c False by (auto simp: audit_list_def Let_def canary_ok_def hdr_def n_def)
qed

lemma verify_free_lists_ok:
  assumes "sys_ok s"
  shows "fst (verify_free_lists s) = []" "snd (snd (verify_free_lists s)) = 0"
proof -
  have "fst (audit_list (sy_mem s) i k (mz_lists (ba_zones s ! i) ! k)) = []" if i: "i < 3" and k: "k \<le> MAX_ORDER" for i k
  proof -
    have "i = zone_index Dma \<or> i = zone_index Normal \<or> i = zone_index High" using i by auto
    then obtain t where "i = zone_index t" by blast
    then show ?thesis using audit_list_ok [OF sys_okD(4) [OF assms] k] by simp
  qed
  then show e: "fst (verify_free_lists s) = []" by (auto simp: verify_free_lists_def Let_def)
  have "snd (snd (verify_free_lists s)) = of_nat (length (fst (verify_free_lists s)))"
    by (simp only: verify_free_lists_def Let_def prod.sel)
  then show "snd (snd (verify_free_lists s)) = 0" by (simp add: e)
qed

section \<open>Filling a zone\<close>

lemma not_fake_scrubbed [simp]: "\<not> fake scrubbed"
  by (simp add: fake_def scrubbed_def)

lemma aligned_frame:
  fixes f :: u64
  assumes "f AND (push_bit k 1 - 1) = 0" "k < 64"
  shows "2 ^ k dvd unat f"
proof -
  have "push_bit k 1 - 1 = (mask k :: u64)" by (simp add: mask_eq_exp_minus_1)
  then have "take_bit k f = 0" using assms(1) by (simp add: take_bit_eq_mask)
  then have "take_bit k (unat f) = 0" using assms(2) by (metis unsigned_0 unsigned_take_bit_eq)
  then show ?thesis by (simp add: take_bit_eq_mod mod_eq_0_iff_dvd)
qed

lemma fit_order_aligned: "n < 64 \<Longrightarrow> 2 ^ fit_order r f n dvd unat f"
proof (induction n)
  case (Suc n)
  then show ?case using aligned_frame [of f "Suc n"] by (simp add: Let_def del: push_bit_of_1)
qed simp

lemma scrub_spec:
  assumes rep: "zone_rep z mem L" and f: "frame_ok f" "unat f \<notin> free_set L"
  shows "zone_rep z (set_hdr mem f scrubbed) L" "evolves {unat f} mem L (set_hdr mem f scrubbed) L"
proof -
  have nh: "f \<notin> heads L" by (rule not_in_heads [OF f(2)])
  show "zone_rep z (set_hdr mem f scrubbed) L"
    using nh f(1) heads_ok [OF zone_repD(1) [OF rep]] by (intro zone_rep_heads [OF rep]) auto
  show "evolves {unat f} mem L (set_hdr mem f scrubbed) L"
    using f(1) by (intro evolvesI) (auto split: if_splits)
qed

lemma add_blocks_step:
  assumes rep: "zone_rep z mem L" and f: "frame_ok f" "f \<noteq> 0" and m: "0 < m" "unat r = m * 4096"
    and z: "unat (mz_base z) \<le> unat f * 4096" "(unat f + m) * 4096 \<le> unat (mz_base z) + unat (mz_size z)"
      "unat (mz_base z) + unat (mz_size z) < 2 ^ 64"
    and disj: "{unat f..<unat f + m} \<inter> free_set L = {}"
  shows "\<exists>k f' z' mem' st'. k \<le> MAX_ORDER \<and> 2 ^ k \<le> m \<and> unat f' = unat f + 2 ^ k \<and> frame_ok f'
    \<and> add_blocks z mem st (push_bit FRAME_SHIFT f) r = add_blocks z' mem' st' (push_bit FRAME_SHIFT f') (r - push_bit k 1 * FRAME_SIZE)
    \<and> unat (r - push_bit k 1 * FRAME_SIZE) = (m - 2 ^ k) * 4096
    \<and> zone_rep z' mem' (L(k := f # L k)) \<and> same_extent z' z
    \<and> evolves (insert (unat f) (free_set L)) mem L mem' (L(k := f # L k))"
proof -
  define k where "k = fit_order r f MAX_ORDER"
  let ?b = "push_bit k 1 * FRAME_SIZE :: u64" and ?mem = "set_hdr mem f scrubbed"
  have k: "k \<le> MAX_ORDER" unfolding k_def by (rule fit_order_le)
  have r: "FRAME_SIZE \<le> r" using m by (simp add: FRAME_SIZE_def word_le_nat_alt)
  have b: "unat ?b = 2 ^ k * 4096" by (rule unat_order_size [OF k])
  have "?b \<le> r" using fit_order_fits [OF r] by (simp add: k_def)
  then have km: "2 ^ k \<le> m" and rb: "unat (r - ?b) = (m - 2 ^ k) * 4096"
    using b m(2) by (simp_all add: word_le_nat_alt unat_sub diff_mult_distrib)
  have sub: "frames f k \<subseteq> {unat f..<unat f + m}" using km by (auto simp: frames_def)
  have top: "unat f + 2 ^ k < 2 ^ 52" using z(2,3) km by simp
  have "block_in_zone z (push_bit FRAME_SHIFT f) k" using z km by (simp add: block_in_zone_iff [OF f(1) k])
  then have blk: "block_ok z k f" using f fit_order_aligned [of MAX_ORDER r f] by (simp add: block_ok_def k_def MAX_ORDER_def)
  have fr: "unat f \<notin> free_set L" using disjoint_iff [THEN iffD1, OF disj, rule_format, of "unat f"] m(1) by simp
  note sc = scrub_spec [OF rep f(1) fr]
  have "frames f k \<inter> free_set L = {}" "\<not> fake (hdr ?mem f)" using disj sub f(1) by auto
  from add_free_block_spec [OF sc(1) k blk this] obtain z1 mem1 where add:
    "add_free_block z ?mem k (push_bit FRAME_SHIFT f) = Some (True, z1, mem1)" "same_extent z1 z"
    "zone_rep z1 mem1 (L(k := f # L k))" "evolves (insert (unat f) (free_set L)) ?mem L mem1 (L(k := f # L k))" by auto
  define f' where "f' = f + push_bit k 1"
  have p: "unat (push_bit k 1 :: u64) = 2 ^ k" using unat_pow2 [of k] k by (simp add: MAX_ORDER_def)
  have f': "unat f' = unat f + 2 ^ k" using top unfolding f'_def
    by (subst unat_add_no_overflow) (simp_all add: p del: push_bit_of_1)
  have a: "push_bit FRAME_SHIFT f + ?b = push_bit FRAME_SHIFT f'"
    by (simp add: f'_def FRAME_SIZE_def FRAME_SHIFT_def push_bit_eq_mult algebra_simps)
  have fk: "drop_bit FRAME_SHIFT (push_bit FRAME_SHIFT f) = f" using f(1) by simp
  have "add_blocks z mem st (push_bit FRAME_SHIFT f) r =
      add_blocks (add_free_pages z1 k 1) mem1 (st\<lparr>ms_free_bytes := ms_free_bytes st + ?b, ms_total_bytes := ms_total_bytes st + ?b\<rparr>)
        (push_bit FRAME_SHIFT f') (r - ?b)"
    using r add(1) by (subst add_blocks.simps) (simp only: Let_def fk k_def [symmetric] set_hdr_def [symmetric] a if_True option.case prod.case)
  moreover have "evolves (insert (unat f) (free_set L)) mem L mem1 (L(k := f # L k))"
    by (rule evolves_trans [OF sc(2) add(4)]) auto
  ultimately show ?thesis using k km f' rb add(2,3) top same_extent_simps(3)
    by (intro exI [of _ k] exI [of _ f'] exI [of _ "add_free_pages z1 k 1"] exI [of _ mem1]
        exI [of _ "st\<lparr>ms_free_bytes := ms_free_bytes st + ?b, ms_total_bytes := ms_total_bytes st + ?b\<rparr>"])
      (simp add: frame_ok_def)
qed

lemma add_blocks_spec:
  assumes "zone_rep z mem L" "unat a = n * 4096" "0 < n" "unat r = m * 4096"
    "unat (mz_base z) \<le> n * 4096" "(n + m) * 4096 \<le> unat (mz_base z) + unat (mz_size z)"
    "unat (mz_base z) + unat (mz_size z) < 2 ^ 64" "{n..<n + m} \<inter> free_set L = {}"
  shows "\<exists>z' mem' st' L'. add_blocks z mem st a r = Some (z', mem', st') \<and> zone_rep z' mem' L' \<and> same_extent z' z
    \<and> free_set L' = free_set L \<union> {n..<n + m} \<and> evolves (free_set L \<union> {n..<n + m}) mem L mem' L'"
  using assms
proof (induction m arbitrary: z mem L a n r st rule: less_induct)
  case (less m)
  show ?case
  proof (cases "m = 0")
    case True
    then have "unat r < unat FRAME_SIZE" using less.prems(4) by (simp add: FRAME_SIZE_def)
    then have "add_blocks z mem st a r = Some (z, mem, st)" by (subst add_blocks.simps) (simp add: word_le_nat_alt)
    then show ?thesis using less.prems(1) True by auto
  next
    case False
    define f where "f = drop_bit FRAME_SHIFT a"
    have n: "unat f = n" using less.prems(2) by (simp add: f_def FRAME_SHIFT_def drop_bit_eq_div unat_div_distrib)
    have a: "a = push_bit FRAME_SHIFT f"
      using unat_frame_addr [of f] n less.prems(2) by (intro word_unat_eq_iff [THEN iffD2]) (simp add: f_def)
    have fz: "frame_ok f" "f \<noteq> 0" using n less.prems(3) by (auto simp: f_def)
    from add_blocks_step [OF less.prems(1) fz _ less.prems(4), of st] False less.prems(5-8) n
    obtain k f' z1 mem1 st1 where st: "k \<le> MAX_ORDER" "2 ^ k \<le> m" "unat f' = n + 2 ^ k" "frame_ok f'"
      "add_blocks z mem st a r = add_blocks z1 mem1 st1 (push_bit FRAME_SHIFT f') (r - push_bit k 1 * FRAME_SIZE)"
      "unat (r - push_bit k 1 * FRAME_SIZE) = (m - 2 ^ k) * 4096" "zone_rep z1 mem1 (L(k := f # L k))" "same_extent z1 z"
      "evolves (insert n (free_set L)) mem L mem1 (L(k := f # L k))" unfolding a by auto
    let ?L = "L(k := f # L k)"
    have fs: "free_set ?L = free_set L \<union> {n..<n + 2 ^ k}" using free_set_insert [OF st(1)] n by (auto simp: frames_def)
    have ext: "mz_base z1 = mz_base z" "mz_size z1 = mz_size z" using st(8) by (simp_all add: same_extent_def)
    have split: "{n..<n + m} = {n..<n + 2 ^ k} \<union> {n + 2 ^ k..<n + 2 ^ k + (m - 2 ^ k)}" using st(2) by auto
    have new: "{n + 2 ^ k..<n + 2 ^ k + (m - 2 ^ k)} \<inter> free_set L = {}" using less.prems(8) unfolding split by (simp add: Int_Un_distrib2)
    have dj: "{n + 2 ^ k..<n + 2 ^ k + (m - 2 ^ k)} \<inter> free_set ?L = {}" unfolding fs Int_Un_distrib using new by simp
    have pre: "m - 2 ^ k < m" "unat (push_bit FRAME_SHIFT f') = (n + 2 ^ k) * 4096" "0 < n + 2 ^ k"
      "unat (mz_base z1) \<le> (n + 2 ^ k) * 4096" "(n + 2 ^ k + (m - 2 ^ k)) * 4096 \<le> unat (mz_base z1) + unat (mz_size z1)"
      "unat (mz_base z1) + unat (mz_size z1) < 2 ^ 64"
      using False less.prems(5-7) st(2,3) unat_frame_addr [OF st(4)] ext by simp_all
    from less.IH [OF pre(1) st(7) pre(2,3) st(6) pre(4-6) dj, of st1] obtain z2 mem2 st2 L2 where ih:
      "add_blocks z1 mem1 st1 (push_bit FRAME_SHIFT f') (r - push_bit k 1 * FRAME_SIZE) = Some (z2, mem2, st2)" "zone_rep z2 mem2 L2"
      "same_extent z2 z1" "free_set L2 = free_set ?L \<union> {n + 2 ^ k..<n + 2 ^ k + (m - 2 ^ k)}"
      "evolves (free_set ?L \<union> {n + 2 ^ k..<n + 2 ^ k + (m - 2 ^ k)}) mem1 ?L mem2 L2" by blast
    have "evolves (free_set L \<union> {n..<n + m}) mem L mem2 L2"
      using False fs split by (intro evolves_trans [OF st(9) ih(5)]) auto
    then show ?thesis using st(5) ih(1,2,4) same_extent_trans [OF ih(3) st(8)] fs split by auto
  qed
qed

section \<open>The zones during boot\<close>

text \<open>Before the page database exists: every header that looks linked is the head of a free block.\<close>

definition extent_in :: "ZoneType \<Rightarrow> MemoryZone \<Rightarrow> bool" where
  "extent_in t z \<longleftrightarrow> zone_is_empty z \<or>
     unat (zone_start t) \<le> unat (mz_base z) \<and> unat (mz_base z) + unat (mz_size z) \<le> unat (zone_end t)"

definition pristine :: "MemSystem \<Rightarrow> bool" where
  "pristine s \<longleftrightarrow> (\<forall>g. frame_ok g \<and> fake (hdr (sy_mem s) g) \<longrightarrow> (\<exists>t. g \<in> heads (blocks_of (zone_of s t) (sy_mem s))))"

definition boot_ok :: "MemSystem \<Rightarrow> bool" where
  "boot_ok s \<longleftrightarrow> length (ba_zones s) = 3 \<and> sy_db s = None \<and> pristine s
     \<and> (\<forall>t. zone_rep (zone_of s t) (sy_mem s) (blocks_of (zone_of s t) (sy_mem s)) \<and> extent_in t (zone_of s t))"

lemma extent_in_type: "extent_in t z \<Longrightarrow> zone_set z \<subseteq> type_set t"
  by (auto simp: extent_in_def zone_set_def type_set_def zone_is_empty_def)

lemma free_in_zone_set: "zone_rep z mem L \<Longrightarrow> free_set L \<subseteq> zone_set z"
  using block_in_zone_set blocks_okD(2) zone_repD(1) unfolding free_set_def by blast

lemma heads_type: "zone_rep z mem L \<Longrightarrow> extent_in t z \<Longrightarrow> g \<in> heads L \<Longrightarrow> frame_ok g \<and> unat g \<in> type_set t"
  using heads_in_zone zone_repD(1) extent_in_type by blast

lemma boot_sys_ok: "boot_ok s \<Longrightarrow> sys_ok s"
proof -
  assume b: "boot_ok s"
  have "zone_good (sy_db s) (sy_mem s) t (zone_of s t)" for t
  proof -
    let ?L = "\<lambda>t. blocks_of (zone_of s t) (sy_mem s)"
    have r: "zone_rep (zone_of s u) (sy_mem s) (?L u)" "extent_in u (zone_of s u)" for u using b by (auto simp: boot_ok_def)
    have tr: "trusted (sy_db s) (zone_of s t) = zone_set (zone_of s t)" using b by (simp add: boot_ok_def trusted_def)
    have "clean (zone_set (zone_of s t)) (sy_mem s) (?L t)"
      unfolding clean_def
    proof (intro allI impI notI, elim conjE)
      fix g assume g: "frame_ok g" "unat g \<in> zone_set (zone_of s t)" "g \<notin> heads (?L t)" "fake (hdr (sy_mem s) g)"
      then obtain u where u: "g \<in> heads (?L u)" using b by (auto simp: boot_ok_def pristine_def)
      then have "unat g \<in> type_set u" "unat g \<in> type_set t" "u \<noteq> t"
        using heads_type [OF r] extent_in_type [OF r(2)] g(2,3) by auto
      then show False using type_set_disjoint [of u t] by blast
    qed
    then show ?thesis using r free_in_zone_set [OF r(1)] extent_in_type [OF r(2)] by (intro zone_good_intro) (auto simp: tr)
  qed
  then show ?thesis using b by (simp add: sys_ok_def boot_ok_def)
qed

lemma zone_rep_grow:
  assumes rep: "zone_rep z mem L" and l: "mz_lists z' = mz_lists z"
    and g: "\<And>k f. k \<le> MAX_ORDER \<Longrightarrow> block_ok z k f \<Longrightarrow> block_ok z' k f"
  shows "zone_rep z' mem L"
  using rep g unfolding zone_rep_def blocks_ok_def lists_rep_def l by blast

lemma extend_zone_spec:
  assumes rep: "zone_rep z mem L" and ex: "extent_in t z" and a: "unat a = n * 4096" "unat r = m * 4096" "0 < m"
    and ty: "unat (zone_start t) \<le> n * 4096" "(n + m) * 4096 \<le> unat (zone_end t)" and z': "z' = extend_zone z a r"
  shows "zone_rep z' mem L" "extent_in t z'" "unat (mz_base z') \<le> n * 4096" "(n + m) * 4096 \<le> unat (mz_base z') + unat (mz_size z')"
    "unat (mz_base z') + unat (mz_size z') < 2 ^ 64" "mz_lists z' = mz_lists z"
proof -
  let ?b = "unat (mz_base z)" and ?e = "unat (mz_base z) + unat (mz_size z)"
  have top: "unat (zone_end t) < 2 ^ 64" using unat_u64_less [of "zone_end t"] by simp
  have ar: "unat (a + r) = (n + m) * 4096" using a ty(2) top by (subst unat_add_no_overflow) simp_all
  have ext: "unat (mz_base z') = (if zone_is_empty z then n * 4096 else min (n * 4096) ?b)
    \<and> unat (mz_base z') + unat (mz_size z') = (if zone_is_empty z then (n + m) * 4096 else max ((n + m) * 4096) ?e)
    \<and> mz_lists z' = mz_lists z"
  proof (cases "zone_is_empty z")
    case True
    then show ?thesis using a by (simp add: z' extend_zone_def MemoryZone_init_def)
  next
    case False
    then have e: "?e \<le> unat (zone_end t)" using ex by (simp add: extent_in_def)
    have "unat (mz_base z + mz_size z) = ?e" using e top by (subst unat_add_no_overflow) simp_all
    then have mx: "unat (max (a + r) (mz_base z + mz_size z)) = max ((n + m) * 4096) ?e"
      and mn: "unat (min a (mz_base z)) = min (n * 4096) ?b"
      using ar a(1) by (auto simp: max_def min_def word_le_nat_alt)
    have "unat (min a (mz_base z)) \<le> unat (max (a + r) (mz_base z + mz_size z))" unfolding mx mn by simp
    then show ?thesis using False mx mn by (simp add: z' extend_zone_def Let_def unat_sub word_le_nat_alt)
  qed
  show "zone_rep z' mem L"
  proof (rule zone_rep_grow [OF rep])
    fix k f assume k: "k \<le> MAX_ORDER" "block_ok z k f"
    note iff = block_in_zone_iff [OF block_okD(1) [OF k(2)] k(1)]
    have in_z: "?b \<le> unat f * 4096 \<and> (unat f + 2 ^ k) * 4096 \<le> ?e" using block_okD(4) [OF k(2)] iff by blast
    have ne: "\<not> zone_is_empty z"
    proof
      assume "zone_is_empty z"
      then have "?e = ?b" by (simp add: zone_is_empty_def)
      then have "(unat f + 2 ^ k) * 4096 \<le> unat f * 4096" using in_z by linarith
      then show False by simp
    qed
    have "?e \<le> unat (zone_end t)" using ne ex by (simp add: extent_in_def)
    moreover have "unat (mz_base z') \<le> ?b" "unat (mz_base z') + unat (mz_size z') = max ((n + m) * 4096) ?e" using ext ne by simp_all
    ultimately have "block_in_zone z' (push_bit FRAME_SHIFT f) k" using top ty(2) in_z unfolding iff by linarith
    then show "block_ok z' k f" using k(2) by (simp add: block_ok_def)
  qed (use ext in simp)
  have fin: "unat (mz_base z') \<le> n * 4096 \<and> unat (zone_start t) \<le> unat (mz_base z')
    \<and> (n + m) * 4096 \<le> unat (mz_base z') + unat (mz_size z') \<and> unat (mz_base z') + unat (mz_size z') \<le> unat (zone_end t)"
  proof (cases "zone_is_empty z")
    case False
    then have "unat (zone_start t) \<le> ?b" "?e \<le> unat (zone_end t)" using ex by (simp_all add: extent_in_def)
    moreover have "unat (mz_base z') = min (n * 4096) ?b" "unat (mz_base z') + unat (mz_size z') = max ((n + m) * 4096) ?e"
      using ext False by simp_all
    ultimately show ?thesis using ty by linarith
  qed (use ext ty in simp)
  show "extent_in t z'" "unat (mz_base z') \<le> n * 4096" "(n + m) * 4096 \<le> unat (mz_base z') + unat (mz_size z')"
    "unat (mz_base z') + unat (mz_size z') < 2 ^ 64" "mz_lists z' = mz_lists z"
    using fin top ext by (auto simp: extent_in_def)
qed

lemma boot_update:
  assumes b: "boot_ok s" and rep: "zone_rep z' mem' L'" and ext: "extent_in t z'"
    and ev: "evolves S (sy_mem s) (blocks_of (zone_of s t) (sy_mem s)) mem' L'" and S: "S \<subseteq> type_set t"
    and fs: "free_set L' = zone_free (zone_of s t) (sy_mem s) \<union> R"
    and s': "ba_zones s' = (ba_zones s)[zone_index t := z']" "sy_mem s' = mem'" "sy_db s' = None"
  shows "boot_ok s' \<and> sys_free s' = sys_free s \<union> R"
proof -
  let ?L = "\<lambda>u. blocks_of (zone_of s u) (sy_mem s)" and ?L' = "\<lambda>u. blocks_of (zone_of s' u) (sy_mem s')"
  have z: "zone_of s' u = (if u = t then z' else zone_of s u)" for u
    using b zone_index_less by (auto simp: s'(1) boot_ok_def nth_list_update zone_index_inj)
  have r: "zone_rep (zone_of s u) (sy_mem s) (?L u)" "extent_in u (zone_of s u)" for u using b by (auto simp: boot_ok_def)
  have other: "zone_rep (zone_of s u) mem' (?L u)" if u: "u \<noteq> t" for u
  proof (rule zone_rep_heads [OF r(1)])
    fix g assume "g \<in> heads (?L u)"
    then have g: "frame_ok g" "unat g \<in> type_set u" using heads_type [OF r] by auto
    then show "hdr mem' g = hdr (sy_mem s) g" using type_set_disjoint [OF u] S by (intro evolvesD(1) [OF ev]) auto
  qed
  have hf: "heads (?L' u) = (if u = t then heads L' else heads (?L u))"
    "zone_free (zone_of s' u) (sy_mem s') = (if u = t then free_set L' else zone_free (zone_of s u) (sy_mem s))"
    "zone_rep (zone_of s' u) (sy_mem s') (?L' u)" for u
    using blocks_of_cong [OF rep] blocks_of_cong [OF other] rep other by (simp_all add: z s'(2) zone_free_def)
  have "pristine s'"
    unfolding pristine_def
  proof (intro allI impI, elim conjE)
    fix g assume g: "frame_ok g" "fake (hdr (sy_mem s') g)"
    show "\<exists>u. g \<in> heads (?L' u)"
    proof (cases "g \<in> heads L'")
      case True
      then show ?thesis using hf(1) [of t] by auto
    next
      case False
      then have "g \<notin> heads (?L t)" "fake (hdr (sy_mem s) g)" using evolvesD(2) [OF ev g(1)] g(2) by (simp_all add: s'(2))
      moreover from this g(1) b obtain u where u: "g \<in> heads (?L u)" by (auto simp: boot_ok_def pristine_def)
      ultimately have "u \<noteq> t" by blast
      then have "g \<in> heads (?L' u)" using hf(1) [of u] u by simp
      then show ?thesis by blast
    qed
  qed
  moreover have "extent_in u (zone_of s' u)" for u using z r(2) ext by simp
  moreover have "length (ba_zones s') = 3" using b by (simp add: boot_ok_def s'(1))
  ultimately have "boot_ok s'" using hf(3) s'(3) unfolding boot_ok_def by blast
  moreover have "sys_free s' = sys_free s \<union> R"
    using fs by (auto simp: sys_free_def hf(2) split: if_splits)
  ultimately show ?thesis by blast
qed

lemma add_to_zone_spec:
  assumes b: "boot_ok s" and a: "unat a = n * 4096" "unat r = m * 4096" "0 < m"
    and ty: "unat (zone_start t) \<le> n * 4096" "(n + m) * 4096 \<le> unat (zone_end t)"
    and disj: "{n..<n + m} \<inter> sys_free s = {}"
  shows "\<exists>s'. add_to_zone s t a r = Some s' \<and> boot_ok s' \<and> sys_free s' = sys_free s \<union> ({n..<n + m} - {0})"
proof -
  let ?L = "blocks_of (zone_of s t) (sy_mem s)"
  define z' n' m' a' r' where "z' = extend_zone (zone_of s t) a r" "n' = (if n = 0 then 1 else n)" "m' = (if n = 0 then m - 1 else m)"
    "a' = (if n = 0 then a + FRAME_SIZE else a)" "r' = (if n = 0 then r - FRAME_SIZE else r)"
  note d = this
  have rep: "zone_rep (zone_of s t) (sy_mem s) ?L" "extent_in t (zone_of s t)" using b by (auto simp: boot_ok_def)
  note ez = extend_zone_spec [OF rep a ty d(1)]
  have fr: "FRAME_SIZE \<le> r" using a(2,3) by (simp add: FRAME_SIZE_def word_le_nat_alt)
  have a0: "a = 0 \<longleftrightarrow> n = 0" using a(1) by (metis mult_is_0 unat_eq_zero zero_neq_numeral)
  have n': "unat a' = n' * 4096" "0 < n'" "unat r' = m' * 4096" "n' + m' = n + m" "n \<le> n'" "{n'..<n' + m'} = {n..<n + m} - {0}"
  proof -
    have "unat (r - FRAME_SIZE) = (m - 1) * 4096" using fr a(2) by (simp add: unat_sub word_le_nat_alt FRAME_SIZE_def diff_mult_distrib)
    moreover have "n = 0 \<Longrightarrow> unat (a + FRAME_SIZE) = 4096" using a0 by (simp add: FRAME_SIZE_def)
    ultimately show "unat a' = n' * 4096" "0 < n'" "unat r' = m' * 4096" "n' + m' = n + m" "n \<le> n'" "{n'..<n' + m'} = {n..<n + m} - {0}"
      using a by (auto simp: d(2-))
  qed
  have zf: "free_set ?L \<subseteq> sys_free s" by (auto simp: sys_free_def zone_free_def)
  have ran: "unat (mz_base z') \<le> n' * 4096" "(n' + m') * 4096 \<le> unat (mz_base z') + unat (mz_size z')" "{n'..<n' + m'} \<inter> free_set ?L = {}"
    using ez(3,4) n'(4,5) disj zf unfolding n'(6) by (linarith, simp, blast)
  from add_blocks_spec [OF ez(1) n'(1-3) ran(1,2) ez(5) ran(3), of "ba_stats s"] obtain z2 mem2 st2 L2 where add:
    "add_blocks z' (sy_mem s) (ba_stats s) a' r' = Some (z2, mem2, st2)" "zone_rep z2 mem2 L2" "same_extent z2 z'"
    "free_set L2 = free_set ?L \<union> {n'..<n' + m'}" "evolves (free_set ?L \<union> {n'..<n' + m'}) (sy_mem s) ?L mem2 L2" by blast
  have res: "add_to_zone s t a r = Some ((set_zone s (zone_index t) z2 mem2)\<lparr>ba_stats := st2\<rparr>)"
    using add(1) a0 fr by (auto simp: add_to_zone_def Let_def d)
  have ext: "extent_in t z2" using ez(2) add(3) by (simp add: extent_in_def same_extent_def zone_is_empty_def)
  have sub: "free_set ?L \<union> {n'..<n' + m'} \<subseteq> type_set t"
  proof -
    have "x \<in> type_set t" if x: "n \<le> x" "x < n + m" for x
    proof -
      have "n * 4096 \<le> x * 4096" "x * 4096 < (n + m) * 4096" using x by simp_all
      then show ?thesis using ty by (simp add: type_set_def)
    qed
    then have "{n'..<n' + m'} \<subseteq> type_set t" unfolding n'(6) by auto
    then show ?thesis using free_in_zone_set [OF rep(1)] extent_in_type [OF rep(2)] by blast
  qed
  have "boot_ok ((set_zone s (zone_index t) z2 mem2)\<lparr>ba_stats := st2\<rparr>)
    \<and> sys_free ((set_zone s (zone_index t) z2 mem2)\<lparr>ba_stats := st2\<rparr>) = sys_free s \<union> ({n..<n + m} - {0})"
    using b by (intro boot_update [OF b add(2) ext add(5) sub]) (simp_all add: add(4) n'(6) zone_free_def boot_ok_def)
  with res show ?thesis by blast
qed

section \<open>The memory map\<close>

lemma zone_start_le: "zone_start (for_address a) \<le> a"
  by (auto simp: for_address_def not_less)

lemma zone_end_aligned:
  fixes e :: u64
  assumes "unat e = l * 4096"
  shows "\<exists>k. unat (min (zone_end t) e) = k * 4096"
proof (cases t)
  case High
  then show ?thesis using assms by (simp add: min_absorb2)
next
  case Dma
  then have "unat (zone_end t) = 4096 * 4096" by (simp add: DMA_ZONE_END_def)
  then show ?thesis using assms by (cases "zone_end t \<le> e") (auto simp: min_def)
next
  case Normal
  then have "unat (zone_end t) = 1048576 * 4096" by (simp add: NORMAL_ZONE_END_def)
  then show ?thesis using assms by (cases "zone_end t \<le> e") (auto simp: min_def)
qed

lemma add_region_from_spec:
  assumes "boot_ok s" "unat a = n * 4096" "unat e = l * 4096" "{n..<l} \<inter> sys_free s = {}"
  shows "\<exists>s'. add_region_from s a e = Some s' \<and> boot_ok s' \<and> sys_free s' = sys_free s \<union> ({n..<l} - {0})"
  using assms
proof (induction "l - n" arbitrary: s a n rule: less_induct)
  case less
  show ?case
  proof (cases "a < e")
    case False
    then have "{n..<l} = {}" using less.prems(2,3) by (simp add: word_less_nat_alt)
    then show ?thesis using False less.prems(1) by (subst add_region_from.simps) auto
  next
    case True
    define t where "t = for_address a"
    define b where "b = min (zone_end t) e"
    have ab: "a < b" using for_address_end [OF True] by (simp add: b_def t_def)
    obtain k where k: "unat b = k * 4096" using zone_end_aligned [OF less.prems(3)] unfolding b_def by blast
    have nkl: "n < k" "k \<le> l" using ab k less.prems(2,3) by (auto simp: b_def word_less_nat_alt min_def word_le_nat_alt split: if_splits)
    have sz: "unat (b - a) = (k - n) * 4096" using ab k less.prems(2) by (simp add: unat_sub diff_mult_distrib)
    have "FRAME_SIZE \<le> b - a" using sz nkl(1) by (simp add: word_le_nat_alt FRAME_SIZE_def)
    then have step: "add_region_from s a e = (case add_to_zone s t a (b - a) of None \<Rightarrow> None | Some s \<Rightarrow> add_region_from s b e)"
      using True by (subst add_region_from.simps) (simp add: Let_def t_def b_def cong: option.case_cong)
    have ty: "unat (zone_start t) \<le> n * 4096" "(n + (k - n)) * 4096 \<le> unat (zone_end t)"
    proof -
      show "unat (zone_start t) \<le> n * 4096" using zone_start_le [of a] less.prems(2) by (simp add: t_def word_le_nat_alt)
      have "b \<le> zone_end t" by (simp add: b_def)
      then show "(n + (k - n)) * 4096 \<le> unat (zone_end t)" using nkl(1) k by (simp add: word_le_nat_alt)
    qed
    have split: "{n..<l} = {n..<k} \<union> {k..<l}" "{n..<k} \<inter> {k..<l} = {}" "n + (k - n) = k" using nkl by auto
    have dj: "{n..<n + (k - n)} \<inter> sys_free s = {}" "{k..<l} \<inter> sys_free s = {}"
      using less.prems(4) unfolding split(1,3) by blast+
    have "0 < k - n" using nkl by simp
    from add_to_zone_spec [OF less.prems(1,2) sz this ty dj(1)] obtain s1 where s1:
      "add_to_zone s t a (b - a) = Some s1" "boot_ok s1" "sys_free s1 = sys_free s \<union> ({n..<k} - {0})" unfolding split(3) by blast
    have "{k..<l} \<inter> sys_free s1 = {}" using s1(3) dj(2) split(2) by blast
    moreover have "l - k < l - n" using nkl by simp
    ultimately obtain s2 where s2:
      "add_region_from s1 b e = Some s2" "boot_ok s2" "sys_free s2 = sys_free s1 \<union> ({k..<l} - {0})"
      using less.hyps [OF _ s1(2) k less.prems(3)] by blast
    have "sys_free s2 = sys_free s \<union> ({n..<l} - {0})" unfolding split(1) using s1(3) s2(3) by blast
    then show ?thesis using step s1(1) s2(1,2) by simp
  qed
qed

lemma unat_page_align_down: "unat (page_align_down a) = unat a div 4096 * 4096"
proof -
  have "a AND NOT (mask 12) = push_bit FRAME_SHIFT (drop_bit FRAME_SHIFT a)"
    by (rule bit_word_eqI) (auto simp: bit_simps FRAME_SHIFT_def)
  moreover have "(4096 - 1 :: u64) = mask 12" by (simp add: mask_eq_exp_minus_1)
  ultimately have "page_align_down a = push_bit FRAME_SHIFT (drop_bit FRAME_SHIFT a)" by (simp add: page_align_down_def align_down_def)
  then show ?thesis using unat_frame_addr [OF frame_ok_drop, of a] by (simp add: FRAME_SHIFT_def drop_bit_eq_div unat_div_distrib)
qed

lemma unat_page_align_up:
  assumes "unat a + 4095 < 2 ^ 64"
  shows "unat (page_align_up a) = (unat a + 4095) div 4096 * 4096"
proof -
  have "page_align_up a = page_align_down (a + 4095)" by (simp add: page_align_up_def align_up_def page_align_down_def align_down_def add.commute)
  moreover have "unat (a + 4095) = unat a + 4095" using assms by (subst unat_add_no_overflow) simp_all
  ultimately show ?thesis using unat_page_align_down [of "a + 4095"] by simp
qed

text \<open>The whole frames of a usable region.  No region reaches the last page of the address space.\<close>

definition region_frames :: "PhysAddr \<times> u64 \<times> bool \<Rightarrow> nat set" where
  "region_frames = (\<lambda>(start, len, usable). if usable then {n. unat start \<le> n * 4096 \<and> (n + 1) * 4096 \<le> unat start + unat len} else {})"

definition region_ok :: "PhysAddr \<times> u64 \<times> bool \<Rightarrow> bool" where
  "region_ok = (\<lambda>(start, len, usable). unat start + unat len + 4095 < 2 ^ 64)"

lemma region_frames_range:
  assumes "region_ok (a, len, True)"
  shows "region_frames (a, len, True) = {unat (page_align_up a) div 4096..<unat (page_align_down (a + len)) div 4096}"
proof -
  have o: "unat a + unat len + 4095 < 2 ^ 64" using assms by (simp add: region_ok_def)
  have "unat (a + len) = unat a + unat len" using o by (subst unat_add_no_overflow) simp_all
  then have "unat (page_align_down (a + len)) div 4096 = (unat a + unat len) div 4096" "unat (page_align_up a) div 4096 = (unat a + 4095) div 4096"
    using o by (simp_all add: unat_page_align_down unat_page_align_up)
  moreover have "x \<le> n * 4096 \<longleftrightarrow> (x + 4095) div 4096 \<le> n" "(n + 1) * 4096 \<le> x \<longleftrightarrow> n < x div 4096" for x n :: nat
    using div_less_iff_less_mult [of 4096 "x + 4095" "n + 1"] less_eq_div_iff_mult_less_eq [of 4096 "n + 1" x]
    by (auto simp: less_Suc_eq_le Suc_le_eq)
  ultimately show ?thesis by (auto simp: region_frames_def)
qed

lemma init_region_spec:
  assumes b: "boot_ok s" and ok: "region_ok r" and disj: "region_frames r \<inter> sys_free s = {}"
  shows "\<exists>s'. init_regions s (r # rs) = init_regions s' rs \<and> boot_ok s' \<and> sys_free s' = sys_free s \<union> (region_frames r - {0})"
proof -
  obtain a len u where r: "r = (a, len, u)" by (cases r)
  let ?a = "page_align_up a" and ?e = "page_align_down (a + len)"
  show ?thesis
  proof (cases "\<not> u \<or> len = 0 \<or> ?e \<le> ?a")
    case True
    have "region_frames r = {}"
    proof (cases "u \<and> len \<noteq> 0")
      case True
      then have "unat ?e div 4096 \<le> unat ?a div 4096" using \<open>\<not> u \<or> len = 0 \<or> ?e \<le> ?a\<close> by (simp add: word_le_nat_alt div_le_mono)
      then show ?thesis using True ok region_frames_range [of a len] by (simp add: r)
    qed (auto simp: r region_frames_def)
    then show ?thesis using True b by (auto simp: r Let_def)
  next
    case False
    then have lt: "u" "len \<noteq> 0" "\<not> ?e \<le> ?a" by auto
    define n l where "n = unat ?a div 4096" "l = unat ?e div 4096"
    have o: "unat a + 4095 < 2 ^ 64" using ok by (simp add: r region_ok_def)
    have n: "unat ?a = n * 4096" "unat ?e = l * 4096" using unat_page_align_up [OF o] unat_page_align_down [of "a + len"] by (simp_all add: n_l_def)
    have rf: "region_frames r = {n..<l}" using region_frames_range [of a len] ok lt(1) by (simp add: r n_l_def)
    from add_region_from_spec [OF b n] disj rf obtain s' where s':
      "add_region_from s ?a ?e = Some s'" "boot_ok s'" "sys_free s' = sys_free s \<union> ({n..<l} - {0})" by auto
    have "?a + (?e - ?a) = ?e" by simp
    then have "init_regions s (r # rs) = init_regions s' rs" using lt s'(1) by (simp add: r Let_def add_region_def)
    then show ?thesis using s'(2,3) rf by auto
  qed
qed

lemma init_regions_spec:
  assumes "boot_ok s" "list_all region_ok rs" "sorted_wrt (\<lambda>r r'. region_frames r \<inter> region_frames r' = {}) rs"
    "(\<Union>r\<in>set rs. region_frames r) \<inter> sys_free s = {}"
  shows "\<exists>s'. init_regions s rs = Some s' \<and> boot_ok s' \<and> sys_free s' = sys_free s \<union> ((\<Union>r\<in>set rs. region_frames r) - {0})"
  using assms
proof (induction rs arbitrary: s)
  case (Cons r rs)
  have d: "region_frames r \<inter> sys_free s = {}" "(\<Union>r\<in>set rs. region_frames r) \<inter> sys_free s = {}"
    "region_frames r \<inter> (\<Union>r\<in>set rs. region_frames r) = {}" using Cons.prems(3,4) by auto
  from init_region_spec [OF Cons.prems(1) _ d(1)] Cons.prems(2) obtain s1 where s1:
    "init_regions s (r # rs) = init_regions s1 rs" "boot_ok s1" "sys_free s1 = sys_free s \<union> (region_frames r - {0})" by auto
  have "(\<Union>r\<in>set rs. region_frames r) \<inter> sys_free s1 = {}" unfolding s1(3) using d(2,3) by blast
  from Cons.IH [OF s1(2) _ _ this] Cons.prems(2,3) s1(1,3) show ?case by auto
qed auto

section \<open>From power-on\<close>

text \<open>A fresh allocator over memory that holds no header which looks linked.\<close>

definition fresh :: "MemSystem \<Rightarrow> bool" where
  "fresh s \<longleftrightarrow> BuddyAllocator.truncate s = BuddyAllocator_new \<and> sy_db s = None \<and> (\<forall>g. frame_ok g \<longrightarrow> \<not> fake (hdr (sy_mem s) g))"

lemma fresh_zone:
  assumes "fresh s"
  shows "ba_zones s = [MemoryZone_new Dma, MemoryZone_new Normal, MemoryZone_new High]"
  using assms by (simp add: fresh_def BuddyAllocator_new_def BuddyAllocator.truncate_def)

lemma zone_rep_new: "zone_rep (MemoryZone_new t) mem (\<lambda>_. [])"
  by (auto simp: zone_rep_def blocks_ok_def lists_rep_def MemoryZone_new_def FreeListHead_new_def nth_append simp del: replicate_Suc)

lemma fresh_boot:
  assumes "fresh s"
  shows "boot_ok s" "sys_free s = {}"
proof -
  have z: "zone_of s t = MemoryZone_new t" for t using fresh_zone [OF assms] by (cases t) simp_all
  have "zone_rep (zone_of s t) (sy_mem s) (\<lambda>_. [])" for t using zone_rep_new z by simp
  note c = blocks_of_cong [OF this]
  show "sys_free s = {}" by (simp add: sys_free_def zone_free_def c(1)) (simp add: free_set_def)
  have "extent_in t (zone_of s t)" for t by (simp add: z extent_in_def zone_is_empty_def MemoryZone_new_def)
  moreover have "zone_rep (zone_of s t) (sy_mem s) (blocks_of (zone_of s t) (sy_mem s))" for t using c(3) zone_rep_new z by simp
  moreover have "pristine s" using assms unfolding fresh_def pristine_def by blast
  ultimately show "boot_ok s" using assms fresh_zone [OF assms] unfolding boot_ok_def fresh_def by simp
qed

lemma init_spec:
  assumes "fresh s" "list_all region_ok rs" "sorted_wrt (\<lambda>r r'. region_frames r \<inter> region_frames r' = {}) rs"
  shows "\<exists>s'. BuddyAllocator_init s rs = Some s' \<and> boot_ok s' \<and> ba_initialized s' \<and> sys_free s' = (\<Union>r\<in>set rs. region_frames r) - {0}"
proof -
  from init_regions_spec [OF fresh_boot(1) [OF assms(1)] assms(2,3)] fresh_boot(2) [OF assms(1)] obtain s' where
    s': "init_regions s rs = Some s'" "boot_ok s'" "sys_free s' = (\<Union>r\<in>set rs. region_frames r) - {0}" by auto
  moreover have "boot_ok (s'\<lparr>ba_initialized := True\<rparr>)" "sys_free (s'\<lparr>ba_initialized := True\<rparr>) = sys_free s'"
    using s'(2) by (simp_all add: boot_ok_def pristine_def sys_free_def)
  ultimately show ?thesis by (simp add: BuddyAllocator_init_def)
qed

text \<open>Attaching the page database.\<close>

lemma attach_db:
  assumes b: "sys_ok s" "sy_db s = None" and d: "db_ok d" "sys_free s \<subseteq> db_free d" "\<And>t. zone_set (zone_of s t) \<subseteq> {..<db_count d}"
  shows "mm_inv (s\<lparr>sy_db := Some d\<rparr>, [])"
proof -
  have "zone_good (Some d) (sy_mem s) t (zone_of s t)" for t
  proof (rule zone_good_intro [OF sys_okD(4) [OF b(1)] _ _ sys_okD(3) [OF b(1)]])
    have f: "zone_free (zone_of s t) (sy_mem s) \<subseteq> sys_free s" by (auto simp: sys_free_def)
    show "free_set (blocks_of (zone_of s t) (sy_mem s)) \<subseteq> trusted (Some d) (zone_of s t)"
      using f d(2) sys_okD(5) [OF b(1), of t] by (auto simp: zone_free_def trusted_def)
    show "clean (trusted (Some d) (zone_of s t)) (sy_mem s) (blocks_of (zone_of s t) (sy_mem s))"
      using sys_okD(6) [OF b(1), of t] b(2) by (auto simp: clean_def trusted_def)
  qed
  then have "sys_ok (s\<lparr>sy_db := Some d\<rparr>)" using b d(1,3) by (simp add: sys_ok_def)
  then show ?thesis by (simp add: mm_inv_def)
qed

end
