(* ===== verification/Buddy_Props.thy ===== *)
theory Buddy_Props
  imports Buddy_Boot
begin

text \<open>
  What the frame allocator promises: allocation and free are exact, the frames of the memory map are
  partitioned between the free lists and the clients at every moment, freeing an allocated block
  restores the free lists, and boot hands over exactly the usable memory.
\<close>

section \<open>Conservation of frames\<close>

definition all_frames :: "clients \<Rightarrow> nat set" where
  "all_frames c = sys_free (fst c) \<union> (\<Union>b\<in>set (snd c). held b)"

lemma alloc_zones_watched: "alloc_zones s k is = Some (r, s') \<Longrightarrow> sy_watched s' = sy_watched s"
proof (induction s k "is" rule: alloc_zones.induct)
  case (2 s k i "is")
  have n: "sy_watched (note_alloc s i z a k) = sy_watched s" "sy_watched (set_zone s i z mem) = sy_watched s" for s z a k mem
    by (simp_all add: note_alloc_def set_zone_def vmstat_add_def Let_def)
  show ?case using 2 by (fastforce simp: Let_def n split: if_splits option.splits prod.splits)
qed simp

lemma alloc_watched: "BuddyAllocator_alloc s r = Some (x, s') \<Longrightarrow> sy_watched s' = sy_watched s"
  using alloc_zones_watched [of s "ar_order r" "zone_order (ar_zone r)"]
  by (fastforce simp: BuddyAllocator_alloc_def split: if_splits option.splits)

lemma free_watched: "BuddyAllocator_free s a k = Some (x, s') \<Longrightarrow> sy_watched s' = sy_watched s"
  by (auto simp: BuddyAllocator_free_def Let_def set_zone_def vmstat_add_def split: if_splits option.splits)

lemma sys_free_use:
  assumes inv: "mm_inv (s, H)" and b: "b \<in> set H" and g: "frame_ok g" "unat g \<in> held b"
  shows "sys_free (s\<lparr>sy_mem := set_hdr (sy_mem s) g v\<rparr>) = sys_free s"
proof -
  have ok: "sys_ok s" using inv by (simp add: mm_inv_def)
  have "zone_free (zone_of s t) (set_hdr (sy_mem s) g v) = zone_free (zone_of s t) (sy_mem s)" for t
  proof -
    note rep = sys_okD(4) [OF ok, of t]
    have "unat g \<notin> sys_free s" using held_not_free [OF inv b] g(2) by blast
    then have gh: "g \<notin> heads (blocks_of (zone_of s t) (sy_mem s))" by (intro not_in_heads) (auto simp: sys_free_def zone_free_def)
    have "zone_rep (zone_of s t) (set_hdr (sy_mem s) g v) (blocks_of (zone_of s t) (sy_mem s))"
    proof (rule zone_rep_heads [OF rep])
      fix x assume x: "x \<in> heads (blocks_of (zone_of s t) (sy_mem s))"
      then have "x \<noteq> g" using gh by blast
      then show "hdr (set_hdr (sy_mem s) g v) x = hdr (sy_mem s) x" using g(1) heads_ok [OF zone_repD(1) [OF rep] x] by simp
    qed
    then show ?thesis unfolding zone_free_def by (rule blocks_of_cong(1))
  qed
  then show ?thesis by (simp add: sys_free_def)
qed

lemma held_remove1:
  assumes "sorted_wrt (\<lambda>b b'. held b \<inter> held b' = {}) H" "b \<in> set H"
  shows "(\<Union>c\<in>set (remove1 b H). held c) = (\<Union>c\<in>set H. held c) - held b"
  using assms
proof (induction H)
  case (Cons c H)
  have ne: "held x \<noteq> {}" for x by (simp add: held_def)
  show ?case
  proof (cases "c = b")
    case True
    then show ?thesis using Cons.prems(1) by auto
  next
    case False
    then have "held c \<inter> held b = {}" using Cons.prems by auto
    then show ?thesis using False Cons by auto
  qed
qed simp

lemma sys_free_simps [simp]: "sys_free (s\<lparr>sy_db := d\<rparr>) = sys_free s" "sys_free (s\<lparr>ba_stats := st\<rparr>) = sys_free s"
  by (simp_all add: sys_free_def)

lemma alloc_err_free:
  assumes "sys_ok s" "BuddyAllocator_alloc s r = Some (Inl e, s')"
  shows "sys_free s' = sys_free s"
proof (cases "ar_order r \<le> MAX_ORDER")
  case True
  then show ?thesis using alloc_spec [OF assms(1) True] assms(2) by (cases "\<exists>t. has_block s (ar_order r) t") auto
next
  case False
  then show ?thesis using assms(2) by (simp add: BuddyAllocator_alloc_def)
qed

lemma alloc_ok_takes:
  assumes "sys_ok s" "BuddyAllocator_alloc s r = Some (Inr a, s')"
  obtains x where "a = push_bit FRAME_SHIFT x" "ar_order r \<le> MAX_ORDER" "takes s s' (ar_order r) x" "held (a, ar_order r) = frames x (ar_order r)"
proof -
  have k: "ar_order r \<le> MAX_ORDER" using assms(2) by (simp add: BuddyAllocator_alloc_def not_less split: if_splits)
  obtain x where x: "a = push_bit FRAME_SHIFT x" "takes s s' (ar_order r) x"
    using alloc_spec [OF assms(1) k] assms(2) by (cases "\<exists>t. has_block s (ar_order r) t") auto
  moreover have "held (a, ar_order r) = frames x (ar_order r)" using x held_frame block_okD(1) by (auto simp: takes_def)
  ultimately show ?thesis using that k by blast
qed

lemma mm_step_frames:
  assumes "mm_step c c'" "mm_inv c" "sy_watched (fst c) = 0"
  shows "sy_watched (fst c') = 0 \<and> all_frames c' = all_frames c"
  using assms
proof (induction rule: mm_step.induct)
  case (alloc_ok s r a s' H)
  then have "sys_ok s" by (simp add: mm_inv_def)
  from alloc_ok_takes [OF this alloc_ok(1)] obtain x where "takes s s' (ar_order r) x" "held (a, ar_order r) = frames x (ar_order r)" .
  then have "sys_free s' = sys_free s - held (a, ar_order r)" "held (a, ar_order r) \<subseteq> sys_free s" by (auto simp: takes_def)
  then show ?case using alloc_ok(3) alloc_watched [OF alloc_ok(1)] by (auto simp: all_frames_def)
next
  case (alloc_err s r e s' H)
  then have "sys_free s' = sys_free s" by (intro alloc_err_free) (simp_all add: mm_inv_def)
  then show ?case using alloc_err(3) alloc_watched [OF alloc_err(1)] by (simp add: all_frames_def)
next
  case (free_ok a k H s s')
  then have w: "sy_watched s' = 0" using free_watched [OF free_ok(3)] by simp
  have inv: "sorted_wrt (\<lambda>b b'. held b \<inter> held b' = {}) H" using free_ok(4) by (auto simp: mm_inv_def)
  have nw: "\<not> watched_in s a k" using free_ok(5) by (simp add: watched_in_def)
  obtain f t where "held (a, k) = frames f k" "gives s s' k f" by (rule gives_of_free [OF free_ok(4,1,2,3) nw])
  then have "sys_free s' = sys_free s \<union> held (a, k)" by (simp add: gives_def)
  then show ?case using w held_remove1 [OF inv free_ok(1)] free_ok(1) by (auto simp: all_frames_def)
next
  case (free_err s a k e s' H)
  then show ?case using free_err_same [OF free_err(1)] by simp
next
  case (use_memory b H g s v)
  then show ?case using sys_free_use [OF use_memory(4,1,2,3)] by (simp add: all_frames_def)
qed (simp_all add: all_frames_def)

lemma mm_steps_frames:
  assumes "mm_step\<^sup>*\<^sup>* c c'" "mm_inv c" "sy_watched (fst c) = 0"
  shows "mm_inv c' \<and> sy_watched (fst c') = 0 \<and> all_frames c' = all_frames c"
  using assms by (induction rule: rtranclp_induct) (auto dest: mm_step_inv mm_step_frames)

section \<open>Allocation, free and their composition\<close>

lemma has_block_complete:
  assumes s: "sys_ok s" "all_no_pairs s" and f: "block_ok (zone_of s t) k f" "k \<le> MAX_ORDER" "frames f k \<subseteq> sys_free s"
  shows "has_block s k t"
proof -
  let ?L = "blocks_of (zone_of s t) (sy_mem s)"
  have "frames f k \<subseteq> free_set ?L"
    using f(3) block_in_zone_set [OF f(1,2)] sys_free_in_zone [OF s(1), of t] unfolding zone_free_def by blast
  moreover have "no_pairs ?L" using s(2) by (simp add: all_no_pairs_def)
  ultimately obtain j g where "k \<le> j" "j \<le> MAX_ORDER" "g \<in> set (?L j)"
    using covered_by_block [OF zone_repD(1) [OF sys_okD(4) [OF s(1)]]] f(1,2) by blast
  then show ?thesis unfolding has_block_def by (metis empty_iff list.set(1))
qed

lemma allocated_freeable:
  assumes ok: "sys_ok s" and t: "takes s s' k x" and k: "k \<le> MAX_ORDER"
    and clean: "\<forall>g. frame_ok g \<and> unat g \<in> frames x k \<longrightarrow> \<not> fake (hdr (sy_mem s') g)"
  shows "freeable s' x k" "validated s' (push_bit FRAME_SHIFT x)"
proof -
  obtain t where b: "block_ok (zone_of s t) k x" using t by (auto simp: takes_def)
  have "block_ok (zone_of s' t) k x" using t b same_extent_ok(1) [of "zone_of s' t" "zone_of s t"] by (simp add: takes_def)
  moreover have "frames x k \<inter> sys_free s' = {}" using t by (auto simp: takes_def)
  ultimately show "freeable s' x k" using k clean unfolding freeable_def by blast
  show "validated s' (push_bit FRAME_SHIFT x)"
  proof (cases "sy_db s")
    case None
    then show ?thesis using t by (simp add: takes_def validated_def)
  next
    case (Some d)
    let ?d = "mark_block_allocated d (push_bit FRAME_SHIFT x) k"
    have d: "db_ok d" "unat x \<in> {..<db_count d}"
      using sys_okD(7) [OF ok Some, of t] block_in_zone_set [OF b k] head_in_frames [of x k] by blast+
    note m = mark_block_allocated_spec [OF d(1) block_okD(1) [OF b] block_bounds [OF b k] refl]
    have p: "pfn (push_bit FRAME_SHIFT x) = unat x" using drop_push_frame [OF block_okD(1) [OF b]] by (simp add: FRAME_SHIFT_def)
    obtain fr where "frame_at d (unat x) = Some fr" using frame_at_tracked [OF d(1), of "unat x"] d(2) by auto
    then have "frame_at ?d (unat x) = Some (fr\<lparr>pf_flags := PF_ALLOCATED, pf_refcount := 1, pf_owner := 0\<rparr>)" using m(4) [of "unat x"] by simp
    then have "validate_free ?d (sy_ctx s') (push_bit FRAME_SHIFT x) = Inr ()"
      unfolding validate_free_ok [OF m(1)] p by (simp add: pf_is_free_def has_flag_def pf_flag_defs)
    then show ?thesis using t Some by (simp add: takes_def validated_def)
  qed
qed

lemma takes_gives_blocks:
  assumes ok: "sys_ok s" and np: "all_no_pairs s" and t: "takes s s1 k x" and g: "gives s1 s2 k x" and j: "j \<le> MAX_ORDER"
  shows "set (blocks_of (zone_of s2 t) (sy_mem s2) j) = set (blocks_of (zone_of s t) (sy_mem s) j)" "sys_free s2 = sys_free s"
proof -
  have ok2: "sys_ok s2" and np2: "all_no_pairs s2" and ext: "same_extent (zone_of s2 t) (zone_of s t)"
    using t g np same_extent_trans [of "zone_of s2 t" "zone_of s1 t" "zone_of s t"] by (simp_all add: takes_def gives_def)
  show fr: "sys_free s2 = sys_free s" using t g by (auto simp: takes_def gives_def)
  have zs: "zone_set (zone_of s2 t) = zone_set (zone_of s t)" using ext by (simp add: same_extent_def zone_set_def)
  have "free_set (blocks_of (zone_of s2 t) (sy_mem s2)) = free_set (blocks_of (zone_of s t) (sy_mem s))"
    using sys_free_in_zone [OF ok2, of t] sys_free_in_zone [OF ok, of t] unfolding zs fr zone_free_def by simp
  moreover have "blocks_ok (zone_of s t) (blocks_of (zone_of s2 t) (sy_mem s2))"
    using zone_repD(1) [OF sys_okD(4) [OF ok2, of t]] same_extent_ok(2) [OF ext] by simp
  ultimately show "set (blocks_of (zone_of s2 t) (sy_mem s2) j) = set (blocks_of (zone_of s t) (sy_mem s) j)"
    using np np2 zone_repD(1) [OF sys_okD(4) [OF ok, of t]] j unfolding all_no_pairs_def by (intro blocks_unique) blast+
qed

section \<open>A small machine\<close>

text \<open>One usable frame, number 2, over zeroed memory; later a page database of four frames.\<close>

definition power_on :: MemSystem where
  "power_on = BuddyAllocator.extend BuddyAllocator_new
     \<lparr>sy_mem = (\<lambda>_. scrubbed), sy_db = None, sy_ctx = 0, sy_watched = 0, sy_vmstat = (\<lambda>_. 0), sy_wmark_cb = False, sy_wmark_calls = []\<rparr>"

definition booted :: MemSystem where
  "booted = the (BuddyAllocator_init power_on [(0x2000, 0x1000, True)])"

definition four_frames :: PageDatabase where
  "four_frames = PageDatabase_init PageDatabase_new (replicate 4 PageFrame_new) 4"

lemma power_on_fresh: "fresh power_on"
  by (simp add: fresh_def power_on_def BuddyAllocator.defs hdr_def BuddyAllocator_new_def)

lemma frame_2: "region_frames (0x2000, 0x1000, True) = {2}"
  by (auto simp: region_frames_def)

lemma booted_ok: "boot_ok booted" "sys_free booted = {2}" "sys_ok booted" "sy_db booted = None"
proof -
  obtain s' where "BuddyAllocator_init power_on [(0x2000, 0x1000, True)] = Some s'" "boot_ok s'" "sys_free s' = {2}"
    using init_spec [OF power_on_fresh, of "[(0x2000, 0x1000, True)]"] frame_2 by (auto simp: region_ok_def)
  then show "boot_ok booted" "sys_free booted = {2}" "sys_ok booted" "sy_db booted = None"
    by (simp_all add: booted_def boot_sys_ok) (simp add: boot_ok_def)
qed

lemma singleton_no_pairs:
  assumes "sys_ok s" "sys_free s = {n}"
  shows "all_no_pairs s"
  unfolding all_no_pairs_def no_pairs_def
proof (intro allI impI ballI notI)
  fix t k f assume k: "k < MAX_ORDER" and f: "f \<in> set (blocks_of (zone_of s t) (sy_mem s) k)" "buddy f k \<in> set (blocks_of (zone_of s t) (sy_mem s) k)"
  have "unat g \<in> sys_free s" if g: "g \<in> set (blocks_of (zone_of s t) (sy_mem s) k)" for g
  proof -
    have "unat g \<in> free_set (blocks_of (zone_of s t) (sy_mem s))" using k g by (intro in_free_setI [of k g]) simp_all
    then show ?thesis by (auto simp: sys_free_def zone_free_def)
  qed
  then have "unat (buddy f k) = unat f" using f assms(2) by (metis singletonD)
  then have "buddy f k = f" by (rule word_unat_eq_iff [THEN iffD2])
  moreover have "bit (buddy f k) k \<noteq> bit f k" using k by (simp add: buddy_def bit_simps MAX_ORDER_def)
  ultimately show False by simp
qed

lemma booted_has_block: "\<exists>t. has_block booted 0 t"
proof -
  have "2 \<in> sys_free booted" by (simp add: booted_ok)
  then obtain t where "2 \<in> free_set (blocks_of (zone_of booted t) (sy_mem booted))" by (auto simp: sys_free_def zone_free_def)
  then obtain k f where "k \<le> MAX_ORDER" "f \<in> set (blocks_of (zone_of booted t) (sy_mem booted) k)" by (rule in_free_setE)
  then show ?thesis unfolding has_block_def by (metis empty_iff le0 list.set(1))
qed

lemma add_blocks_extent: "add_blocks z mem st a r = Some (z', mem', st') \<Longrightarrow> mz_base z' = mz_base z \<and> mz_size z' = mz_size z"
proof (induction z mem st a r rule: add_blocks.induct)
  case (1 z mem st a r)
  have e: "add_free_block z mem k a = Some (b, z', mem') \<Longrightarrow> mz_base z' = mz_base z \<and> mz_size z' = mz_size z" for z mem k b z' mem'
    by (auto simp: add_free_block_def Let_def split: if_splits)
  have p: "mz_base (add_free_pages z k d) = mz_base z" "mz_size (add_free_pages z k d) = mz_size z" for z k d
    by (simp_all add: add_free_pages_def)
  show ?case using "1.prems" "1.IH" e
    by (subst (asm) add_blocks.simps) (fastforce simp: Let_def p split: if_splits option.splits prod.splits)
qed

lemma booted_regions:
  obtains s1 where "init_regions power_on [(0x2000, 0x1000, True)] = Some s1"
  using init_spec [OF power_on_fresh, of "[(0x2000, 0x1000, True)]"] by (auto simp: region_ok_def BuddyAllocator_init_def)

lemma booted_tracked: "zone_set (zone_of booted t) \<subseteq> {..<4}"
proof -
  have al: "page_align_up 0x2000 = 0x2000" "page_align_down 0x3000 = 0x3000"
    by (simp_all add: page_align_up_def align_up_def page_align_down_def align_down_def)
  have z: "zone_of power_on u = MemoryZone_new u" for u using fresh_zone [OF power_on_fresh] by (cases u) simp_all
  have dma: "for_address 0x2000 = Dma" "min (zone_end Dma) 0x3000 = 0x3000" by (simp_all add: for_address_def DMA_ZONE_END_def)
  have stop: "add_region_from s 0x3000 0x3000 = Some s" for s by (subst add_region_from.simps) simp
  obtain s1 where s1: "init_regions power_on [(0x2000, 0x1000, True)] = Some s1" by (rule booted_regions)
  then have "add_to_zone power_on Dma 0x2000 0x1000 = Some s1"
    using dma al stop by (auto simp: Let_def add_region_def add_region_from.simps [of _ "0x2000"] FRAME_SIZE_def split: option.splits)
  then obtain z' mem' st' where add: "add_blocks (extend_zone (MemoryZone_new Dma) 0x2000 0x1000) (sy_mem power_on) (ba_stats power_on) 0x2000 0x1000 = Some (z', mem', st')"
    and s1': "s1 = (set_zone power_on 0 z' mem')\<lparr>ba_stats := st'\<rparr>"
    using z [of Dma] by (auto simp: add_to_zone_def Let_def split: option.splits)
  have "mz_base z' = 0x2000" "mz_size z' = 0x1000"
    using add_blocks_extent [OF add] by (simp_all add: extend_zone_def MemoryZone_init_def MemoryZone_new_def zone_is_empty_def)
  moreover have "zone_of booted t = (if t = Dma then z' else MemoryZone_new t)"
    using s1 s1' z fresh_zone [OF power_on_fresh] by (cases t) (simp_all add: booted_def BuddyAllocator_init_def)
  ultimately show ?thesis by (auto simp: zone_set_def MemoryZone_new_def)
qed

lemma four_frames_ok: "db_ok four_frames" "db_count four_frames = 4" "db_free four_frames = {..<4}"
  by (auto simp: four_frames_def PageDatabase_init_def db_ok_def db_free_def frame_at_def pf_is_free_def PageFrame_new_def nth_replicate)

definition running :: MemSystem where
  "running = booted\<lparr>sy_db := Some four_frames\<rparr>"

lemma running_ok: "mm_inv (running, [])" "sys_free running = {2}" "sys_ok running"
proof -
  show "mm_inv (running, [])" unfolding running_def
    by (rule attach_db [OF booted_ok(3,4)]) (use booted_tracked in \<open>auto simp: four_frames_ok booted_ok(2)\<close>)
  then show "sys_ok running" by (simp add: mm_inv_def)
  show "sys_free running = {2}" by (simp add: running_def booted_ok)
qed

lemma init_watched:
  shows "add_to_zone s t a r = Some s' \<Longrightarrow> sy_watched s' = sy_watched s"
    and "add_region_from s a e = Some s' \<Longrightarrow> sy_watched s' = sy_watched s"
    and "init_regions s rs = Some s' \<Longrightarrow> sy_watched s' = sy_watched s"
proof -
  show zone: "add_to_zone s t a r = Some s' \<Longrightarrow> sy_watched s' = sy_watched s" for s t a r s'
    by (auto simp: add_to_zone_def Let_def set_zone_def split: option.splits if_splits)
  show region: "add_region_from s a e = Some s' \<Longrightarrow> sy_watched s' = sy_watched s" for s a e s'
  proof (induction s a e rule: add_region_from.induct)
    case (1 s a e)
    show ?case using "1.prems" "1.IH" zone
      by (subst (asm) add_region_from.simps) (fastforce simp: Let_def split: if_splits option.splits)
  qed
  show "init_regions s rs = Some s' \<Longrightarrow> sy_watched s' = sy_watched s"
  proof (induction s rs rule: init_regions.induct)
    case (2 s a l u rs)
    then show ?case using region by (fastforce simp: Let_def add_region_def split: if_splits option.splits)
  qed simp
qed

lemma running_watched: "sy_watched running = 0"
proof -
  obtain s1 where s1: "init_regions power_on [(0x2000, 0x1000, True)] = Some s1" by (rule booted_regions)
  then have "sy_watched s1 = 0" using init_watched(3) [OF s1] by (simp add: power_on_def BuddyAllocator.defs)
  then show ?thesis using s1 by (simp add: running_def booted_def BuddyAllocator_init_def)
qed

lemma booted_alloc:
  obtains x s' where "BuddyAllocator_alloc booted (AllocRequest_new 0) = Some (Inr (push_bit FRAME_SHIFT x), s')" "takes booted s' 0 x"
    "freeable s' x 0" "validated s' (push_bit FRAME_SHIFT x)" "\<not> watched_in s' (push_bit FRAME_SHIFT x) 0"
proof -
  have o: "ar_order (AllocRequest_new 0) = 0" by (simp add: AllocRequest_new_def)
  obtain x s' where a: "BuddyAllocator_alloc booted (AllocRequest_new 0) = Some (Inr (push_bit FRAME_SHIFT x), s')" and t: "takes booted s' 0 x"
    using alloc_spec(1) [OF booted_ok(3), of "AllocRequest_new 0"] booted_has_block unfolding o by auto
  have "\<not> fake (hdr (sy_mem s') g)" if g: "frame_ok g" "unat g \<in> frames x 0" for g
  proof -
    obtain u where u: "block_ok (zone_of booted u) 0 x" using t by (auto simp: takes_def)
    have ok': "sys_ok s'" "sy_db s' = None" "zone_set (zone_of s' u) = zone_set (zone_of booted u)" "unat g \<notin> sys_free s'"
      using t g(2) by (auto simp: takes_def booted_ok(4) same_extent_def zone_set_def)
    then have "unat g \<in> trusted (sy_db s') (zone_of s' u)"
      using block_in_zone_set [OF u] g(2) by (auto simp: trusted_def)
    moreover have "g \<notin> heads (blocks_of (zone_of s' u) (sy_mem s'))"
      using ok'(4) by (intro not_in_heads) (auto simp: sys_free_def zone_free_def)
    ultimately show ?thesis using cleanD [OF sys_okD(6) [OF ok'(1), of u] g(1)] by blast
  qed
  then have "freeable s' x 0" "validated s' (push_bit FRAME_SHIFT x)" using allocated_freeable [OF booted_ok(3) t] by simp_all
  moreover have "sy_watched s' = 0" using alloc_watched [OF a] running_watched by (simp add: running_def)
  ultimately show ?thesis using that [OF a t] by (simp add: watched_in_def)
qed

lemma running_alloc:
  obtains a s' where "BuddyAllocator_alloc running (AllocRequest_new 0) = Some (Inr a, s')" "mm_step (running, []) (s', [(a, 0)])"
proof -
  have o: "ar_order (AllocRequest_new 0) = 0" by (simp add: AllocRequest_new_def)
  have "\<exists>t. has_block running 0 t" using booted_has_block by (simp add: has_block_def running_def)
  then obtain a s' where a: "BuddyAllocator_alloc running (AllocRequest_new 0) = Some (Inr a, s')"
    using alloc_spec(1) [OF running_ok(3), of "AllocRequest_new 0"] unfolding o by auto
  then show ?thesis using that mm_step.alloc_ok [OF a, of "[]"] by (simp add: o)
qed

section \<open>Properties\<close>



text \<open>
  C2. Allocation is exact.  A request of order at most 10 on a well-formed allocator succeeds exactly
  when some zone has a free block of at least that order; it then returns a block that is aligned to
  its size, lies in one zone and was free, takes exactly its frames off the free lists, marks them in
  the page database and keeps the invariant.  Otherwise it reports \<open>OutOfMemory\<close> and only counts the
  failure.  It never faults.  If no two buddies are free side by side, a request fails only when no
  aligned run of free frames of that size is left.
\<close>

theorem alloc_exact:
  assumes "sys_ok s" "ar_order r \<le> MAX_ORDER"
  shows "(if \<exists>t. has_block s (ar_order r) t
      then \<exists>x s'. BuddyAllocator_alloc s r = Some (Inr (push_bit FRAME_SHIFT x), s') \<and> takes s s' (ar_order r) x
      else BuddyAllocator_alloc s r = Some (Inl OutOfMemory, s\<lparr>ba_stats := record_failure (ba_stats s)\<rparr>))
    \<and> (all_no_pairs s \<longrightarrow> (\<forall>t f. block_ok (zone_of s t) (ar_order r) f \<and> frames f (ar_order r) \<subseteq> sys_free s \<longrightarrow> has_block s (ar_order r) t))"
  using alloc_spec [OF assms] has_block_complete [OF assms(1) _ _ assms(2)] by auto

theorem alloc_exact_witness:
  "\<exists>x s'. BuddyAllocator_alloc booted (AllocRequest_new 0) = Some (Inr (push_bit FRAME_SHIFT x), s') \<and> takes booted s' 0 x"
  using alloc_exact [OF booted_ok(3), of "AllocRequest_new 0"] booted_has_block by (simp add: AllocRequest_new_def)





text \<open>
  C5. Boot.  Initialising a fresh allocator from a memory map whose usable regions share no whole
  frame never faults and establishes the invariant; the free frames are then exactly the whole
  frames of the usable regions, except frame 0, and the boot-time audit of the free lists reports
  nothing.  The regions may be unaligned, in any order, adjacent, and may span several zones.
\<close>

theorem init_exact:
  assumes "fresh s" "list_all region_ok regions" "sorted_wrt (\<lambda>r r'. region_frames r \<inter> region_frames r' = {}) regions"
  shows "\<exists>s'. BuddyAllocator_init s regions = Some s' \<and> ba_initialized s' \<and> sys_ok s'
    \<and> sys_free s' = (\<Union>r\<in>set regions. region_frames r) - {0} \<and> fst (verify_free_lists s') = []"
proof -
  obtain s' where s': "BuddyAllocator_init s regions = Some s'" "boot_ok s'" "ba_initialized s'"
    "sys_free s' = (\<Union>r\<in>set regions. region_frames r) - {0}" using init_spec [OF assms] by (elim exE conjE)
  have "sys_ok s'" by (rule boot_sys_ok [OF s'(2)])
  then show ?thesis using s' verify_free_lists_ok(1) [of s'] by simp
qed

theorem init_exact_witness:
  "\<exists>s'. BuddyAllocator_init power_on [(0x2000, 0x1000, True), (0x9F000, 0x2000, False), (0x100400, 0x3000, True)] = Some s'
    \<and> sys_ok s' \<and> sys_free s' = {2, 257, 258}"
proof -
  have f: "region_frames (0x100400, 0x3000, True) = {257, 258}" "region_frames (0x9F000, 0x2000, False) = {}"
    by (auto simp: region_frames_def)
  have ok: "list_all region_ok [(0x2000, 0x1000, True), (0x9F000, 0x2000, False), (0x100400, 0x3000, True)]" by (simp add: region_ok_def)
  have dj: "sorted_wrt (\<lambda>r r'. region_frames r \<inter> region_frames r' = {}) [(0x2000, 0x1000, True), (0x9F000, 0x2000, False), (0x100400, 0x3000, True)]"
    by (simp add: f frame_2)
  have "(\<Union>r\<in>set [(0x2000, 0x1000, True), (0x9F000, 0x2000, False), (0x100400, 0x3000, True)]. region_frames r) - {0} = {2, 257, 258}"
    by (auto simp: f frame_2)
  with init_exact [OF power_on_fresh ok dj] show ?thesis by (elim exE conjE, intro exI conjI) simp_all
qed

text \<open>
  C6. The representation is well formed in every state: each step of the system, a client's write
  into its own memory included, keeps the invariant that ties the linked free lists, the zones, the
  page database and the blocks handed out together, and the audit of the free lists stays clean.
\<close>

theorem mm_step_well_formed:
  assumes "mm_inv c" "mm_step c c'"
  shows "mm_inv c' \<and> verify_free_lists (fst c') = ([], fst (snd (verify_free_lists (fst c'))), 0)"
proof -
  have inv: "mm_inv c'" by (rule mm_step_inv [OF assms(2,1)])
  then show ?thesis using verify_free_lists_ok [of "fst c'"] by (simp add: mm_inv_def prod_eq_iff)
qed

theorem mm_step_well_formed_witness:
  "\<exists>s' a. BuddyAllocator_alloc running (AllocRequest_new 0) = Some (Inr a, s') \<and> mm_inv (s', [(a, 0)]) \<and> fst (verify_free_lists s') = []"
proof -
  obtain a s' where a: "BuddyAllocator_alloc running (AllocRequest_new 0) = Some (Inr a, s')" "mm_step (running, []) (s', [(a, 0)])"
    by (rule running_alloc)
  have "mm_inv (s', [(a, 0)])" "fst (verify_free_lists s') = []"
    using mm_step_well_formed [OF running_ok(1) a(2)] by (auto simp: prod_eq_iff)
  with a(1) show ?thesis by blast
qed

text \<open>
  C7. Invalid frees are refused and change nothing: an order above 10, an address that is not
  page-aligned, and, with a page database, a block whose first frame is on a free list or is not
  tracked.
\<close>

theorem free_rejects:
  assumes "sys_ok s"
  shows "(MAX_ORDER < k \<longrightarrow> BuddyAllocator_free s a k = Some (Inl InvalidOrder, s))
    \<and> (k \<le> MAX_ORDER \<and> unat a mod 4096 \<noteq> 0 \<longrightarrow> BuddyAllocator_free s a k = Some (Inl NotAligned, s))
    \<and> (k \<le> MAX_ORDER \<and> unat a mod 4096 = 0 \<and> \<not> watched_in s a k \<and> sy_db s = Some d \<and> (pfn a \<in> sys_free s \<or> db_count d \<le> pfn a)
        \<longrightarrow> BuddyAllocator_free s a k = Some (Inl DoubleFree, s))"
proof (intro conjI impI)
  have al: "is_aligned a FRAME_SIZE \<longleftrightarrow> unat a mod 4096 = 0"
  proof -
    have "FRAME_SIZE - 1 = (mask 12 :: u64)" by (simp add: FRAME_SIZE_def mask_eq_exp_minus_1)
    then have "is_aligned a FRAME_SIZE \<longleftrightarrow> take_bit 12 a = 0" by (simp add: is_aligned_def take_bit_eq_mask)
    also have "\<dots> \<longleftrightarrow> unat (take_bit 12 a) = 0" by (simp add: unat_eq_zero)
    also have "\<dots> \<longleftrightarrow> unat a mod 4096 = 0" by (simp add: take_bit_eq_mod unat_mod_distrib)
    finally show ?thesis .
  qed
  show "MAX_ORDER < k \<Longrightarrow> BuddyAllocator_free s a k = Some (Inl InvalidOrder, s)" by (simp add: BuddyAllocator_free_def)
  show "k \<le> MAX_ORDER \<and> unat a mod 4096 \<noteq> 0 \<Longrightarrow> BuddyAllocator_free s a k = Some (Inl NotAligned, s)"
    using al by (simp add: BuddyAllocator_free_def)
  assume h: "k \<le> MAX_ORDER \<and> unat a mod 4096 = 0 \<and> \<not> watched_in s a k \<and> sy_db s = Some d \<and> (pfn a \<in> sys_free s \<or> db_count d \<le> pfn a)"
  then have db: "sy_db s = Some d" by blast
  have d: "db_ok d" using sys_okD(7) [OF assms db] by blast
  have "pfn a \<in> db_free d \<or> frame_at d (pfn a) = None"
    using h sys_free_db [OF assms db] frame_at_tracked [OF d, of "pfn a"] by (meson not_le subsetD)
  then have "validate_free d (sy_ctx s) a \<noteq> Inr ()" unfolding validate_free_ok [OF d] by (auto simp: db_free_def)
  then show "BuddyAllocator_free s a k = Some (Inl DoubleFree, s)"
    using h al by (simp add: BuddyAllocator_free_def watched_in_def del: push_bit_of_1 push_bit_push_bit)
qed

theorem free_rejects_witness: "BuddyAllocator_free running 0x2000 0 = Some (Inl DoubleFree, running)"
proof -
  have "\<not> watched_in running 0x2000 0" using running_watched by (simp add: watched_in_def)
  moreover have "sy_db running = Some four_frames" by (simp add: running_def)
  moreover have "pfn 0x2000 \<in> sys_free running" "unat (0x2000 :: u64) mod 4096 = 0" by (simp_all add: running_ok(2))
  ultimately show ?thesis using free_rejects [OF running_ok(3), where k = 0 and a = "0x2000" and d = four_frames] by simp
qed

end
