(* ===== verification/Spec2Isabelle.thy ===== *)
theory Spec2Isabelle
  imports Vma_Gaps Seccomp Signal Migration Pipe Buddy_Props
begin

text \<open>
  A verification library for the kernel of OXIDE OS.  It models the parts of the kernel that are
  plain computation on their own state: the physical frame allocator with its page database, the
  virtual memory areas of a process, the run queues of the scheduler, signals, system call filters,
  wait queues and pipes.  Each component has one or more theories; this theory imports them all.

  \<^bold>\<open>Conventions.\<close>  A Rust integer is a word of its width, whose arithmetic wraps as in the release
  profile of the kernel; \<open>usize\<close> indices and counts that cannot reach the width are natural numbers, and
  \<open>i8\<close> and \<open>i32\<close> values are integers.  A struct is a record, an enum a datatype, \<open>Type::method\<close> is
  \<open>Type_method\<close>.  A \<open>Result\<close> is a sum whose left summand is the error.  A method that changes its receiver
  returns the new one.  A call that runs under a lock is one step; where the interleaving of such
  steps matters (pipes, wait queues, clients of the frame allocator), it is explicit.  Loops are
  recursive functions with a termination proof; no definition has fuel or an artificial bound.
  Output to the log and code behind debugging features are left out.

  \<^bold>\<open>Shared theories.\<close>
  \<^item> \<^verbatim>\<open>Prelude\<close>: machine integers, page arithmetic, generic lemmas.
  \<^item> \<^verbatim>\<open>Slice\<close>: \<open>binary_search_by\<close> and \<open>partition_point\<close> of \<^verbatim>\<open>rust-std\<close>, used by the area list.
  \<^item> \<^verbatim>\<open>Bitset\<close>, \<^verbatim>\<open>Class_Queue\<close>, \<^verbatim>\<open>Ring\<close>: interfaces as locales.  \<^verbatim>\<open>Bitset\<close> is interpreted on signal sets,
    CPU sets and the priority bitmap, \<^verbatim>\<open>Class_Queue\<close> on the fair and the real-time queue, the byte queue of
    \<^verbatim>\<open>Ring\<close> on the pipe buffer; the lemmas on clients are proved once from the laws.

  \<^bold>\<open>Physical memory\<close> (\<^verbatim>\<open>kernel/mm/mm-core\<close>, \<^verbatim>\<open>kernel/mm/mm-pagedb\<close>).  \<^verbatim>\<open>Page_Db\<close> has the page frame
  database, \<^verbatim>\<open>Buddy\<close> the zones and the free lists threaded through the free memory, \<^verbatim>\<open>Buddy_Ops\<close> splitting,
  coalescing, \<open>alloc\<close> and \<open>free\<close>, \<^verbatim>\<open>Buddy_Init\<close> the initialisation from the memory map, \<open>mark_used\<close> and the
  audit.  Memory is a function from virtual addresses to block headers; a deliberate fault on detected
  corruption is \<^verbatim>\<open>None\<close>.  \<^verbatim>\<open>Buddy_Lists\<close> and \<^verbatim>\<open>Buddy_Zone\<close> show that the doubly linked lists implement
  lists of frame numbers, \<^verbatim>\<open>Buddy_Blocks\<close> and \<^verbatim>\<open>Buddy_Unique\<close> treat splitting and coalescing and show that a
  set of frames has only one decomposition into blocks without free buddies, \<^verbatim>\<open>Buddy_System\<close> and
  \<^verbatim>\<open>Buddy_Free\<close> specify \<open>alloc\<close> and \<open>free\<close> over the three zones and the database, \<^verbatim>\<open>Buddy_Clients\<close> is the step
  relation of the allocator with clients that use their memory, \<^verbatim>\<open>Buddy_Boot\<close> treats initialisation, and
  \<^verbatim>\<open>Buddy_Props\<close> has the properties: frames are never handed out twice and never lost, \<open>alloc\<close> and \<open>free\<close>
  are exact and inverse to each other, invalid frees are refused, and boot frees exactly the usable
  memory.  Two assumptions on clients are explicit: a block is freed by its address and order, and
  its frames do not start with what looks like the header of a linked block (the allocator inspects
  the memory it is given back; \<open>free_drops_linked_payload\<close> shows what happens otherwise).

  \<^bold>\<open>Virtual memory areas\<close> (\<^verbatim>\<open>kernel/mm/mm-vma\<close>, parts of \<^verbatim>\<open>address_space.rs\<close>).  \<^verbatim>\<open>Vma\<close> has the sorted vector of areas and
  shows that insertion, removal and lookup implement an address map; \<^verbatim>\<open>Vma_Gaps\<close> shows that
  \<open>find_free_region\<close> returns free, aligned regions and finds one whenever there is one.

  \<^bold>\<open>Scheduler\<close> (\<^verbatim>\<open>kernel/sched\<close>).  \<^verbatim>\<open>Sched_Types\<close> and \<^verbatim>\<open>Task\<close> have the shared types, tasks and the FPU buffer,
  \<^verbatim>\<open>Binheap\<close> and \<^verbatim>\<open>Cfs\<close> the fair class as a heap ordered by virtual runtime, \<^verbatim>\<open>Rt\<close> the real-time class as
  one FIFO per priority, \<^verbatim>\<open>Runqueue\<close> the run queue of a CPU.  \<^verbatim>\<open>Runqueue_Inv\<close> ties slots, queues and counters
  together, \<^verbatim>\<open>Runqueue_Steps\<close> shows that every sequence of operations keeps that invariant and that every queued
  task is dispatched, \<^verbatim>\<open>Migration\<close> has the properties of two CPUs, of the class order and of the time slice.

  \<^bold>\<open>Signals\<close> (\<^verbatim>\<open>kernel/signal/signal\<close>).  \<^verbatim>\<open>Signal_Set\<close> and \<^verbatim>\<open>Signal\<close>: sets, actions, the pending set and delivery;
  lowest deliverable signal first, agreement of the two decision functions, and the round trip of the
  signal frame.

  \<^bold>\<open>System call filters\<close> (\<^verbatim>\<open>kernel/container/seccomp\<close>).  \<^verbatim>\<open>Seccomp\<close>: the BPF interpreter decides within as many steps as
  the program has instructions, and filters only ever restrict.

  \<^bold>\<open>Pipes\<close> (\<^verbatim>\<open>kernel/core/waitqueue\<close>, \<^verbatim>\<open>kernel/vfs/vfs\<close>).  \<^verbatim>\<open>Waitqueue\<close>, \<^verbatim>\<open>Vfs_Error\<close>, \<^verbatim>\<open>Pipe\<close>: bytes come out in the order
  they went in, every branch of the two ends is characterised, and a registered waiter is woken.

  \<^bold>\<open>Interaction.\<close>  The frame allocator consults and updates the page database; the run queue uses the two
  class queues through \<^verbatim>\<open>Class_Queue\<close>; pipes wake processes through wait queues; the area list searches with
  \<^verbatim>\<open>Slice\<close>.  The process, system call and fault layers that connect the rest are not modelled.

  \<^bold>\<open>Bounds.\<close>  Frame numbers are below \<open>2 ^ 52\<close>, so that their addresses fit 64 bits; memory regions end before
  the last page of the address space, where aligning upwards would wrap.  The array sizes (256 slots
  and heap entries, eight tasks per real-time priority, sixteen waiters, 64 KiB per pipe, eleven
  orders) are those of the code.

  \<^bold>\<open>Not modelled.\<close>  Page tables, copy on write, context switching, drivers and the architecture layers, whose
  meaning is that of the hardware; the heap, slabs, page cache, reclaim and swap; the file systems
  beyond pipes, the network stack, terminals and graphics, cryptography, user space.  Within the
  modelled components: locks and atomic orderings (an operation is one step), log output, the ring of
  diagnostic events of the page database, and accessors that only read a field.
\<close>

end
